theory Spec2Isabelle
  imports Main
begin

section \<open>The IR the scalarizer works on\<close>

text \<open>
  The pass \<^verbatim>\<open>ScalarizeFunction\<close> (Scalarizer.cpp) rewrites one LLVM function in place.
  The embedding keeps what the pass reads and writes of the IR:
  \<^item> a type is scalar, pointer, array or vector (element type and lane count);
  \<^item> a value is an instruction (an object with an identity, here a number, together with
    its immutable type), an argument, or one of the uniqued constants the pass builds or
    tests for (\<^verbatim>\<open>UndefValue\<close>, \<^verbatim>\<open>ConstantInt\<close>, \<^verbatim>\<open>ConstantPointerNull\<close>,
    \<^verbatim>\<open>ConstantExpr::getExtractElement\<close>, any other constant);
  \<^item> a function is the store of its live instruction objects (attached to a block or
    detached, as the placeholder loads are) and the layout of its basic blocks.
  Names and debug locations of instructions are not modelled.
\<close>

datatype ty =
    VoidTy
  | IntTy nat
  | FloatTy nat
  | PointerTy ty nat
  | ArrayTy ty nat
  | VectorTy ty nat

datatype val =
    VInst nat ty
  | VArg nat ty
  | VUndef ty
  | VConstInt ty nat
  | VNullPtr ty
  | VConstExtract val nat
  | VConst nat ty

fun type_of :: "val \<Rightarrow> ty" where
  "type_of (VInst i t) = t"
| "type_of (VArg a t) = t"
| "type_of (VUndef t) = t"
| "type_of (VConstInt t n) = t"
| "type_of (VNullPtr t) = t"
| "type_of (VConstExtract c n) = (case type_of c of VectorTy e w \<Rightarrow> e | t \<Rightarrow> t)"
| "type_of (VConst c t) = t"

fun isVectorTy :: "ty \<Rightarrow> bool" where
  "isVectorTy (VectorTy e w) = True"
| "isVectorTy t = False"

fun isInstruction :: "val \<Rightarrow> bool" where
  "isInstruction (VInst i t) = True"
| "isInstruction v = False"

fun isUndefValue :: "val \<Rightarrow> bool" where
  "isUndefValue (VUndef t) = True"
| "isUndefValue v = False"

fun isConstantInt :: "val \<Rightarrow> bool" where
  "isConstantInt (VConstInt t n) = True"
| "isConstantInt v = False"

text \<open>\<^verbatim>\<open>isa<Constant>\<close>: everything but instructions and arguments.\<close>

fun isConstant :: "val \<Rightarrow> bool" where
  "isConstant (VInst i t) = False"
| "isConstant (VArg a t) = False"
| "isConstant v = True"

datatype binop =
  Add | Sub | Mul | FAdd | FSub | FMul | UDiv | SDiv | FDiv | URem | SRem | FRem
  | Shl | LShr | AShr | And | Or | Xor

datatype cmpop = ICmp | FCmp

datatype castop =
  Trunc | ZExt | SExt | FPToUI | FPToSI | UIToFP | SIToFP | FPTrunc | FPExt
  | PtrToInt | IntToPtr | BitCast | AddrSpaceCast

datatype intrinsic =
  GenISA_vmeSendIME2 | GenISA_vmeSendFBR2 | GenISA_vmeSendSIC2 | GenISA_other nat

datatype callee = GenIntrinsic intrinsic | OtherCallee nat

text \<open>
  The opcode of an instruction, with what the pass reads beside the operands: the
  predicate of a compare and the callee of a call. \<open>OtherOp\<close> stands for every opcode
  the dispatch switch does not list (terminators, \<^verbatim>\<open>invoke\<close>, ...).
\<close>

datatype opcode =
    Binary binop
  | Compare cmpop nat
  | Cast castop
  | PHI
  | Select
  | ExtractElement
  | InsertElement
  | ShuffleVector
  | Call callee
  | Alloca
  | GetElementPtr
  | Load
  | Store
  | OtherOp nat

text \<open>
  An instruction. \<open>operands\<close> are the value operands the pass iterates over: the
  incoming values of a PHI (their blocks are \<open>incoming\<close>), the arguments of a call,
  the two input vectors of a shuffle (its constant mask is \<open>mask\<close>, \<open>-1\<close> for an undefined
  element, as \<^verbatim>\<open>getMaskValue\<close> returns it), value then pointer for a store.
  \<open>flags\<close> stands for the wrap, exact and fast-math flags, which the pass copies.
\<close>

record inst =
  opcode :: opcode
  ity :: ty
  operands :: "val list"
  incoming :: "nat list"
  mask :: "int list"
  flags :: nat

definition mk_inst :: "opcode \<Rightarrow> ty \<Rightarrow> val list \<Rightarrow> inst" where
  "mk_inst opc t ops =
     \<lparr>opcode = opc, ity = t, operands = ops, incoming = [], mask = [], flags = 0\<rparr>"

text \<open>
  A function: \<open>insts\<close> holds every live instruction object by identity, \<open>blocks\<close> the
  basic blocks in layout order, each with the identities of its instructions in program
  order. \<open>next_id\<close> is the identity the next \<^verbatim>\<open>new\<close> instruction receives.
\<close>

record func =
  insts :: "(nat \<times> inst) list"
  blocks :: "(nat \<times> nat list) list"
  next_id :: nat
  isDeclaration :: bool
  returnType :: ty

definition inst_of :: "func \<Rightarrow> nat \<Rightarrow> inst option" where
  "inst_of f i = map_of (insts f) i"

text \<open>The order in which \<^verbatim>\<open>inst_iterator\<close> walks the function.\<close>

definition all_insts :: "func \<Rightarrow> nat list" where
  "all_insts f = concat (map snd (blocks f))"

definition inst_begin :: "func \<Rightarrow> nat option" where
  "inst_begin f = (case all_insts f of [] \<Rightarrow> None | i # is \<Rightarrow> Some i)"

fun next_in_list :: "nat \<Rightarrow> nat list \<Rightarrow> nat option" where
  "next_in_list i [] = None"
| "next_in_list i [x] = None"
| "next_in_list i (x # y # ys) = (if x = i then Some y else next_in_list i (y # ys))"

text \<open>\<^verbatim>\<open>++\<close> on an \<^verbatim>\<open>inst_iterator\<close>; \<open>None\<close> is \<^verbatim>\<open>inst_end\<close>.\<close>

definition inst_next :: "func \<Rightarrow> nat \<Rightarrow> nat option" where
  "inst_next f i = next_in_list i (all_insts f)"

text \<open>\<^verbatim>\<open>getParent\<close>: the instructions of the block that holds \<open>i\<close>.\<close>

definition parent :: "func \<Rightarrow> nat \<Rightarrow> nat list option" where
  "parent f i = map_option snd (find (\<lambda>(b, is). i \<in> set is) (blocks f))"

text \<open>\<^verbatim>\<open>++\<close> on a \<^verbatim>\<open>BasicBlock::iterator\<close>; \<open>None\<close> is the block's \<^verbatim>\<open>end()\<close>.\<close>

definition bb_next :: "func \<Rightarrow> nat \<Rightarrow> nat option" where
  "bb_next f i = (case parent f i of None \<Rightarrow> None | Some is \<Rightarrow> next_in_list i is)"

definition isPHINode :: "func \<Rightarrow> nat \<Rightarrow> bool" where
  "isPHINode f i = (case inst_of f i of Some ins \<Rightarrow> opcode ins = PHI | None \<Rightarrow> False)"

text \<open>\<^verbatim>\<open>getParent()->getFirstNonPHI()\<close>; \<open>None\<close> is the null pointer LLVM returns
  for a block of PHI nodes only.\<close>

definition getFirstNonPHI :: "func \<Rightarrow> nat \<Rightarrow> nat option" where
  "getFirstNonPHI f i =
     (case parent f i of None \<Rightarrow> None | Some is \<Rightarrow> find (\<lambda>j. \<not> isPHINode f j) is)"

fun ins_before :: "nat \<Rightarrow> nat \<Rightarrow> nat list \<Rightarrow> nat list" where
  "ins_before n loc [] = []"
| "ins_before n loc (x # xs) = (if x = loc then n # x # xs else x # ins_before n loc xs)"

text \<open>
  \<^verbatim>\<open>new\<close> of an instruction with an \<^verbatim>\<open>InsertBefore\<close> argument: the object enters the
  store under a fresh identity and, when the insertion point is not null, the block of
  the insertion point right before it. With a null insertion point it stays detached.
\<close>

definition create_inst :: "func \<Rightarrow> inst \<Rightarrow> nat option \<Rightarrow> val \<times> func" where
  "create_inst f ins loc =
     (VInst (next_id f) (ity ins),
      f\<lparr>insts := insts f @ [(next_id f, ins)],
        blocks := (case loc of
                     None \<Rightarrow> blocks f
                   | Some l \<Rightarrow> map (\<lambda>(b, is). (b, ins_before (next_id f) l is)) (blocks f)),
        next_id := Suc (next_id f)\<rparr>)"

fun create_insts :: "func \<Rightarrow> inst list \<Rightarrow> nat option \<Rightarrow> val list \<times> func" where
  "create_insts f [] loc = ([], f)"
| "create_insts f (x # xs) loc =
     (case create_inst f x loc of (v, f1) \<Rightarrow>
        (case create_insts f1 xs loc of (vs, f2) \<Rightarrow> (v # vs, f2)))"

text \<open>\<^verbatim>\<open>replaceAllUsesWith\<close>: every operand of every live instruction that is
  \<open>old\<close> becomes \<open>new\<close>.\<close>

definition replaceAllUsesWith :: "val \<Rightarrow> val \<Rightarrow> func \<Rightarrow> func" where
  "replaceAllUsesWith old new f =
     f\<lparr>insts := map (\<lambda>(i, ins).
          (i, ins\<lparr>operands := map (\<lambda>v. if v = old then new else v) (operands ins)\<rparr>))
          (insts f)\<rparr>"

definition use_empty :: "func \<Rightarrow> val \<Rightarrow> bool" where
  "use_empty f v = (\<forall>(i, ins) \<in> set (insts f). v \<notin> set (operands ins))"

text \<open>\<^verbatim>\<open>eraseFromParent\<close> and \<^verbatim>\<open>DeleteInstruction\<close>: the object leaves its block
  (if it is in one) and the store.\<close>

definition eraseFromParent :: "nat \<Rightarrow> func \<Rightarrow> func" where
  "eraseFromParent i f =
     f\<lparr>insts := filter (\<lambda>(j, ins). j \<noteq> i) (insts f),
       blocks := map (\<lambda>(b, is). (b, removeAll i is)) (blocks f)\<rparr>"


section \<open>The state of the pass\<close>

text \<open>
  An assertion of the source is a failing branch of the model, and so is a read through a
  null or dangling pointer or past the end of a \<^verbatim>\<open>SmallVector\<close>. A run of the model
  that returns \<open>Inr\<close> therefore passes every assertion and is a run of the release build
  (where assertions are compiled out) as well.
\<close>

datatype error = AssertFailed | NullDeref | OutOfBounds | DanglingPointer

type_synonym 'a res = "error + 'a"

definition bindE :: "'a res \<Rightarrow> ('a \<Rightarrow> 'b res) \<Rightarrow> 'b res" where
  "bindE m k = (case m of Inl e \<Rightarrow> Inl e | Inr x \<Rightarrow> k x)"

text \<open>
  An SCM entry. A null lane is \<open>None\<close>. The pooled allocation of the entries
  (\<^verbatim>\<open>m_SCMAllocationArray\<close>) is memory layout and is not modelled: a pointer to an entry
  is the key of the entry in \<open>m_SCM\<close>, and a fresh entry holds the one null lane that
  \<^verbatim>\<open>getSCMEntry\<close> writes (what a recycled entry holds after lane 0 is never read
  before \<^verbatim>\<open>updateSCMEntryWithValues\<close> overwrites it).
\<close>

record SCMEntry =
  scalarValues :: "val option list"
  isOriginalVectorRemoved :: bool

record DRLEntry =
  unresolvedInst :: val
  dummyVals :: "val list"

text \<open>The two queries of \<^verbatim>\<open>m_pDL\<close> that the pass makes.\<close>

record datalayout =
  getTypeAllocSize :: "ty \<Rightarrow> nat"
  getTypeSizeInBits :: "ty \<Rightarrow> nat"

text \<open>
  The members of the pass. \<open>m_usedVectors\<close> is a \<^verbatim>\<open>SmallSetVector\<close> (a set iterated
  in insertion order); \<open>m_removedInsts\<close> is a \<^verbatim>\<open>SmallDenseSet\<close>, whose iteration order
  the source leaves open and the model takes as the insertion order.
\<close>

record pass =
  m_currFunc :: func
  m_SCM :: "(val \<times> SCMEntry) list"
  m_DRL :: "DRLEntry list"
  m_usedVectors :: "val list"
  m_removedInsts :: "nat list"
  m_ScalarizingVectorLDSTType :: bool
  m_pDL :: datalayout

definition set_insert :: "'a \<Rightarrow> 'a list \<Rightarrow> 'a list" where
  "set_insert x xs = (if x \<in> set xs then xs else xs @ [x])"

definition markRemoved :: "nat \<Rightarrow> pass \<Rightarrow> pass" where
  "markRemoved i st = st\<lparr>m_removedInsts := set_insert i (m_removedInsts st)\<rparr>"

definition getScalarizedValues :: "pass \<Rightarrow> val \<Rightarrow> SCMEntry option" where
  "getScalarizedValues st origValue = map_of (m_SCM st) origValue"

definition emptyEntry :: SCMEntry where
  "emptyEntry = \<lparr>scalarValues = [None], isOriginalVectorRemoved = False\<rparr>"

definition getSCMEntry :: "pass \<Rightarrow> val \<Rightarrow> pass res" where
  "getSCMEntry st origValue =
     (if isUndefValue origValue then Inl AssertFailed
      else if map_of (m_SCM st) origValue \<noteq> None then Inr st
      else Inr (st\<lparr>m_SCM := m_SCM st @ [(origValue, emptyEntry)]\<rparr>))"

text \<open>
  \<^verbatim>\<open>updateSCMEntryWithValues(entry, scalarValues, origValue, isOrigValueRemoved)\<close>.
  \<open>entry\<close> is the key of the entry written; \<open>scalarVals\<close> is the array the caller
  passes, read at the indices below the width of \<open>origValue\<close>.
\<close>

definition updateSCMEntryWithValues ::
  "pass \<Rightarrow> val \<Rightarrow> val option list \<Rightarrow> val \<Rightarrow> bool \<Rightarrow> pass res" where
  "updateSCMEntryWithValues st entry scalarVals origValue isOrigValueRemoved =
     (case type_of origValue of
        VectorTy e width \<Rightarrow>
          (case map_of (m_SCM st) entry of
             None \<Rightarrow> Inl NullDeref
           | Some old \<Rightarrow>
               if length scalarVals < width then Inl OutOfBounds
               else if None \<in> set (take width scalarVals) then Inl AssertFailed
               else Inr (st\<lparr>m_SCM := map (\<lambda>(k, en).
                      if k = entry
                      then (k, \<lparr>scalarValues = take width scalarVals,
                                isOriginalVectorRemoved = isOrigValueRemoved\<rparr>)
                      else (k, en)) (m_SCM st)\<rparr>))
      | ArrayTy e n \<Rightarrow> Inl NullDeref
      | _ \<Rightarrow> Inl AssertFailed)"

text \<open>\<^verbatim>\<open>scalarValues[0] != NULL\<close>, the test for an entry whose lanes are filled.\<close>

definition scalarsInitialized :: "SCMEntry \<Rightarrow> bool" where
  "scalarsInitialized en = (case scalarValues en of [] \<Rightarrow> False | x # xs \<Rightarrow> x \<noteq> None)"

text \<open>The lanes \<open>0..<width\<close> of an entry, each asserted to be non-null.\<close>

definition lanes_of :: "val option list \<Rightarrow> nat \<Rightarrow> val list res" where
  "lanes_of xs width =
     (if length xs < width then Inl OutOfBounds
      else if None \<in> set (take width xs) then Inl AssertFailed
      else Inr (map the (take width xs)))"

definition i32 :: "nat \<Rightarrow> val" where
  "i32 n = VConstInt (IntTy 32) n"

text \<open>
  \<^verbatim>\<open>obtainScalarizedValues\<close>. The model returns the \<open>width\<close> lanes, the flag
  \<^verbatim>\<open>*retIsConstant\<close> and the new state; the caller stores the lanes into its array
  (\<^verbatim>\<open>retValues[i + destIdx]\<close>).
\<close>

definition obtainScalarizedValues :: "pass \<Rightarrow> val \<Rightarrow> (val list \<times> bool \<times> pass) res" where
  "obtainScalarizedValues st origValue =
     (case type_of origValue of
        VectorTy elemTy width \<Rightarrow>
          (let currEntry = getScalarizedValues st origValue in
           if (case currEntry of Some en \<Rightarrow> scalarsInitialized en | None \<Rightarrow> False) then
             bindE (lanes_of (scalarValues (the currEntry)) width)
               (\<lambda>ls. Inr (ls, isConstant origValue, st))
           else if isUndefValue origValue then
             Inr (replicate width (VUndef elemTy), isConstant origValue, st)
           else if isConstant origValue then
             Inr (map (\<lambda>i. VConstExtract origValue i) [0..<width], isConstant origValue, st)
           else if isInstruction origValue \<and> currEntry = None then
             (case create_insts (m_currFunc st)
                     (replicate width (mk_inst Load elemTy [VNullPtr (PointerTy elemTy 0)])) None of
                (dummies, f') \<Rightarrow>
                  Inr (dummies, isConstant origValue,
                       st\<lparr>m_currFunc := f',
                          m_DRL := m_DRL st @
                            [\<lparr>unresolvedInst = origValue, dummyVals = dummies\<rparr>]\<rparr>))
           else
             (case inst_begin (m_currFunc st) of
                None \<Rightarrow> Inl NullDeref
              | Some first \<Rightarrow>
                  bindE (case origValue of
                           VInst i t \<Rightarrow>
                             (case bb_next (m_currFunc st) i of
                                None \<Rightarrow> Inl NullDeref
                              | Some nx \<Rightarrow>
                                  Inr (if isPHINode (m_currFunc st) nx
                                       then getFirstNonPHI (m_currFunc st) nx else Some nx))
                         | _ \<Rightarrow> Inr (Some first))
                    (\<lambda>locationInst.
                       case create_insts (m_currFunc st)
                              (map (\<lambda>i. mk_inst ExtractElement elemTy [origValue, i32 i])
                                 [0..<width]) locationInst of
                         (extracts, f') \<Rightarrow>
                           bindE (getSCMEntry (st\<lparr>m_currFunc := f'\<rparr>) origValue) (\<lambda>st1.
                           bindE (updateSCMEntryWithValues st1 origValue (map Some extracts)
                                    origValue False) (\<lambda>st2.
                           Inr (extracts, isConstant origValue, st2))))))
      | _ \<Rightarrow> Inl AssertFailed)"

definition obtainVectorValueWhichMightBeScalarized :: "pass \<Rightarrow> val \<Rightarrow> pass" where
  "obtainVectorValueWhichMightBeScalarized st vectorVal =
     st\<lparr>m_usedVectors := set_insert vectorVal (m_usedVectors st)\<rparr>"

fun recoverOperands :: "pass \<Rightarrow> val list \<Rightarrow> pass" where
  "recoverOperands st [] = st"
| "recoverOperands st (operand # rest) =
     recoverOperands
       (if isVectorTy (type_of operand)
        then obtainVectorValueWhichMightBeScalarized st operand else st) rest"

text \<open>
  \<^verbatim>\<open>recoverNonScalarizableInst\<close>. \<open>I\<close> is the identity of the instruction, \<open>Inst\<close> its
  content. The operands of a call are its arguments, so the two loops of the source
  are one here.
\<close>

definition recoverNonScalarizableInst :: "pass \<Rightarrow> nat \<Rightarrow> inst \<Rightarrow> pass res" where
  "recoverNonScalarizableInst st I Inst =
     bindE (if isVectorTy (ity Inst) then getSCMEntry st (VInst I (ity Inst)) else Inr st)
       (\<lambda>st1. Inr (recoverOperands st1 (operands Inst)))"


section \<open>The decomposition rules\<close>

text \<open>
  Each \<^verbatim>\<open>scalarizeInstruction\<close> overload takes the identity \<open>I\<close> of the instruction
  and its content. A \<^verbatim>\<open>SmallVector\<close> of lanes is read below its size only; a read past
  it is the branch \<open>OutOfBounds\<close>.
\<close>

definition self :: "nat \<Rightarrow> inst \<Rightarrow> val" where
  "self I ins = VInst I (ity ins)"

definition scalarizeBinaryOperator :: "pass \<Rightarrow> nat \<Rightarrow> inst \<Rightarrow> pass res" where
  "scalarizeBinaryOperator st I BI =
     (case ity BI of
        VectorTy e numElements \<Rightarrow>
          (case operands BI of
             [a, b] \<Rightarrow>
               bindE (getSCMEntry st (self I BI)) (\<lambda>st0.
               bindE (obtainScalarizedValues st0 a) (\<lambda>(operand0, op0IsConst, st1).
               bindE (obtainScalarizedValues st1 b) (\<lambda>(operand1, op1IsConst, st2).
               if op0IsConst \<and> op1IsConst then Inr st2
               else if length operand0 < numElements \<or> length operand1 < numElements
               then Inl OutOfBounds
               else
                 (case create_insts (m_currFunc st2)
                         (map (\<lambda>dup. (mk_inst (opcode BI) (type_of (operand0 ! dup))
                                        [operand0 ! dup, operand1 ! dup])\<lparr>flags := flags BI\<rparr>)
                            [0..<numElements]) (Some I) of
                    (newScalarizedInsts, f') \<Rightarrow>
                      bindE (updateSCMEntryWithValues (st2\<lparr>m_currFunc := f'\<rparr>) (self I BI)
                               (map Some newScalarizedInsts) (self I BI) True)
                        (\<lambda>st3. Inr (markRemoved I st3))))))
           | _ \<Rightarrow> Inl OutOfBounds)
      | _ \<Rightarrow> Inr st)"

definition scalarizeCmpInst :: "pass \<Rightarrow> nat \<Rightarrow> inst \<Rightarrow> pass res" where
  "scalarizeCmpInst st I CI =
     (case ity CI of
        VectorTy e numElements \<Rightarrow>
          (case operands CI of
             [a, b] \<Rightarrow>
               bindE (getSCMEntry st (self I CI)) (\<lambda>st0.
               bindE (obtainScalarizedValues st0 a) (\<lambda>(operand0, op0IsConst, st1).
               bindE (obtainScalarizedValues st1 b) (\<lambda>(operand1, op1IsConst, st2).
               if op0IsConst \<and> op1IsConst then Inr st2
               else if length operand0 < numElements \<or> length operand1 < numElements
               then Inl OutOfBounds
               else
                 (case create_insts (m_currFunc st2)
                         (map (\<lambda>dup. mk_inst (opcode CI) e [operand0 ! dup, operand1 ! dup])
                            [0..<numElements]) (Some I) of
                    (newScalarizedInsts, f') \<Rightarrow>
                      bindE (updateSCMEntryWithValues (st2\<lparr>m_currFunc := f'\<rparr>) (self I CI)
                               (map Some newScalarizedInsts) (self I CI) True)
                        (\<lambda>st3. Inr (markRemoved I st3))))))
           | _ \<Rightarrow> Inl OutOfBounds)
      | _ \<Rightarrow> Inr st)"

text \<open>The width of a vector type, \<open>None\<close> for the null result of
  \<^verbatim>\<open>dyn_cast<VectorType>\<close>.\<close>

fun vectorWidth :: "ty \<Rightarrow> nat option" where
  "vectorWidth (VectorTy e w) = Some w"
| "vectorWidth t = None"

definition scalarizeCastInst :: "pass \<Rightarrow> nat \<Rightarrow> inst \<Rightarrow> pass res" where
  "scalarizeCastInst st I CI =
     (if opcode CI = Cast BitCast \<and> vectorWidth (ity CI) = None
      then recoverNonScalarizableInst st I CI
      else
        (case ity CI of
           VectorTy scalarDestType numElements \<Rightarrow>
             (case operands CI of
                [a] \<Rightarrow>
                  if opcode CI = Cast BitCast \<and> vectorWidth (type_of a) \<noteq> Some numElements
                  then recoverNonScalarizableInst st I CI
                  else
                    bindE (getSCMEntry st (self I CI)) (\<lambda>st0.
                    if vectorWidth (type_of a) \<noteq> Some numElements then Inl AssertFailed
                    else
                      bindE (obtainScalarizedValues st0 a) (\<lambda>(operand0, op0IsConst, st1).
                      if op0IsConst then Inr st1
                      else if length operand0 < numElements then Inl OutOfBounds
                      else
                        (case create_insts (m_currFunc st1)
                                (map (\<lambda>dup. mk_inst (opcode CI) scalarDestType [operand0 ! dup])
                                   [0..<numElements]) (Some I) of
                           (newScalarizedInsts, f') \<Rightarrow>
                             bindE (updateSCMEntryWithValues (st1\<lparr>m_currFunc := f'\<rparr>)
                                      (self I CI) (map Some newScalarizedInsts) (self I CI) True)
                               (\<lambda>st2. Inr (markRemoved I st2)))))
              | _ \<Rightarrow> Inl OutOfBounds)
         | _ \<Rightarrow> Inr st))"

text \<open>\<^verbatim>\<open>dyn_cast<GenIntrinsicInst>(Op)\<close> with one of the three VME send intrinsics.\<close>

definition isVMESend :: "func \<Rightarrow> val \<Rightarrow> bool" where
  "isVMESend f Op =
     (case Op of
        VInst i t \<Rightarrow>
          (case inst_of f i of
             Some ins \<Rightarrow>
               opcode ins = Call (GenIntrinsic GenISA_vmeSendIME2) \<or>
               opcode ins = Call (GenIntrinsic GenISA_vmeSendFBR2) \<or>
               opcode ins = Call (GenIntrinsic GenISA_vmeSendSIC2)
           | None \<Rightarrow> False)
      | _ \<Rightarrow> False)"

text \<open>\<^verbatim>\<open>addIncoming\<close> on the PHI node with identity \<open>p\<close>.\<close>

definition addIncoming :: "nat \<Rightarrow> val \<Rightarrow> nat \<Rightarrow> func \<Rightarrow> func" where
  "addIncoming p v blk f =
     f\<lparr>insts := map (\<lambda>(i, ins).
          if i = p
          then (i, ins\<lparr>operands := operands ins @ [v], incoming := incoming ins @ [blk]\<rparr>)
          else (i, ins)) (insts f)\<rparr>"

fun addIncomings :: "(val \<times> val) list \<Rightarrow> nat \<Rightarrow> func \<Rightarrow> func" where
  "addIncomings [] blk f = f"
| "addIncomings ((VInst p t, v) # rest) blk f = addIncomings rest blk (addIncoming p v blk f)"
| "addIncomings ((other, v) # rest) blk f = addIncomings rest blk f"

fun fillPHIs :: "pass \<Rightarrow> val list \<Rightarrow> nat \<Rightarrow> (val \<times> nat) list \<Rightarrow> pass res" where
  "fillPHIs st newScalarizedPHI numElements [] = Inr st"
| "fillPHIs st newScalarizedPHI numElements ((v, blk) # rest) =
     (case obtainScalarizedValues st v of
        Inl err \<Rightarrow> Inl err
      | Inr (operand, c, st1) \<Rightarrow>
          if length operand < numElements then Inl OutOfBounds
          else fillPHIs
                 (st1\<lparr>m_currFunc :=
                    addIncomings (zip newScalarizedPHI operand) blk (m_currFunc st1)\<rparr>)
                 newScalarizedPHI numElements rest)"

definition scalarizePHINode :: "pass \<Rightarrow> nat \<Rightarrow> inst \<Rightarrow> pass res" where
  "scalarizePHINode st I PI =
     (case ity PI of
        VectorTy scalarType numElements \<Rightarrow>
          if \<exists>Op \<in> set (operands PI). isVMESend (m_currFunc st) Op
          then recoverNonScalarizableInst st I PI
          else if length (incoming PI) \<noteq> length (operands PI) then Inl OutOfBounds
          else
            bindE (getSCMEntry st (self I PI)) (\<lambda>st0.
            case create_insts (m_currFunc st0)
                   (replicate numElements (mk_inst PHI scalarType [])) (Some I) of
              (newScalarizedPHI, f') \<Rightarrow>
                bindE (fillPHIs (st0\<lparr>m_currFunc := f'\<rparr>) newScalarizedPHI numElements
                         (zip (operands PI) (incoming PI))) (\<lambda>st1.
                bindE (updateSCMEntryWithValues st1 (self I PI) (map Some newScalarizedPHI)
                         (self I PI) True) (\<lambda>st2.
                Inr (markRemoved I st2))))
      | _ \<Rightarrow> Inr st)"

fun createSelects :: "func \<Rightarrow> (val \<times> val \<times> val) list \<Rightarrow> nat \<Rightarrow> val list \<times> func" where
  "createSelects f [] I = ([], f)"
| "createSelects f ((c, t, e) # rest) I =
     (if t \<noteq> e then
        (case create_inst f (mk_inst Select (type_of t) [c, t, e]) (Some I) of
           (v, f1) \<Rightarrow> (case createSelects f1 rest I of (vs, f2) \<Rightarrow> (v # vs, f2)))
      else (case createSelects f rest I of (vs, f2) \<Rightarrow> (t # vs, f2)))"

definition scalarizeSelectInst :: "pass \<Rightarrow> nat \<Rightarrow> inst \<Rightarrow> pass res" where
  "scalarizeSelectInst st I SI =
     (case ity SI of
        VectorTy e numElements \<Rightarrow>
          (case operands SI of
             [conditionVal, trueValue, falseValue] \<Rightarrow>
               bindE (getSCMEntry st (self I SI)) (\<lambda>st0.
               bindE (obtainScalarizedValues st0 trueValue) (\<lambda>(trueValOp, c1, st1).
               bindE (obtainScalarizedValues st1 falseValue) (\<lambda>(falseValOp, c2, st2).
               bindE (if isVectorTy (type_of conditionVal)
                      then bindE (obtainScalarizedValues st2 conditionVal)
                             (\<lambda>(condOp, c3, st3). Inr (condOp, st3))
                      else Inr (replicate numElements conditionVal, st2)) (\<lambda>(condOp, st3).
               if length condOp < numElements \<or> length trueValOp < numElements \<or>
                  length falseValOp < numElements
               then Inl OutOfBounds
               else
                 (case createSelects (m_currFunc st3)
                         (map (\<lambda>dup. (condOp ! dup, trueValOp ! dup, falseValOp ! dup))
                            [0..<numElements]) I of
                    (newScalarizedInsts, f') \<Rightarrow>
                      bindE (updateSCMEntryWithValues (st3\<lparr>m_currFunc := f'\<rparr>) (self I SI)
                               (map Some newScalarizedInsts) (self I SI) True)
                        (\<lambda>st4. Inr (markRemoved I st4)))))))
           | _ \<Rightarrow> Inl OutOfBounds)
      | _ \<Rightarrow> Inr st)"

text \<open>\<^verbatim>\<open>static_cast<unsigned int>\<close> of the 64-bit index.\<close>

definition trunc32 :: "nat \<Rightarrow> nat" where
  "trunc32 n = n mod 4294967296"

text \<open>\<^verbatim>\<open>replaceAllUsesWith\<close> as the pass calls it: LLVM asserts that a value is not
  replaced by itself.\<close>

definition RAUW :: "val \<Rightarrow> val \<Rightarrow> func \<Rightarrow> func res" where
  "RAUW old new f = (if old = new then Inl AssertFailed else Inr (replaceAllUsesWith old new f))"

definition scalarizeExtractElementInst :: "pass \<Rightarrow> nat \<Rightarrow> inst \<Rightarrow> pass res" where
  "scalarizeExtractElementInst st I EI =
     (case operands EI of
        [vectorValue, scalarIndexVal] \<Rightarrow>
          (case scalarIndexVal of
             VConstInt t scalarIndex \<Rightarrow>
               bindE (obtainScalarizedValues st vectorValue) (\<lambda>(operand, c, st1).
               if length operand \<le> trunc32 scalarIndex then Inl OutOfBounds
               else
                 bindE (RAUW (self I EI) (operand ! trunc32 scalarIndex) (m_currFunc st1))
                   (\<lambda>f'. Inr (markRemoved I (st1\<lparr>m_currFunc := f'\<rparr>))))
           | _ \<Rightarrow> recoverNonScalarizableInst st I EI)
      | _ \<Rightarrow> Inl OutOfBounds)"

definition scalarizeInsertElementInst :: "pass \<Rightarrow> nat \<Rightarrow> inst \<Rightarrow> pass res" where
  "scalarizeInsertElementInst st I II =
     (case operands II of
        [sourceVectorValue, sourceScalarValue, scalarIndexVal] \<Rightarrow>
          (case scalarIndexVal of
             VConstInt t scalarIndex \<Rightarrow>
               bindE (getSCMEntry st (self I II)) (\<lambda>st0.
               case vectorWidth (ity II) of
                 None \<Rightarrow> Inl NullDeref
               | Some n \<Rightarrow>
                   if \<not> scalarIndex < n then Inl AssertFailed
                   else
                     bindE (if isUndefValue sourceVectorValue then
                              (case type_of sourceVectorValue of
                                 VectorTy elemTy w \<Rightarrow> Inr (replicate w (VUndef elemTy), st0)
                               | _ \<Rightarrow> Inl AssertFailed)
                            else bindE (obtainScalarizedValues st0 sourceVectorValue)
                                   (\<lambda>(vs, c, st1). Inr (vs, st1))) (\<lambda>(scalarVals, st1).
                     if length scalarVals \<le> trunc32 scalarIndex then Inl OutOfBounds
                     else
                       bindE (updateSCMEntryWithValues st1 (self I II)
                                (map Some (scalarVals[trunc32 scalarIndex := sourceScalarValue]))
                                (self I II) True)
                         (\<lambda>st2. Inr (markRemoved I st2))))
           | _ \<Rightarrow> recoverNonScalarizableInst st I II)
      | _ \<Rightarrow> Inl OutOfBounds)"

text \<open>Storing the lanes \<open>ls\<close> into the array \<open>all\<close> from index \<open>destIdx\<close> on.\<close>

definition place :: "val option list \<Rightarrow> nat \<Rightarrow> val list \<Rightarrow> val option list" where
  "place all destIdx ls = take destIdx all @ map Some ls @ drop (destIdx + length ls) all"

definition scalarizeShuffleVectorInst :: "pass \<Rightarrow> nat \<Rightarrow> inst \<Rightarrow> pass res" where
  "scalarizeShuffleVectorInst st I SI =
     (case operands SI of
        [sourceVector0Value, sourceVector1Value] \<Rightarrow>
          (case type_of sourceVector0Value of
             VectorTy elemTy sourceVectorWidth \<Rightarrow>
               if type_of sourceVector1Value \<noteq> type_of sourceVector0Value then Inl AssertFailed
               else
                 bindE (if \<not> isUndefValue sourceVector0Value
                        then bindE (obtainScalarizedValues st sourceVector0Value)
                               (\<lambda>(ls, c, st1).
                                  Inr (place (replicate (2 * sourceVectorWidth) None) 0 ls, st1))
                        else Inr (replicate (2 * sourceVectorWidth) None, st))
                   (\<lambda>(allValues0, st1).
                 bindE (if \<not> isUndefValue sourceVector1Value
                        then bindE (obtainScalarizedValues st1 sourceVector1Value)
                               (\<lambda>(ls, c, st2). Inr (place allValues0 sourceVectorWidth ls, st2))
                        else Inr (allValues0, st1))
                   (\<lambda>(allValues, st2).
                 case vectorWidth (ity SI) of
                   None \<Rightarrow> Inl NullDeref
                 | Some width \<Rightarrow>
                     if length (mask SI) < width \<or>
                        (\<exists>m \<in> set (take width (mask SI)). int (length allValues) \<le> m)
                     then Inl OutOfBounds
                     else
                       bindE (getSCMEntry st2 (self I SI)) (\<lambda>st3.
                       bindE (updateSCMEntryWithValues st3 (self I SI)
                                (map (\<lambda>maskValue.
                                        if maskValue \<ge> 0 \<and> allValues ! nat maskValue \<noteq> None
                                        then allValues ! nat maskValue
                                        else Some (VUndef elemTy))
                                   (take width (mask SI)))
                                (self I SI) True)
                         (\<lambda>st4. Inr (markRemoved I st4)))))
           | _ \<Rightarrow> Inl AssertFailed)
      | _ \<Rightarrow> Inl OutOfBounds)"

definition isScalarizableLoadStoreType :: "pass \<Rightarrow> ty \<Rightarrow> bool" where
  "isScalarizableLoadStoreType st t = (m_ScalarizingVectorLDSTType st \<and> isVectorTy t)"

text \<open>The assertion on the sizes the data layout reports for a vector type.\<close>

definition sizesOK :: "datalayout \<Rightarrow> ty \<Rightarrow> ty \<Rightarrow> bool" where
  "sizesOK dl dataType elemTy =
     (let vectorSize = getTypeAllocSize dl dataType;
          elementSize = getTypeSizeInBits dl elemTy div 8
      in elementSize \<noteq> 0 \<and> vectorSize div elementSize > 0 \<and> vectorSize mod elementSize = 0)"

fun createLaneLoads :: "func \<Rightarrow> val \<Rightarrow> ty \<Rightarrow> nat list \<Rightarrow> nat \<Rightarrow> val list \<times> func" where
  "createLaneLoads f operandBase elemTy [] I = ([], f)"
| "createLaneLoads f operandBase elemTy (dup # rest) I =
     (case create_inst f (mk_inst GetElementPtr (type_of operandBase) [operandBase, i32 dup])
             (Some I) of
        (pGEP, f1) \<Rightarrow>
          (case create_inst f1 (mk_inst Load elemTy [pGEP]) (Some I) of
             (ld, f2) \<Rightarrow>
               (case createLaneLoads f2 operandBase elemTy rest I of
                  (vs, f3) \<Rightarrow> (ld # vs, f3))))"

definition scalarizeLoadInst :: "pass \<Rightarrow> nat \<Rightarrow> inst \<Rightarrow> pass res" where
  "scalarizeLoadInst st I LI =
     (if isScalarizableLoadStoreType st (ity LI) then
        (case ity LI of
           VectorTy elemTy numDupElements \<Rightarrow>
             bindE (getSCMEntry st (self I LI)) (\<lambda>st0.
             if \<not> sizesOK (m_pDL st0) (ity LI) elemTy then Inl AssertFailed
             else
               (case operands LI of
                  [GepPtr] \<Rightarrow>
                    (case type_of GepPtr of
                       PointerTy pointee addrSpace \<Rightarrow>
                         (case create_inst (m_currFunc st0)
                                 (mk_inst (Cast BitCast) (PointerTy elemTy addrSpace) [GepPtr])
                                 (Some I) of
                            (operandBase, f1) \<Rightarrow>
                              (case createLaneLoads f1 operandBase elemTy
                                      [0..<numDupElements] I of
                                 (newScalarizedInsts, f2) \<Rightarrow>
                                   bindE (updateSCMEntryWithValues (st0\<lparr>m_currFunc := f2\<rparr>)
                                            (self I LI) (map Some newScalarizedInsts)
                                            (self I LI) True)
                                     (\<lambda>st1. Inr (markRemoved I st1))))
                     | _ \<Rightarrow> Inl AssertFailed)
                | _ \<Rightarrow> Inl OutOfBounds))
         | _ \<Rightarrow> Inl NullDeref)
      else recoverNonScalarizableInst st I LI)"

fun createLaneStores :: "func \<Rightarrow> val \<Rightarrow> (nat \<times> val) list \<Rightarrow> nat \<Rightarrow> func" where
  "createLaneStores f operandBase [] I = f"
| "createLaneStores f operandBase ((dup, v) # rest) I =
     (case create_inst f (mk_inst GetElementPtr (type_of operandBase) [operandBase, i32 dup])
             (Some I) of
        (pGEP, f1) \<Rightarrow>
          (case create_inst f1 (mk_inst Store VoidTy [v, pGEP]) (Some I) of
             (s, f2) \<Rightarrow> createLaneStores f2 operandBase rest I))"

definition scalarizeStoreInst :: "pass \<Rightarrow> nat \<Rightarrow> inst \<Rightarrow> pass res" where
  "scalarizeStoreInst st I SI =
     (case operands SI of
        [dataVal, GepPtr] \<Rightarrow>
          if isScalarizableLoadStoreType st (type_of dataVal) then
            (case type_of dataVal of
               VectorTy elemTy numDupElements \<Rightarrow>
                 if \<not> sizesOK (m_pDL st) (type_of dataVal) elemTy then Inl AssertFailed
                 else
                   bindE (obtainScalarizedValues st dataVal) (\<lambda>(operand0, opIsConst, st1).
                   case type_of GepPtr of
                     PointerTy pointee addrSpace \<Rightarrow>
                       (case create_inst (m_currFunc st1)
                               (mk_inst (Cast BitCast) (PointerTy elemTy addrSpace) [GepPtr])
                               (Some I) of
                          (operandBase, f1) \<Rightarrow>
                            if length operand0 < numDupElements then Inl OutOfBounds
                            else
                              Inr (markRemoved I
                                     (st1\<lparr>m_currFunc :=
                                        createLaneStores f1 operandBase
                                          (zip [0..<numDupElements] operand0) I\<rparr>)))
                   | _ \<Rightarrow> Inl AssertFailed)
             | _ \<Rightarrow> Inl NullDeref)
          else recoverNonScalarizableInst st I SI
      | _ \<Rightarrow> Inl OutOfBounds)"

text \<open>
  \<^verbatim>\<open>dispatchInstructionToScalarize\<close>. An identity with no live object behind it is a
  dangling pointer. \<^verbatim>\<open>AddrSpaceCast\<close> is not among the cast opcodes of the switch and
  takes the default branch; so does a call, whose case is commented out.
\<close>

definition dispatchInstructionToScalarize :: "pass \<Rightarrow> nat \<Rightarrow> pass res" where
  "dispatchInstructionToScalarize st I =
     (if I \<in> set (m_removedInsts st) then Inr st
      else
        (case inst_of (m_currFunc st) I of
           None \<Rightarrow> Inl DanglingPointer
         | Some ins \<Rightarrow>
             (case opcode ins of
                Binary b \<Rightarrow> scalarizeBinaryOperator st I ins
              | Compare c p \<Rightarrow> scalarizeCmpInst st I ins
              | Cast c \<Rightarrow>
                  if c = AddrSpaceCast then recoverNonScalarizableInst st I ins
                  else scalarizeCastInst st I ins
              | PHI \<Rightarrow> scalarizePHINode st I ins
              | Select \<Rightarrow> scalarizeSelectInst st I ins
              | ExtractElement \<Rightarrow> scalarizeExtractElementInst st I ins
              | InsertElement \<Rightarrow> scalarizeInsertElementInst st I ins
              | ShuffleVector \<Rightarrow> scalarizeShuffleVectorInst st I ins
              | Call c \<Rightarrow> recoverNonScalarizableInst st I ins
              | Alloca \<Rightarrow> recoverNonScalarizableInst st I ins
              | GetElementPtr \<Rightarrow> recoverNonScalarizableInst st I ins
              | Load \<Rightarrow> scalarizeLoadInst st I ins
              | Store \<Rightarrow> scalarizeStoreInst st I ins
              | OtherOp n \<Rightarrow> recoverNonScalarizableInst st I ins)))"


section \<open>Reassembly\<close>

text \<open>The chain of \<^verbatim>\<open>insertelement\<close> instructions: each one takes the vector
  assembled so far, and all are inserted before \<open>insertLocation\<close>.\<close>

fun assemble :: "func \<Rightarrow> val \<Rightarrow> (nat \<times> val) list \<Rightarrow> nat option \<Rightarrow> val \<times> func" where
  "assemble f assembledVector [] insertLocation = (assembledVector, f)"
| "assemble f assembledVector ((i, lane) # rest) insertLocation =
     (case create_inst f
             (mk_inst InsertElement (type_of assembledVector) [assembledVector, lane, i32 i])
             insertLocation of
        (ie, f1) \<Rightarrow> assemble f1 ie rest insertLocation)"

definition obtainVectorValueWhichMightBeScalarizedImpl :: "pass \<Rightarrow> val \<Rightarrow> pass res" where
  "obtainVectorValueWhichMightBeScalarizedImpl st vectorVal =
     (case type_of vectorVal of
        VectorTy e width \<Rightarrow>
          if isUndefValue vectorVal then Inr st
          else
            (case map_of (m_SCM st) vectorVal of
               None \<Rightarrow> Inr st
             | Some valueEntry \<Rightarrow>
                 if \<not> isOriginalVectorRemoved valueEntry then Inr st
                 else
                   (case vectorVal of
                      VInst vectorInst t \<Rightarrow>
                        bindE (lanes_of (scalarValues valueEntry) width) (\<lambda>lanes.
                        case assemble (m_currFunc st) (VUndef (type_of vectorVal))
                               (zip [0..<width] lanes)
                               (if isPHINode (m_currFunc st) vectorInst
                                then getFirstNonPHI (m_currFunc st) vectorInst
                                else Some vectorInst) of
                          (assembledVector, f') \<Rightarrow>
                            bindE (RAUW vectorVal assembledVector f') (\<lambda>f''.
                            bindE (getSCMEntry (st\<lparr>m_currFunc := f''\<rparr>) assembledVector) (\<lambda>st1.
                            updateSCMEntryWithValues st1 assembledVector
                              (scalarValues valueEntry) assembledVector False)))
                    | _ \<Rightarrow> Inl AssertFailed))
      | _ \<Rightarrow> Inl AssertFailed)"

fun resolveVectorValuesFrom :: "pass \<Rightarrow> val list \<Rightarrow> pass res" where
  "resolveVectorValuesFrom st [] = Inr st"
| "resolveVectorValuesFrom st (v # rest) =
     (case obtainVectorValueWhichMightBeScalarizedImpl st v of
        Inl err \<Rightarrow> Inl err
      | Inr st1 \<Rightarrow> resolveVectorValuesFrom st1 rest)"

definition resolveVectorValues :: "pass \<Rightarrow> pass res" where
  "resolveVectorValues st = resolveVectorValuesFrom st (m_usedVectors st)"

section \<open>Resolution of the deferred references\<close>

text \<open>The lambda \<^verbatim>\<open>isDummyValue\<close>: a load whose pointer operand is the null pointer
  constant. It reads the object behind the pointer, so a deleted instruction is a
  dangling read.\<close>

definition isDummyValue :: "func \<Rightarrow> val \<Rightarrow> bool res" where
  "isDummyValue f v =
     (case v of
        VInst i t \<Rightarrow>
          (case inst_of f i of
             None \<Rightarrow> Inl DanglingPointer
           | Some ins \<Rightarrow>
               Inr (opcode ins = Load \<and>
                    (case operands ins of [VNullPtr pt] \<Rightarrow> True | _ \<Rightarrow> False)))
      | _ \<Rightarrow> Inr False)"

text \<open>The loop that sets \<^verbatim>\<open>hasDummyLoad\<close>, with its \<^verbatim>\<open>break\<close>.\<close>

fun hasDummyLoad :: "func \<Rightarrow> val option list \<Rightarrow> bool res" where
  "hasDummyLoad f [] = Inr False"
| "hasDummyLoad f (None # rest) = Inl NullDeref"
| "hasDummyLoad f (Some v # rest) =
     (case isDummyValue f v of
        Inl err \<Rightarrow> Inl err
      | Inr b \<Rightarrow> if b then Inr True else hasDummyLoad f rest)"

text \<open>The loop that fills \<^verbatim>\<open>newInsts\<close>: a lane that is unset or a placeholder becomes
  a new \<^verbatim>\<open>extractelement\<close> of the vector instruction.\<close>

fun rescalarize ::
  "func \<Rightarrow> val \<Rightarrow> ty \<Rightarrow> bool \<Rightarrow> val option list \<Rightarrow> nat list \<Rightarrow> nat option \<Rightarrow>
     (val list \<times> func) res" where
  "rescalarize f vectorInst elemTy initialized lanes [] loc = Inr ([], f)"
| "rescalarize f vectorInst elemTy initialized lanes (i # rest) loc =
     (case (if \<not> initialized then Inr True
            else if length lanes \<le> i then Inl OutOfBounds
            else (case lanes ! i of None \<Rightarrow> Inl NullDeref | Some v \<Rightarrow> isDummyValue f v)) of
        Inl err \<Rightarrow> Inl err
      | Inr fresh \<Rightarrow>
          if fresh then
            (case create_inst f (mk_inst ExtractElement elemTy [vectorInst, i32 i]) loc of
               (EE, f1) \<Rightarrow>
                 (case rescalarize f1 vectorInst elemTy initialized lanes rest loc of
                    Inl err \<Rightarrow> Inl err
                  | Inr (vs, f2) \<Rightarrow> Inr (EE # vs, f2)))
          else
            (case rescalarize f vectorInst elemTy initialized lanes rest loc of
               Inl err \<Rightarrow> Inl err
             | Inr (vs, f2) \<Rightarrow> Inr (the (lanes ! i) # vs, f2)))"

text \<open>The loop that connects the resolved values to their consumers: each placeholder
  is replaced by the lane and deleted.\<close>

fun connectDummies :: "func \<Rightarrow> (val \<times> val option) list \<Rightarrow> func res" where
  "connectDummies f [] = Inr f"
| "connectDummies f ((VInst d t, Some scalarVal) # rest) =
     (if inst_of f d = None then Inl DanglingPointer
      else
        (case RAUW (VInst d t) scalarVal f of
           Inl err \<Rightarrow> Inl err
         | Inr f1 \<Rightarrow> connectDummies (eraseFromParent d f1) rest))"
| "connectDummies f ((VInst d t, None) # rest) = Inl NullDeref"
| "connectDummies f ((other, lane) # rest) = Inl AssertFailed"

text \<open>One iteration of the loop over \<^verbatim>\<open>m_DRL\<close>.\<close>

definition resolveDRLEntry :: "pass \<Rightarrow> DRLEntry \<Rightarrow> pass res" where
  "resolveDRLEntry st current =
     (case unresolvedInst current of
        VInst vi t \<Rightarrow>
          (case t of
             VectorTy elemTy width \<Rightarrow>
               bindE (getSCMEntry st (VInst vi t)) (\<lambda>st0.
               case map_of (m_SCM st0) (VInst vi t) of
                 None \<Rightarrow> Inl NullDeref
               | Some currentInstEntry \<Rightarrow>
                   bindE (if scalarsInitialized currentInstEntry
                          then if length (scalarValues currentInstEntry) < width
                               then Inl OutOfBounds
                               else hasDummyLoad (m_currFunc st0)
                                      (take width (scalarValues currentInstEntry))
                          else Inr False) (\<lambda>hasDummy.
                   bindE (if \<not> scalarsInitialized currentInstEntry \<or> hasDummy then
                            (case bb_next (m_currFunc st0) vi of
                               None \<Rightarrow> Inl NullDeref
                             | Some nx \<Rightarrow>
                                 bindE (rescalarize (m_currFunc st0) (VInst vi t) elemTy
                                          (scalarsInitialized currentInstEntry)
                                          (scalarValues currentInstEntry) [0..<width]
                                          (if isPHINode (m_currFunc st0) nx
                                           then getFirstNonPHI (m_currFunc st0) nx
                                           else Some nx)) (\<lambda>(newInsts, f').
                                 updateSCMEntryWithValues (st0\<lparr>m_currFunc := f'\<rparr>) (VInst vi t)
                                   (map Some newInsts) (VInst vi t) False))
                          else Inr st0) (\<lambda>st1.
                   case map_of (m_SCM st1) (VInst vi t) of
                     None \<Rightarrow> Inl NullDeref
                   | Some resolvedEntry \<Rightarrow>
                       if length (dummyVals current) < width \<or>
                          length (scalarValues resolvedEntry) < width
                       then Inl OutOfBounds
                       else
                         bindE (connectDummies (m_currFunc st1)
                                  (zip (take width (dummyVals current))
                                       (scalarValues resolvedEntry)))
                           (\<lambda>f'. Inr (st1\<lparr>m_currFunc := f'\<rparr>)))))
           | _ \<Rightarrow> Inl AssertFailed)
      | _ \<Rightarrow> Inl AssertFailed)"

fun resolveDRLEntries :: "pass \<Rightarrow> DRLEntry list \<Rightarrow> pass res" where
  "resolveDRLEntries st [] = Inr st"
| "resolveDRLEntries st (current # rest) =
     (case resolveDRLEntry st current of
        Inl err \<Rightarrow> Inl err
      | Inr st1 \<Rightarrow> resolveDRLEntries st1 rest)"

definition resolveDeferredInstructions :: "pass \<Rightarrow> pass res" where
  "resolveDeferredInstructions st =
     bindE (resolveDRLEntries st (m_DRL st)) (\<lambda>st1. Inr (st1\<lparr>m_DRL := []\<rparr>))"

section \<open>The orchestrator\<close>

text \<open>
  The traversal loop of \<^verbatim>\<open>runOnFunction\<close>. The cursor \<open>sI\<close> is the identity of the next
  instruction (\<open>None\<close> is \<^verbatim>\<open>inst_end\<close>) and is advanced before the dispatch. The loop
  need not be bounded by the instructions present at the start, since a dispatch may
  insert instructions behind the cursor: the model runs it on fuel, and \<open>None\<close> is a loop
  that has not ended when the fuel has.
\<close>

fun traverse :: "nat \<Rightarrow> pass \<Rightarrow> nat option \<Rightarrow> pass res option" where
  "traverse fuel st None = Some (Inr st)"
| "traverse 0 st (Some currInst) = None"
| "traverse (Suc fuel) st (Some currInst) =
     (case dispatchInstructionToScalarize st currInst of
        Inl err \<Rightarrow> Some (Inl err)
      | Inr st1 \<Rightarrow> traverse fuel st1 (inst_next (m_currFunc st) currInst))"

text \<open>The loop over \<^verbatim>\<open>m_removedInsts\<close> that deletes the replaced instructions.\<close>

fun eraseRemoved :: "func \<Rightarrow> nat list \<Rightarrow> func res" where
  "eraseRemoved f [] = Inr f"
| "eraseRemoved f (i # rest) =
     (case inst_of f i of
        None \<Rightarrow> Inl DanglingPointer
      | Some ins \<Rightarrow>
          (let f1 = replaceAllUsesWith (VInst i (ity ins)) (VUndef (ity ins)) f in
           if \<not> use_empty f1 (VInst i (ity ins)) then Inl AssertFailed
           else eraseRemoved (eraseFromParent i f1) rest))"

text \<open>
  \<^verbatim>\<open>runOnFunction\<close>. \<open>forceInline\<close> is the test
  \<^verbatim>\<open>IGC_GET_FLAG_VALUE(FunctionControl) == FLAG_FCALL_FORCE_INLINE\<close>, \<open>ldst\<close> the
  constructor argument \<^verbatim>\<open>scalarizingVectorLDSTType\<close>, \<open>dl\<close> the data layout of the
  module. The result is the returned boolean and the function as the pass leaves it.
\<close>

definition initPass :: "bool \<Rightarrow> datalayout \<Rightarrow> func \<Rightarrow> pass" where
  "initPass ldst dl F =
     \<lparr>m_currFunc = F, m_SCM = [], m_DRL = [], m_usedVectors = [], m_removedInsts = [],
      m_ScalarizingVectorLDSTType = ldst, m_pDL = dl\<rparr>"

definition runOnFunction ::
  "nat \<Rightarrow> bool \<Rightarrow> bool \<Rightarrow> datalayout \<Rightarrow> func \<Rightarrow> (bool \<times> func) res option" where
  "runOnFunction fuel forceInline ldst dl F =
     (if (if \<not> forceInline then isDeclaration F else returnType F \<noteq> VoidTy)
      then Some (Inr (False, F))
      else
        (case traverse fuel (initPass ldst dl F) (inst_begin F) of
           None \<Rightarrow> None
         | Some r \<Rightarrow>
             Some (bindE r (\<lambda>st1.
                   bindE (resolveVectorValues st1) (\<lambda>st2.
                   bindE (resolveDeferredInstructions st2) (\<lambda>st3.
                   bindE (eraseRemoved (m_currFunc st3) (m_removedInsts st3)) (\<lambda>f'.
                   Inr (True, f'))))))))"


section \<open>Properties the claims speak about\<close>

text \<open>
  The lane invariant of the SCM: an entry whose lanes are filled has as many lanes as
  the vector type of its owner has elements, and none of them is null.
\<close>

definition laneInvariant :: "(val \<times> SCMEntry) list \<Rightarrow> bool" where
  "laneInvariant scm =
     (\<forall>(v, en) \<in> set scm.
        scalarsInitialized en \<longrightarrow>
          vectorWidth (type_of v) = Some (length (scalarValues en)) \<and>
          None \<notin> set (scalarValues en))"

text \<open>
  A function with no vector instruction: no instruction has a vector result or a vector
  operand, and none is an \<^verbatim>\<open>extractelement\<close>, \<^verbatim>\<open>insertelement\<close> or
  \<^verbatim>\<open>shufflevector\<close> (which LLVM types with a vector operand or result).
\<close>

definition noVectors :: "func \<Rightarrow> bool" where
  "noVectors F =
     (\<forall>(i, ins) \<in> set (insts F).
        \<not> isVectorTy (ity ins) \<and>
        (\<forall>v \<in> set (operands ins). \<not> isVectorTy (type_of v)) \<and>
        opcode ins \<noteq> ExtractElement \<and> opcode ins \<noteq> InsertElement \<and>
        opcode ins \<noteq> ShuffleVector)"

text \<open>
  What the traversal needs of the host IR: an instruction stands at one place of the
  layout, every instruction of the layout is a live object, and a store has its two
  operands.
\<close>

definition wellFormed :: "func \<Rightarrow> bool" where
  "wellFormed F =
     (distinct (all_insts F) \<and>
      (\<forall>i \<in> set (all_insts F). inst_of F i \<noteq> None) \<and>
      (\<forall>(i, ins) \<in> set (insts F). opcode ins = Store \<longrightarrow> length (operands ins) = 2))"

text \<open>The early exit of \<^verbatim>\<open>runOnFunction\<close>.\<close>

definition skipped :: "bool \<Rightarrow> func \<Rightarrow> bool" where
  "skipped forceInline F = (if \<not> forceInline then isDeclaration F else returnType F \<noteq> VoidTy)"

text \<open>
  The shuffle rule in the words of the specification: concatenate the lane
  decompositions of both inputs, a wholly undefined input (\<open>None\<close>) contributing \<open>w\<close>
  unavailable entries; an output lane is the entry the mask selects, and the scalar undef
  when the mask index is negative or the entry unavailable.
\<close>

definition specShuffleLane ::
  "ty \<Rightarrow> nat \<Rightarrow> val list option \<Rightarrow> val list option \<Rightarrow> int \<Rightarrow> val" where
  "specShuffleLane elemTy w in0 in1 m =
     (let concatenated =
            (case in0 of None \<Rightarrow> replicate w None | Some ls \<Rightarrow> map Some ls) @
            (case in1 of None \<Rightarrow> replicate w None | Some ls \<Rightarrow> map Some ls)
      in if m < 0 then VUndef elemTy
         else (case concatenated ! nat m of None \<Rightarrow> VUndef elemTy | Some v \<Rightarrow> v))"

text \<open>
  Identities are handed out in increasing order: every live instruction and every
  instruction of the layout has an identity below \<open>next_id\<close>.
\<close>

definition freshIds :: "func \<Rightarrow> bool" where
  "freshIds f =
     ((\<forall>(i, ins) \<in> set (insts f). i < next_id f) \<and> (\<forall>i \<in> set (all_insts f). i < next_id f))"

text \<open>The list \<open>is\<close> with the instructions \<open>new\<close> put right before the instruction \<open>loc\<close>.\<close>

fun insertAllBefore :: "nat list \<Rightarrow> nat \<Rightarrow> nat list \<Rightarrow> nat list" where
  "insertAllBefore new loc [] = []"
| "insertAllBefore new loc (x # xs) =
     (if x = loc then new @ x # xs else x # insertAllBefore new loc xs)"

text \<open>The layout \<open>bs\<close> after the instructions \<open>new\<close> have been created with the
  insertion point \<open>loc\<close>: untouched when the insertion point is null.\<close>

definition insertedAt ::
  "nat list \<Rightarrow> nat option \<Rightarrow> (nat \<times> nat list) list \<Rightarrow> (nat \<times> nat list) list" where
  "insertedAt new loc bs =
     (case loc of
        None \<Rightarrow> bs
      | Some l \<Rightarrow> map (\<lambda>(b, is). (b, insertAllBefore new l is)) bs)"

text \<open>An instruction after \<^verbatim>\<open>replaceAllUsesWith\<close> of \<open>old\<close> by \<open>new\<close>.\<close>

definition redirect :: "val \<Rightarrow> val \<Rightarrow> inst \<Rightarrow> inst" where
  "redirect old new ins =
     ins\<lparr>operands := map (\<lambda>x. if x = old then new else x) (operands ins)\<rparr>"


text \<open>
  The decompositions that the PHI rule obtains for the incoming values, in the order of
  the incoming edges, each one in the state the rule is in when it asks for it.
\<close>

fun incomingLanes :: "pass \<Rightarrow> val list \<Rightarrow> nat \<Rightarrow> (val \<times> nat) list \<Rightarrow> val list list res" where
  "incomingLanes st newScalarizedPHI numElements [] = Inr []"
| "incomingLanes st newScalarizedPHI numElements ((v, blk) # rest) =
     (case obtainScalarizedValues st v of
        Inl err \<Rightarrow> Inl err
      | Inr (operand, c, st1) \<Rightarrow>
          if length operand < numElements then Inl OutOfBounds
          else
            (case incomingLanes
                    (st1\<lparr>m_currFunc :=
                       addIncomings (zip newScalarizedPHI operand) blk (m_currFunc st1)\<rparr>)
                    newScalarizedPHI numElements rest of
               Inl err \<Rightarrow> Inl err
             | Inr Ls \<Rightarrow> Inr (operand # Ls)))"

definition phiLanes :: "pass \<Rightarrow> nat \<Rightarrow> inst \<Rightarrow> val list list res" where
  "phiLanes st I PI =
     (case ity PI of
        VectorTy scalarType numElements \<Rightarrow>
          bindE (getSCMEntry st (self I PI)) (\<lambda>st0.
          case create_insts (m_currFunc st0)
                 (replicate numElements (mk_inst PHI scalarType [])) (Some I) of
            (newScalarizedPHI, f') \<Rightarrow>
              incomingLanes (st0\<lparr>m_currFunc := f'\<rparr>) newScalarizedPHI numElements
                (zip (operands PI) (incoming PI)))
      | _ \<Rightarrow> Inl AssertFailed)"

text \<open>The values that \<^verbatim>\<open>addIncomings\<close> appends to the PHI node with identity \<open>i\<close>.\<close>

fun appended :: "(val \<times> val) list \<Rightarrow> nat \<Rightarrow> val list" where
  "appended [] i = []"
| "appended ((VInst p t, v) # rest) i = (if p = i then v # appended rest i else appended rest i)"
| "appended ((other, v) # rest) i = appended rest i"

text \<open>
  What the PHI rule makes of the vector PHI \<open>I\<close> of type \<open>VectorTy scalarType w\<close>: \<open>w\<close> new
  scalar PHI nodes in the layout, the node for lane \<open>k\<close> taking from each incoming block
  lane \<open>k\<close> of the decomposition of the value incoming from that block; they are the
  lanes of the SCM entry of \<open>I\<close>, which is marked as removed, and \<open>I\<close> is in the removed
  set.
\<close>

definition phiDecomposed :: "pass \<Rightarrow> nat \<Rightarrow> inst \<Rightarrow> ty \<Rightarrow> nat \<Rightarrow> pass \<Rightarrow> bool" where
  "phiDecomposed st I PI scalarType w st' =
     (let n = next_id (m_currFunc st) in
      \<exists>Ls. phiLanes st I PI = Inr Ls \<and> length Ls = length (operands PI) \<and>
           (\<forall>k<w. inst_of (m_currFunc st') (n + k) =
                     Some ((mk_inst PHI scalarType (map (\<lambda>L. L ! k) Ls))
                             \<lparr>incoming := incoming PI\<rparr>) \<and>
                   n + k \<in> set (all_insts (m_currFunc st'))) \<and>
           map_of (m_SCM st') (self I PI) =
             Some \<lparr>scalarValues = map (\<lambda>k. Some (VInst (n + k) scalarType)) [0..<w],
                   isOriginalVectorRemoved = True\<rparr> \<and>
           I \<in> set (m_removedInsts st'))"

text \<open>
  The placeholders of a DRL entry: the dummy values at the indices below the width of
  the unresolved instruction, which are the ones the resolution loop reads.
\<close>

definition placeholders :: "DRLEntry \<Rightarrow> val list" where
  "placeholders e =
     (case vectorWidth (type_of (unresolvedInst e)) of
        Some w \<Rightarrow> take w (dummyVals e)
      | None \<Rightarrow> [])"

text \<open>A value is \<open>discarded\<close> when it is an instruction that is neither in the store nor
  in a block, and no instruction has it as an operand.\<close>

definition discarded :: "func \<Rightarrow> val \<Rightarrow> bool" where
  "discarded f d =
     (case d of
        VInst i t \<Rightarrow> inst_of f i = None \<and> i \<notin> set (all_insts f) \<and> use_empty f d
      | _ \<Rightarrow> False)"

text \<open>
  The resolved lanes of an entry: each placeholder with the lane of the same index that
  the SCM holds for the unresolved instruction. \<open>resolvedPairs\<close> collects them over the
  loop, each entry with the SCM as it is when the iteration for that entry is over.
\<close>

definition resolvedLanes :: "(val \<times> SCMEntry) list \<Rightarrow> DRLEntry \<Rightarrow> (val \<times> val option) list" where
  "resolvedLanes scm e =
     (case map_of scm (unresolvedInst e) of
        None \<Rightarrow> []
      | Some en \<Rightarrow> zip (placeholders e) (scalarValues en))"

fun resolvedPairs :: "pass \<Rightarrow> DRLEntry list \<Rightarrow> (val \<times> val option) list" where
  "resolvedPairs st [] = []"
| "resolvedPairs st (current # rest) =
     (case resolveDRLEntry st current of
        Inl err \<Rightarrow> []
      | Inr st1 \<Rightarrow> resolvedLanes (m_SCM st1) current @ resolvedPairs st1 rest)"

text \<open>The value that takes the place of \<open>v\<close> under a list of placeholder and lane pairs.\<close>

definition substitute :: "(val \<times> val option) list \<Rightarrow> val \<Rightarrow> val" where
  "substitute pairs v = (case map_of pairs v of Some (Some s) \<Rightarrow> s | _ \<Rightarrow> v)"

text \<open>
  The state is ready for the resolution of the deferred references when the identities
  are fresh and every placeholder recorded in the DRL is a dummy value as the pass
  creates them: a live load of the null pointer.
\<close>

definition drlReady :: "pass \<Rightarrow> bool" where
  "drlReady st =
     (freshIds (m_currFunc st) \<and>
      (\<forall>e \<in> set (m_DRL st). \<forall>d \<in> set (placeholders e).
         isDummyValue (m_currFunc st) d = Inr True))"

text \<open>\<open>removedIs R s\<close>: the removed set of the state \<open>s\<close> is \<open>R\<close>. \<open>marksOnly I R s\<close>: the
  removed set of \<open>s\<close> is \<open>R\<close>, or \<open>R\<close> with the instruction \<open>I\<close> put in.\<close>

definition removedIs :: "nat list \<Rightarrow> pass \<Rightarrow> bool" where
  "removedIs R s = (m_removedInsts s = R)"

definition marksOnly :: "nat \<Rightarrow> nat list \<Rightarrow> pass \<Rightarrow> bool" where
  "marksOnly I R s = (m_removedInsts s = R \<or> m_removedInsts s = set_insert I R)"

text \<open>
  \<open>intact st s\<close>: the state \<open>s\<close> is \<open>st\<close> as far as the function, the DRL and the
  removed set go, and its SCM is the SCM of \<open>st\<close> or that SCM with one unfilled entry
  added. \<open>markedOrIntact I st s\<close>: the instruction \<open>I\<close> is in the removed set of \<open>s\<close>, or
  \<open>s\<close> is \<open>st\<close> intact.
\<close>

definition intact :: "pass \<Rightarrow> pass \<Rightarrow> bool" where
  "intact st s =
     (m_currFunc s = m_currFunc st \<and> m_DRL s = m_DRL st \<and>
      m_removedInsts s = m_removedInsts st \<and>
      (m_SCM s = m_SCM st \<or> (\<exists>v. m_SCM s = m_SCM st @ [(v, emptyEntry)])))"

definition markedOrIntact :: "nat \<Rightarrow> pass \<Rightarrow> pass \<Rightarrow> bool" where
  "markedOrIntact I st s = (I \<in> set (m_removedInsts s) \<or> intact st s)"

text \<open>
  \<open>filled st v\<close>: the value \<open>v\<close> has an SCM entry whose lanes are filled.
  \<open>sourceReady st I EI v k\<close> is what the \<^verbatim>\<open>extractelement\<close> \<open>I\<close> (content \<open>EI\<close>) with the
  source \<open>v\<close> and the index \<open>k\<close> needs of the state: the lane invariant and fresh
  identities; \<open>I\<close> stands in the layout; a source instruction that has an SCM entry is
  followed by an instruction in its block (it is not a terminator); and the filled entry
  of the source does not hold \<open>I\<close> itself as the lane \<open>k\<close>.
\<close>

definition filled :: "pass \<Rightarrow> val \<Rightarrow> bool" where
  "filled st v = (case map_of (m_SCM st) v of Some en \<Rightarrow> scalarsInitialized en | None \<Rightarrow> False)"

definition sourceReady :: "pass \<Rightarrow> nat \<Rightarrow> inst \<Rightarrow> val \<Rightarrow> nat \<Rightarrow> bool" where
  "sourceReady st I EI v k =
     (laneInvariant (m_SCM st) \<and> freshIds (m_currFunc st) \<and>
      I \<in> set (all_insts (m_currFunc st)) \<and>
      (case v of
         VInst i t \<Rightarrow> map_of (m_SCM st) v \<noteq> None \<longrightarrow> bb_next (m_currFunc st) i \<noteq> None
       | _ \<Rightarrow> True) \<and>
      (case map_of (m_SCM st) v of
         Some en \<Rightarrow> scalarsInitialized en \<longrightarrow> scalarValues en ! k \<noteq> Some (self I EI)
       | None \<Rightarrow> True))"

text \<open>The instruction that \<^verbatim>\<open>obtainScalarizedValues\<close> creates for the lane \<open>j\<close> of a
  source \<open>v\<close> with no filled entry: a placeholder for an instruction that has no entry at
  all, and the \<^verbatim>\<open>extractelement\<close> of the lane otherwise.\<close>

definition laneInst :: "pass \<Rightarrow> val \<Rightarrow> ty \<Rightarrow> nat \<Rightarrow> inst" where
  "laneInst st v e j =
     (if isInstruction v \<and> map_of (m_SCM st) v = None
      then mk_inst Load e [VNullPtr (PointerTy e 0)]
      else mk_inst ExtractElement e [v, i32 j])"

section \<open>Invariants of the proofs\<close>

text \<open>
  \<open>extends f f'\<close>: the function \<open>f'\<close> is \<open>f\<close> with new instructions only. The identities of
  \<open>f'\<close> are fresh, the instructions that were live in \<open>f\<close> are the same objects with the
  same content, and the layout has kept its instructions.
\<close>

definition extends :: "func \<Rightarrow> func \<Rightarrow> bool" where
  "extends f f' =
     (freshIds f' \<and> next_id f \<le> next_id f' \<and>
      (\<forall>i<next_id f. inst_of f' i = inst_of f i) \<and>
      set (all_insts f) \<subseteq> set (all_insts f'))"

text \<open>
  The state of the resolution loop: \<open>D\<close> are the recorded placeholders, \<open>f0\<close> is the
  function when the loop starts, \<open>f\<close> the function now and \<open>Ps\<close> the placeholders
  connected so far, each with its lane.
\<close>

definition resolving :: "val set \<Rightarrow> func \<Rightarrow> func \<Rightarrow> (val \<times> val option) list \<Rightarrow> bool" where
  "resolving D f0 f Ps =
     (freshIds f0 \<and> freshIds f \<and> next_id f0 \<le> next_id f \<and>
      (\<forall>d \<in> D. \<exists>i t. d = VInst i t \<and> i < next_id f0 \<and> isDummyValue f d \<noteq> Inr False) \<and>
      (\<forall>(d, so) \<in> set Ps. d \<in> D \<and> (\<exists>s. so = Some s \<and> s \<notin> D) \<and> discarded f d) \<and>
      distinct (map fst Ps) \<and>
      (\<forall>i ins. inst_of f0 i = Some ins \<longrightarrow> (\<forall>t. VInst i t \<notin> fst ` set Ps) \<longrightarrow>
         inst_of f i = Some (ins\<lparr>operands := map (substitute Ps) (operands ins)\<rparr>)))"

text \<open>
  \<open>steady f f'\<close>: every instruction of \<open>f\<close> is live in \<open>f'\<close> with its opcode, and with its
  operands when it is a load of the null pointer. \<open>advance st st'\<close>: from a state with
  fresh identities the pass has moved to one with fresh identities by steady changes of
  the function, and the DRL has grown by entries of placeholders only.
\<close>

definition steady :: "func \<Rightarrow> func \<Rightarrow> bool" where
  "steady f f' =
     (freshIds f' \<and>
      (\<forall>i ins. inst_of f i = Some ins \<longrightarrow>
         (\<exists>ins'. inst_of f' i = Some ins' \<and> opcode ins' = opcode ins \<and>
            (opcode ins = Load \<and> (\<exists>pt. operands ins = [VNullPtr pt]) \<longrightarrow>
               operands ins' = operands ins))))"

definition advance :: "pass \<Rightarrow> pass \<Rightarrow> bool" where
  "advance st st' =
     (freshIds (m_currFunc st) \<longrightarrow>
        steady (m_currFunc st) (m_currFunc st') \<and>
        (\<exists>new. m_DRL st' = m_DRL st @ new \<and>
           (\<forall>e \<in> set new. \<forall>d \<in> set (dummyVals e). isDummyValue (m_currFunc st') d = Inr True)))"

definition phisOK :: "func \<Rightarrow> val list \<Rightarrow> bool" where
  "phisOK f phis =
     (\<forall>v \<in> set phis. \<forall>p t. v = VInst p t \<longrightarrow>
        (\<exists>ins. inst_of f p = Some ins \<and> opcode ins = PHI))"

text \<open>\<open>keeps P m\<close>: if the computation \<open>m\<close> returns, its result satisfies \<open>P\<close>.\<close>

definition keeps :: "('a \<Rightarrow> bool) \<Rightarrow> 'a res \<Rightarrow> bool" where
  "keeps P m = (case m of Inl e \<Rightarrow> True | Inr x \<Rightarrow> P x)"

abbreviation (input) linv :: "pass \<Rightarrow> bool" where
  "linv st \<equiv> laneInvariant (m_SCM st)"

section \<open>Example functions\<close>

definition dl0 :: datalayout where
  "dl0 = \<lparr>getTypeAllocSize = (\<lambda>t. 8), getTypeSizeInBits = (\<lambda>t. 32)\<rparr>"

definition v2i32 :: ty where
  "v2i32 = VectorTy (IntTy 32) 2"

text \<open>\<^verbatim>\<open>define void @f() { ret void }\<close>\<close>

definition retOnly :: func where
  "retOnly =
     \<lparr>insts = [(0, mk_inst (OtherOp 0) VoidTy [])],
      blocks = [(0, [0])], next_id = 1, isDeclaration = False, returnType = VoidTy\<rparr>"

text \<open>\<^verbatim>\<open>declare void @g()\<close>\<close>

definition declOnly :: func where
  "declOnly =
     \<lparr>insts = [], blocks = [], next_id = 0, isDeclaration = True, returnType = VoidTy\<rparr>"

text \<open>
  \<^verbatim>\<open>%0 = insertelement <2 x i32> undef, i32 1, i32 0\<close>,
  \<^verbatim>\<open>%1 = insertelement <2 x i32> %0, i32 2, i32 1\<close>,
  \<^verbatim>\<open>%2 = add <2 x i32> %1, %1\<close>,
  \<^verbatim>\<open>%3 = extractelement <2 x i32> %2, i32 0\<close>,
  and a terminator that uses \<^verbatim>\<open>%3\<close>.
\<close>

definition constLanes :: func where
  "constLanes =
     \<lparr>insts = [(0, mk_inst InsertElement v2i32 [VUndef v2i32, i32 1, i32 0]),
               (1, mk_inst InsertElement v2i32 [VInst 0 v2i32, i32 2, i32 1]),
               (2, mk_inst (Binary Add) v2i32 [VInst 1 v2i32, VInst 1 v2i32]),
               (3, mk_inst ExtractElement (IntTy 32) [VInst 2 v2i32, i32 0]),
               (4, mk_inst (OtherOp 0) VoidTy [VInst 3 (IntTy 32)])],
      blocks = [(0, [0, 1, 2, 3, 4])], next_id = 5, isDeclaration = False,
      returnType = VoidTy\<rparr>"

text \<open>The state of the pass on \<open>constLanes\<close> when the traversal reaches the \<^verbatim>\<open>add\<close>.\<close>

definition constLanesState :: pass where
  "constLanesState =
     (initPass False dl0 constLanes)
       \<lparr>m_SCM :=
          [(VInst 0 v2i32,
            \<lparr>scalarValues = [Some (i32 1), Some (VUndef (IntTy 32))],
             isOriginalVectorRemoved = True\<rparr>),
           (VInst 1 v2i32,
            \<lparr>scalarValues = [Some (i32 1), Some (i32 2)], isOriginalVectorRemoved = True\<rparr>)],
        m_removedInsts := [0, 1]\<rparr>"

text \<open>What one run of the pass makes of \<open>constLanes\<close>.\<close>

definition constLanes1 :: func where
  "constLanes1 =
     \<lparr>insts = [(4, mk_inst (OtherOp 0) VoidTy [VInst 5 (IntTy 32)]),
               (5, mk_inst (Binary Add) (IntTy 32) [i32 1, i32 1]),
               (6, mk_inst (Binary Add) (IntTy 32) [i32 2, i32 2])],
      blocks = [(0, [5, 6, 4])], next_id = 7, isDeclaration = False, returnType = VoidTy\<rparr>"

text \<open>\<^verbatim>\<open>%0 = add <2 x i32> <const 7>, undef\<close> and a terminator.\<close>

definition constAdd :: func where
  "constAdd =
     \<lparr>insts = [(0, mk_inst (Binary Add) v2i32 [VConst 7 v2i32, VUndef v2i32]),
               (1, mk_inst (OtherOp 0) VoidTy [])],
      blocks = [(0, [0, 1])], next_id = 2, isDeclaration = False, returnType = VoidTy\<rparr>"

text \<open>\<^verbatim>\<open>%0 = add i32 %a, %b\<close> and a terminator that uses it.\<close>

definition scalarAdd :: func where
  "scalarAdd =
     \<lparr>insts = [(0, mk_inst (Binary Add) (IntTy 32) [VArg 0 (IntTy 32), VArg 1 (IntTy 32)]),
               (1, mk_inst (OtherOp 0) VoidTy [VInst 0 (IntTy 32)])],
      blocks = [(0, [0, 1])], next_id = 2, isDeclaration = False, returnType = VoidTy\<rparr>"

text \<open>
  \<^verbatim>\<open>%0 = add <2 x i32> %a, %b\<close>, \<^verbatim>\<open>call void @use(<2 x i32> %0)\<close> and a
  terminator; \<open>vecAddArgs1\<close> is what one run of the pass makes of it, \<open>vecAddArgs2\<close> what
  a second run makes of \<open>vecAddArgs1\<close>.
\<close>

definition vecAddArgs :: func where
  "vecAddArgs =
     \<lparr>insts = [(0, mk_inst (Binary Add) v2i32 [VArg 0 v2i32, VArg 1 v2i32]),
               (1, mk_inst (Call (OtherCallee 0)) VoidTy [VInst 0 v2i32]),
               (2, mk_inst (OtherOp 0) VoidTy [])],
      blocks = [(0, [0, 1, 2])], next_id = 3, isDeclaration = False,
      returnType = VoidTy\<rparr>"

definition vecAddArgs1 :: func where
  "vecAddArgs1 =
     \<lparr>insts = [(1, mk_inst (Call (OtherCallee 0)) VoidTy [VInst 10 v2i32]),
               (2, mk_inst (OtherOp 0) VoidTy []),
               (3, mk_inst ExtractElement (IntTy 32) [VArg 0 v2i32, i32 0]),
               (4, mk_inst ExtractElement (IntTy 32) [VArg 0 v2i32, i32 1]),
               (5, mk_inst ExtractElement (IntTy 32) [VArg 1 v2i32, i32 0]),
               (6, mk_inst ExtractElement (IntTy 32) [VArg 1 v2i32, i32 1]),
               (7, mk_inst (Binary Add) (IntTy 32) [VInst 3 (IntTy 32), VInst 5 (IntTy 32)]),
               (8, mk_inst (Binary Add) (IntTy 32) [VInst 4 (IntTy 32), VInst 6 (IntTy 32)]),
               (9, mk_inst InsertElement v2i32 [VUndef v2i32, VInst 7 (IntTy 32), i32 0]),
               (10, mk_inst InsertElement v2i32 [VInst 9 v2i32, VInst 8 (IntTy 32), i32 1])],
      blocks = [(0, [5, 6, 3, 4, 7, 8, 9, 10, 1, 2])], next_id = 11, isDeclaration = False,
      returnType = VoidTy\<rparr>"

definition vecAddArgs2 :: func where
  "vecAddArgs2 =
     \<lparr>insts = [(1, mk_inst (Call (OtherCallee 0)) VoidTy [VInst 16 v2i32]),
               (2, mk_inst (OtherOp 0) VoidTy []),
               (7, mk_inst (Binary Add) (IntTy 32) [VInst 13 (IntTy 32), VInst 11 (IntTy 32)]),
               (8, mk_inst (Binary Add) (IntTy 32) [VInst 14 (IntTy 32), VInst 12 (IntTy 32)]),
               (11, mk_inst ExtractElement (IntTy 32) [VArg 1 v2i32, i32 0]),
               (12, mk_inst ExtractElement (IntTy 32) [VArg 1 v2i32, i32 1]),
               (13, mk_inst ExtractElement (IntTy 32) [VArg 0 v2i32, i32 0]),
               (14, mk_inst ExtractElement (IntTy 32) [VArg 0 v2i32, i32 1]),
               (15, mk_inst InsertElement v2i32 [VUndef v2i32, VInst 7 (IntTy 32), i32 0]),
               (16, mk_inst InsertElement v2i32 [VInst 15 v2i32, VInst 8 (IntTy 32), i32 1])],
      blocks = [(0, [13, 14, 11, 12, 7, 8, 15, 16, 1, 2])], next_id = 17,
      isDeclaration = False, returnType = VoidTy\<rparr>"

text \<open>\<^verbatim>\<open>%0 = extractelement <2 x i32> %v, i32 0\<close> of an argument and a terminator
  that uses it; \<open>extractArg1\<close> is what one run of the pass makes of it.\<close>

definition extractArg :: func where
  "extractArg =
     \<lparr>insts = [(0, mk_inst ExtractElement (IntTy 32) [VArg 0 v2i32, i32 0]),
               (1, mk_inst (OtherOp 0) VoidTy [VInst 0 (IntTy 32)])],
      blocks = [(0, [0, 1])], next_id = 2, isDeclaration = False, returnType = VoidTy\<rparr>"

definition extractArg1 :: func where
  "extractArg1 =
     \<lparr>insts = [(1, mk_inst (OtherOp 0) VoidTy [VInst 2 (IntTy 32)]),
               (2, mk_inst ExtractElement (IntTy 32) [VArg 0 v2i32, i32 0]),
               (3, mk_inst ExtractElement (IntTy 32) [VArg 0 v2i32, i32 1])],
      blocks = [(0, [2, 3, 1])], next_id = 4, isDeclaration = False, returnType = VoidTy\<rparr>"

text \<open>\<^verbatim>\<open>%0 = insertelement <2 x i32> undef, i32 %x, i32 0\<close>,
  \<^verbatim>\<open>%1 = extractelement <2 x i32> %0, i32 0\<close> and a terminator that uses \<^verbatim>\<open>%1\<close>;
  \<open>extractLaneState\<close> is the state of the pass when the traversal reaches \<^verbatim>\<open>%1\<close>.\<close>

definition extractLane :: func where
  "extractLane =
     \<lparr>insts = [(0, mk_inst InsertElement v2i32 [VUndef v2i32, VArg 0 (IntTy 32), i32 0]),
               (1, mk_inst ExtractElement (IntTy 32) [VInst 0 v2i32, i32 0]),
               (2, mk_inst (OtherOp 0) VoidTy [VInst 1 (IntTy 32)])],
      blocks = [(0, [0, 1, 2])], next_id = 3, isDeclaration = False, returnType = VoidTy\<rparr>"

definition extractLaneState :: pass where
  "extractLaneState =
     (initPass False dl0 extractLane)
       \<lparr>m_SCM :=
          [(VInst 0 v2i32,
            \<lparr>scalarValues = [Some (VArg 0 (IntTy 32)), Some (VUndef (IntTy 32))],
             isOriginalVectorRemoved = True\<rparr>)],
        m_removedInsts := [0]\<rparr>"

text \<open>\<^verbatim>\<open>%0 = extractelement <2 x i32> %v, i32 %i\<close>, the index an argument.\<close>

definition extractVar :: func where
  "extractVar =
     \<lparr>insts = [(0, mk_inst ExtractElement (IntTy 32) [VArg 0 v2i32, VArg 1 (IntTy 32)]),
               (1, mk_inst (OtherOp 0) VoidTy [VInst 0 (IntTy 32)])],
      blocks = [(0, [0, 1])], next_id = 2, isDeclaration = False, returnType = VoidTy\<rparr>"

text \<open>
  \<^verbatim>\<open>%0 = insertelement <2 x i32> undef, i32 %a, i32 0\<close>,
  \<^verbatim>\<open>%1 = insertelement <2 x i32> %0, i32 %b, i32 1\<close>,
  \<^verbatim>\<open>%2 = shufflevector <2 x i32> %1, <2 x i32> undef, <0, 1, undef, undef>\<close>
  and a terminator; \<open>shuffleState\<close> is the state of the pass when the traversal reaches
  the shuffle.
\<close>

definition shuffleUndef :: func where
  "shuffleUndef =
     \<lparr>insts = [(0, mk_inst InsertElement v2i32 [VUndef v2i32, VArg 0 (IntTy 32), i32 0]),
               (1, mk_inst InsertElement v2i32 [VInst 0 v2i32, VArg 1 (IntTy 32), i32 1]),
               (2, (mk_inst ShuffleVector (VectorTy (IntTy 32) 4) [VInst 1 v2i32, VUndef v2i32])
                     \<lparr>mask := [0, 1, -1, -1]\<rparr>),
               (3, mk_inst (OtherOp 0) VoidTy [])],
      blocks = [(0, [0, 1, 2, 3])], next_id = 4, isDeclaration = False,
      returnType = VoidTy\<rparr>"

definition shuffleState :: pass where
  "shuffleState =
     (initPass False dl0 shuffleUndef)
       \<lparr>m_SCM :=
          [(VInst 0 v2i32,
            \<lparr>scalarValues = [Some (VArg 0 (IntTy 32)), Some (VUndef (IntTy 32))],
             isOriginalVectorRemoved = True\<rparr>),
           (VInst 1 v2i32,
            \<lparr>scalarValues = [Some (VArg 0 (IntTy 32)), Some (VArg 1 (IntTy 32))],
             isOriginalVectorRemoved = True\<rparr>)],
        m_removedInsts := [0, 1]\<rparr>"


text \<open>A PHI of two vector arguments, one per predecessor block, and a PHI of the result
  of a VME send.\<close>

definition phiArgs :: func where
  "phiArgs =
     \<lparr>insts = [(0, mk_inst (OtherOp 0) VoidTy []),
               (1, mk_inst (OtherOp 0) VoidTy []),
               (2, (mk_inst PHI v2i32 [VArg 0 v2i32, VArg 1 v2i32])\<lparr>incoming := [0, 1]\<rparr>),
               (3, mk_inst (Call (OtherCallee 0)) VoidTy [VInst 2 v2i32]),
               (4, mk_inst (OtherOp 0) VoidTy [])],
      blocks = [(0, [0]), (1, [1]), (2, [2, 3, 4])], next_id = 5, isDeclaration = False,
      returnType = VoidTy\<rparr>"

definition phiVME :: func where
  "phiVME =
     \<lparr>insts = [(0, mk_inst (Call (GenIntrinsic GenISA_vmeSendIME2)) v2i32 []),
               (1, mk_inst (OtherOp 0) VoidTy []),
               (2, (mk_inst PHI v2i32 [VInst 0 v2i32])\<lparr>incoming := [0]\<rparr>),
               (3, mk_inst (OtherOp 0) VoidTy [])],
      blocks = [(0, [0, 1]), (1, [2, 3])], next_id = 4, isDeclaration = False,
      returnType = VoidTy\<rparr>"

text \<open>
  A forward reference: the \<^verbatim>\<open>extractelement\<close> in the second block reads the vector
  addition of the third block, which the traversal meets later. \<open>fwdRefTraversed\<close> is the
  state of the pass when the traversal has ended: the user of the \<^verbatim>\<open>extractelement\<close>
  reads the placeholder \<open>5\<close>, and the DRL holds the two placeholders of the addition.
\<close>

definition fwdRef :: func where
  "fwdRef =
     \<lparr>insts = [(0, mk_inst (OtherOp 0) VoidTy []),
               (1, mk_inst ExtractElement (IntTy 32) [VInst 3 v2i32, i32 0]),
               (2, mk_inst (OtherOp 0) VoidTy [VInst 1 (IntTy 32)]),
               (3, mk_inst (Binary Add) v2i32 [VArg 0 v2i32, VArg 1 v2i32]),
               (4, mk_inst (OtherOp 0) VoidTy [])],
      blocks = [(0, [0]), (1, [1, 2]), (2, [3, 4])], next_id = 5, isDeclaration = False,
      returnType = VoidTy\<rparr>"

definition fwdRefTraversed :: pass where
  "fwdRefTraversed =
     \<lparr>m_currFunc =
        \<lparr>insts = [(0, mk_inst (OtherOp 0) VoidTy []),
                  (1, mk_inst ExtractElement (IntTy 32) [VInst 3 v2i32, i32 0]),
                  (2, mk_inst (OtherOp 0) VoidTy [VInst 5 (IntTy 32)]),
                  (3, mk_inst (Binary Add) v2i32 [VArg 0 v2i32, VArg 1 v2i32]),
                  (4, mk_inst (OtherOp 0) VoidTy []),
                  (5, mk_inst Load (IntTy 32) [VNullPtr (PointerTy (IntTy 32) 0)]),
                  (6, mk_inst Load (IntTy 32) [VNullPtr (PointerTy (IntTy 32) 0)]),
                  (7, mk_inst ExtractElement (IntTy 32) [VArg 0 v2i32, i32 0]),
                  (8, mk_inst ExtractElement (IntTy 32) [VArg 0 v2i32, i32 1]),
                  (9, mk_inst ExtractElement (IntTy 32) [VArg 1 v2i32, i32 0]),
                  (10, mk_inst ExtractElement (IntTy 32) [VArg 1 v2i32, i32 1]),
                  (11, mk_inst (Binary Add) (IntTy 32) [VInst 7 (IntTy 32), VInst 9 (IntTy 32)]),
                  (12, mk_inst (Binary Add) (IntTy 32) [VInst 8 (IntTy 32), VInst 10 (IntTy 32)])],
         blocks = [(0, [9, 10, 7, 8, 0]), (1, [1, 2]), (2, [11, 12, 3, 4])], next_id = 13,
         isDeclaration = False, returnType = VoidTy\<rparr>,
      m_SCM =
        [(VInst 3 v2i32,
          \<lparr>scalarValues = [Some (VInst 11 (IntTy 32)), Some (VInst 12 (IntTy 32))],
           isOriginalVectorRemoved = True\<rparr>),
         (VArg 0 v2i32,
          \<lparr>scalarValues = [Some (VInst 7 (IntTy 32)), Some (VInst 8 (IntTy 32))],
           isOriginalVectorRemoved = False\<rparr>),
         (VArg 1 v2i32,
          \<lparr>scalarValues = [Some (VInst 9 (IntTy 32)), Some (VInst 10 (IntTy 32))],
           isOriginalVectorRemoved = False\<rparr>)],
      m_DRL = [\<lparr>unresolvedInst = VInst 3 v2i32,
                dummyVals = [VInst 5 (IntTy 32), VInst 6 (IntTy 32)]\<rparr>],
      m_usedVectors = [], m_removedInsts = [1, 3],
      m_ScalarizingVectorLDSTType = False, m_pDL = dl0\<rparr>"

text \<open>
  Two forward references, one through the other. The blocks stand in the layout in the
  order entry, B1, B2, B3, B4 and are executed in the order entry, B4, B1, B3, B2 (each
  of the instructions 0, 2, 7 and 9 is the branch to the next one, 5 is the return), so
  that every definition dominates its uses:
  \<^verbatim>\<open>B1: %1 = insertelement <2 x i32> %8, i32 %x, i32 0\<close>,
  \<^verbatim>\<open>B2: %3 = extractelement <2 x i32> %6, i32 1; call void @use(i32 %3)\<close>,
  \<^verbatim>\<open>B3: %6 = insertelement <2 x i32> %1, i32 %y, i32 0\<close>,
  \<^verbatim>\<open>B4: %8 = add <2 x i32> %a, %b\<close>.
  \<open>dangTraversed\<close> is the state of the pass when the traversal has ended. The DRL holds
  the placeholders 10 and 11 for the lanes of \<open>%8\<close> and 12 and 13 for the lanes of \<open>%6\<close>;
  the call reads the placeholder 13; and the SCM entries of \<open>%1\<close> and of \<open>%6\<close> hold, as
  their lane 1, the placeholder 11 of \<open>%8\<close>.
\<close>

definition dang :: func where
  "dang =
     \<lparr>insts = [(0, mk_inst (OtherOp 0) VoidTy []),
               (1, mk_inst InsertElement v2i32 [VInst 8 v2i32, VArg 2 (IntTy 32), i32 0]),
               (2, mk_inst (OtherOp 0) VoidTy []),
               (3, mk_inst ExtractElement (IntTy 32) [VInst 6 v2i32, i32 1]),
               (4, mk_inst (Call (OtherCallee 0)) VoidTy [VInst 3 (IntTy 32)]),
               (5, mk_inst (OtherOp 1) VoidTy []),
               (6, mk_inst InsertElement v2i32 [VInst 1 v2i32, VArg 3 (IntTy 32), i32 0]),
               (7, mk_inst (OtherOp 0) VoidTy []),
               (8, mk_inst (Binary Add) v2i32 [VArg 0 v2i32, VArg 1 v2i32]),
               (9, mk_inst (OtherOp 0) VoidTy [])],
      blocks = [(0, [0]), (1, [1, 2]), (2, [3, 4, 5]), (3, [6, 7]), (4, [8, 9])],
      next_id = 10, isDeclaration = False, returnType = VoidTy\<rparr>"

definition dangTraversed :: pass where
  "dangTraversed =
     \<lparr>m_currFunc =
        \<lparr>insts = [(0, mk_inst (OtherOp 0) VoidTy []),
                  (1, mk_inst InsertElement v2i32 [VInst 8 v2i32, VArg 2 (IntTy 32), i32 0]),
                  (2, mk_inst (OtherOp 0) VoidTy []),
                  (3, mk_inst ExtractElement (IntTy 32) [VInst 6 v2i32, i32 1]),
                  (4, mk_inst (Call (OtherCallee 0)) VoidTy [VInst 13 (IntTy 32)]),
                  (5, mk_inst (OtherOp 1) VoidTy []),
                  (6, mk_inst InsertElement v2i32 [VInst 1 v2i32, VArg 3 (IntTy 32), i32 0]),
                  (7, mk_inst (OtherOp 0) VoidTy []),
                  (8, mk_inst (Binary Add) v2i32 [VArg 0 v2i32, VArg 1 v2i32]),
                  (9, mk_inst (OtherOp 0) VoidTy []),
                  (10, mk_inst Load (IntTy 32) [VNullPtr (PointerTy (IntTy 32) 0)]),
                  (11, mk_inst Load (IntTy 32) [VNullPtr (PointerTy (IntTy 32) 0)]),
                  (12, mk_inst Load (IntTy 32) [VNullPtr (PointerTy (IntTy 32) 0)]),
                  (13, mk_inst Load (IntTy 32) [VNullPtr (PointerTy (IntTy 32) 0)]),
                  (14, mk_inst ExtractElement (IntTy 32) [VArg 0 v2i32, i32 0]),
                  (15, mk_inst ExtractElement (IntTy 32) [VArg 0 v2i32, i32 1]),
                  (16, mk_inst ExtractElement (IntTy 32) [VArg 1 v2i32, i32 0]),
                  (17, mk_inst ExtractElement (IntTy 32) [VArg 1 v2i32, i32 1]),
                  (18, mk_inst (Binary Add) (IntTy 32) [VInst 14 (IntTy 32), VInst 16 (IntTy 32)]),
                  (19, mk_inst (Binary Add) (IntTy 32) [VInst 15 (IntTy 32), VInst 17 (IntTy 32)])],
         blocks = [(0, [16, 17, 14, 15, 0]), (1, [1, 2]), (2, [3, 4, 5]), (3, [6, 7]),
                   (4, [18, 19, 8, 9])],
         next_id = 20, isDeclaration = False, returnType = VoidTy\<rparr>,
      m_SCM =
        [(VInst 1 v2i32,
          \<lparr>scalarValues = [Some (VArg 2 (IntTy 32)), Some (VInst 11 (IntTy 32))],
           isOriginalVectorRemoved = True\<rparr>),
         (VInst 6 v2i32,
          \<lparr>scalarValues = [Some (VArg 3 (IntTy 32)), Some (VInst 11 (IntTy 32))],
           isOriginalVectorRemoved = True\<rparr>),
         (VInst 8 v2i32,
          \<lparr>scalarValues = [Some (VInst 18 (IntTy 32)), Some (VInst 19 (IntTy 32))],
           isOriginalVectorRemoved = True\<rparr>),
         (VArg 0 v2i32,
          \<lparr>scalarValues = [Some (VInst 14 (IntTy 32)), Some (VInst 15 (IntTy 32))],
           isOriginalVectorRemoved = False\<rparr>),
         (VArg 1 v2i32,
          \<lparr>scalarValues = [Some (VInst 16 (IntTy 32)), Some (VInst 17 (IntTy 32))],
           isOriginalVectorRemoved = False\<rparr>)],
      m_DRL = [\<lparr>unresolvedInst = VInst 8 v2i32,
                dummyVals = [VInst 10 (IntTy 32), VInst 11 (IntTy 32)]\<rparr>,
               \<lparr>unresolvedInst = VInst 6 v2i32,
                dummyVals = [VInst 12 (IntTy 32), VInst 13 (IntTy 32)]\<rparr>],
      m_usedVectors = [], m_removedInsts = [1, 3, 6, 8],
      m_ScalarizingVectorLDSTType = False, m_pDL = dl0\<rparr>"

text \<open>
  A loop header with three PHI nodes: \<^verbatim>\<open>%2 = phi <2 x i32> [%0, %entry], [%0, %loop]\<close>,
  where \<^verbatim>\<open>%0\<close> is a VME send of the entry block,
  \<^verbatim>\<open>%3 = phi <2 x i32> [%a, %entry], [%2, %loop]\<close> and a scalar PHI. The pass leaves
  \<^verbatim>\<open>%2\<close> intact, and for \<^verbatim>\<open>%3\<close> it creates the \<^verbatim>\<open>extractelement\<close>s 10 and 11 of
  \<^verbatim>\<open>%2\<close> behind the PHI nodes, where the traversal has not been yet.
\<close>

definition selfExtract :: func where
  "selfExtract =
     \<lparr>insts = [(0, mk_inst (Call (GenIntrinsic GenISA_vmeSendIME2)) v2i32 []),
               (1, mk_inst (OtherOp 0) VoidTy []),
               (2, (mk_inst PHI v2i32 [VInst 0 v2i32, VInst 0 v2i32])\<lparr>incoming := [0, 1]\<rparr>),
               (3, (mk_inst PHI v2i32 [VArg 0 v2i32, VInst 2 v2i32])\<lparr>incoming := [0, 1]\<rparr>),
               (4, (mk_inst PHI (IntTy 32) [VArg 1 (IntTy 32), VArg 1 (IntTy 32)])
                     \<lparr>incoming := [0, 1]\<rparr>),
               (5, mk_inst (OtherOp 0) VoidTy [])],
      blocks = [(0, [0, 1]), (1, [2, 3, 4, 5])], next_id = 6, isDeclaration = False,
      returnType = VoidTy\<rparr>"

section \<open>Lemmas on the model\<close>

lemmas ir_defs = inst_of_def all_insts_def inst_begin_def inst_next_def parent_def bb_next_def
  isPHINode_def getFirstNonPHI_def create_inst_def replaceAllUsesWith_def use_empty_def
  eraseFromParent_def mk_inst_def RAUW_def addIncoming_def i32_def self_def

lemmas pass_defs = set_insert_def markRemoved_def getScalarizedValues_def emptyEntry_def
  getSCMEntry_def updateSCMEntryWithValues_def scalarsInitialized_def lanes_of_def
  obtainScalarizedValues_def obtainVectorValueWhichMightBeScalarized_def
  recoverNonScalarizableInst_def

lemmas rule_defs = scalarizeBinaryOperator_def scalarizeCmpInst_def scalarizeCastInst_def
  isVMESend_def scalarizePHINode_def scalarizeSelectInst_def trunc32_def
  scalarizeExtractElementInst_def scalarizeInsertElementInst_def place_def
  scalarizeShuffleVectorInst_def isScalarizableLoadStoreType_def sizesOK_def
  scalarizeLoadInst_def scalarizeStoreInst_def dispatchInstructionToScalarize_def

lemmas run_defs = obtainVectorValueWhichMightBeScalarizedImpl_def resolveVectorValues_def
  isDummyValue_def resolveDRLEntry_def resolveDeferredInstructions_def initPass_def
  runOnFunction_def

lemma bindE_Inr [simp]: "bindE (Inr x) k = k x"
  by (simp add: bindE_def)

lemma bindE_Inl [simp]: "bindE (Inl e) k = Inl e"
  by (simp add: bindE_def)

lemma bindE_eq_Inr: "bindE m k = Inr y \<longleftrightarrow> (\<exists>x. m = Inr x \<and> k x = Inr y)"
  by (cases m) simp_all

lemma recoverOperands_no_vectors:
  "\<forall>v \<in> set ops. \<not> isVectorTy (type_of v) \<Longrightarrow> recoverOperands st ops = st"
  by (induction ops arbitrary: st) auto

lemma recover_no_vectors:
  assumes "\<not> isVectorTy (ity ins)" and "\<forall>v \<in> set (operands ins). \<not> isVectorTy (type_of v)"
  shows "recoverNonScalarizableInst st I ins = Inr st"
  using assms by (simp add: recoverNonScalarizableInst_def recoverOperands_no_vectors)

lemma not_vector_cases: "\<not> isVectorTy t \<Longrightarrow> (case t of VectorTy e w \<Rightarrow> f e w | _ \<Rightarrow> g) = g"
  by (cases t) auto

lemma not_vector_width: "\<not> isVectorTy t \<Longrightarrow> vectorWidth t = None"
  by (cases t) auto

lemma dispatch_no_vectors:
  assumes ins: "inst_of (m_currFunc st) I = Some ins"
    and ty: "\<not> isVectorTy (ity ins)"
    and ops: "\<forall>v \<in> set (operands ins). \<not> isVectorTy (type_of v)"
    and opc: "opcode ins \<noteq> ExtractElement" "opcode ins \<noteq> InsertElement"
             "opcode ins \<noteq> ShuffleVector"
    and sto: "opcode ins = Store \<longrightarrow> length (operands ins) = 2"
  shows "dispatchInstructionToScalarize st I = Inr st"
proof (cases "I \<in> set (m_removedInsts st)")
  case True
  then show ?thesis by (simp add: dispatchInstructionToScalarize_def)
next
  case False
  note rec = recover_no_vectors [OF ty ops]
  show ?thesis
  proof (cases "opcode ins")
    case (Binary b)
    then show ?thesis using False ins ty
      by (simp add: dispatchInstructionToScalarize_def scalarizeBinaryOperator_def not_vector_cases)
  next
    case (Compare c p)
    then show ?thesis using False ins ty
      by (simp add: dispatchInstructionToScalarize_def scalarizeCmpInst_def not_vector_cases)
  next
    case (Cast c)
    then show ?thesis using False ins ty rec
      by (simp add: dispatchInstructionToScalarize_def scalarizeCastInst_def not_vector_cases
          not_vector_width)
  next
    case PHI
    then show ?thesis using False ins ty
      by (simp add: dispatchInstructionToScalarize_def scalarizePHINode_def not_vector_cases)
  next
    case Select
    then show ?thesis using False ins ty
      by (simp add: dispatchInstructionToScalarize_def scalarizeSelectInst_def not_vector_cases)
  next
    case Load
    then show ?thesis using False ins ty rec
      by (simp add: dispatchInstructionToScalarize_def scalarizeLoadInst_def
          isScalarizableLoadStoreType_def)
  next
    case Store
    with sto obtain d p where dp: "operands ins = [d, p]"
      by (cases "operands ins"; cases "tl (operands ins)"; auto)
    with ops have "\<not> isVectorTy (type_of d)" by simp
    then show ?thesis using False ins Store dp rec
      by (simp add: dispatchInstructionToScalarize_def scalarizeStoreInst_def
          isScalarizableLoadStoreType_def)
  qed (use False ins rec opc in \<open>simp_all add: dispatchInstructionToScalarize_def\<close>)
qed


lemma next_in_list_distinct:
  "distinct (pre @ i # rest) \<Longrightarrow>
   next_in_list i (pre @ i # rest) = (case rest of [] \<Rightarrow> None | y # ys \<Rightarrow> Some y)"
proof (induction pre)
  case Nil
  then show ?case by (cases rest) auto
next
  case (Cons x pre)
  then show ?case by (cases pre) auto
qed

lemma traverse_noop:
  assumes noop: "\<forall>i \<in> set (all_insts (m_currFunc st)). dispatchInstructionToScalarize st i = Inr st"
    and dist: "distinct (all_insts (m_currFunc st))"
  shows "all_insts (m_currFunc st) = pre @ suf \<Longrightarrow> length suf \<le> fuel \<Longrightarrow>
         traverse fuel st (case suf of [] \<Rightarrow> None | i # is \<Rightarrow> Some i) = Some (Inr st)"
proof (induction suf arbitrary: pre fuel)
  case Nil
  then show ?case by simp
next
  case (Cons i suf)
  from Cons.prems(2) obtain fuel' where fuel: "fuel = Suc fuel'" and le: "length suf \<le> fuel'"
    by (cases fuel) auto
  have d: "dispatchInstructionToScalarize st i = Inr st"
    using noop Cons.prems(1) by simp
  have nx: "inst_next (m_currFunc st) i = (case suf of [] \<Rightarrow> None | y # ys \<Rightarrow> Some y)"
    using dist Cons.prems(1) by (simp add: inst_next_def next_in_list_distinct)
  have "all_insts (m_currFunc st) = (pre @ [i]) @ suf"
    using Cons.prems(1) by simp
  from Cons.IH [OF this le] show ?case
    by (simp add: fuel d nx)
qed

lemma run_no_vectors:
  assumes wf: "wellFormed F" and nv: "noVectors F"
    and go: "\<not> (if \<not> forceInline then isDeclaration F else returnType F \<noteq> VoidTy)"
    and fuel: "length (all_insts F) \<le> fuel"
  shows "runOnFunction fuel forceInline ldst dl F = Some (Inr (True, F))"
proof -
  let ?st = "initPass ldst dl F"
  have cur: "m_currFunc ?st = F" by (simp add: initPass_def)
  have noop: "\<forall>i \<in> set (all_insts (m_currFunc ?st)). dispatchInstructionToScalarize ?st i = Inr ?st"
  proof
    fix i assume "i \<in> set (all_insts (m_currFunc ?st))"
    with wf cur obtain ins where ins: "inst_of F i = Some ins"
      by (auto simp: wellFormed_def)
    then have mem: "(i, ins) \<in> set (insts F)"
      by (auto simp: inst_of_def dest: map_of_SomeD)
    with nv wf show "dispatchInstructionToScalarize ?st i = Inr ?st"
      by (intro dispatch_no_vectors [where ins = ins])
         (auto simp: noVectors_def wellFormed_def cur ins)
  qed
  have dist: "distinct (all_insts (m_currFunc ?st))"
    using wf by (simp add: wellFormed_def cur)
  have "all_insts (m_currFunc ?st) = [] @ all_insts F" by (simp add: cur)
  from traverse_noop [OF noop dist this fuel]
  have tr: "traverse fuel ?st (inst_begin F) = Some (Inr ?st)"
    by (simp add: inst_begin_def)
  show ?thesis using go
    by (simp add: runOnFunction_def tr resolveVectorValues_def resolveDeferredInstructions_def)
       (simp add: initPass_def)
qed


lemma run_skipped:
  "skipped forceInline F \<Longrightarrow> runOnFunction fuel forceInline ldst dl F = Some (Inr (False, F))"
  by (simp add: runOnFunction_def skipped_def)

lemma run_not_skipped:
  assumes "\<not> skipped forceInline F"
    and "runOnFunction fuel forceInline ldst dl F = Some (Inr (changed, F'))"
  shows "changed"
  using assms
  by (auto simp: runOnFunction_def skipped_def bindE_eq_Inr split: option.splits if_splits)

lemma laneInvariant_getSCMEntry:
  assumes "laneInvariant (m_SCM st)" and "getSCMEntry st v = Inr st'"
  shows "laneInvariant (m_SCM st')"
  using assms
  by (auto simp: getSCMEntry_def laneInvariant_def emptyEntry_def scalarsInitialized_def
      split: if_splits)

lemma map_of_map_upd:
  "map_of (map (\<lambda>(k, en). if k = key then (k, new) else (k, en)) al) key =
     (if map_of al key = None then None else Some new)"
  by (induction al) auto

lemma laneInvariant_update:
  assumes "laneInvariant (m_SCM st)"
    and "updateSCMEntryWithValues st v vals v r = Inr st'"
  shows "laneInvariant (m_SCM st') \<and>
         (\<exists>en. map_of (m_SCM st') v = Some en \<and>
               vectorWidth (type_of v) = Some (length (scalarValues en)) \<and>
               None \<notin> set (scalarValues en) \<and> isOriginalVectorRemoved en = r)"
proof -
  from assms(2) obtain e w old where
    ty: "type_of v = VectorTy e w" and old: "map_of (m_SCM st) v = Some old"
    and len: "w \<le> length vals" and nn: "None \<notin> set (take w vals)"
    and st': "st' = st\<lparr>m_SCM := map (\<lambda>(k, en).
                      if k = v
                      then (k, \<lparr>scalarValues = take w vals, isOriginalVectorRemoved = r\<rparr>)
                      else (k, en)) (m_SCM st)\<rparr>"
    by (auto simp: updateSCMEntryWithValues_def split: ty.splits option.splits if_splits)
  have inv: "laneInvariant (m_SCM st')"
    using assms(1) ty len nn unfolding st' laneInvariant_def
    by (auto split: if_splits)
  have "map_of (m_SCM st') v = Some \<lparr>scalarValues = take w vals, isOriginalVectorRemoved = r\<rparr>"
    unfolding st' using old by (simp add: map_of_map_upd)
  with inv ty len nn show ?thesis by simp
qed

lemma keeps_Inr [simp]: "keeps P (Inr x) = P x"
  by (simp add: keeps_def)

lemma keeps_Inl [simp]: "keeps P (Inl e)"
  by (simp add: keeps_def)

lemma keepsD: "keeps P m \<Longrightarrow> m = Inr x \<Longrightarrow> P x"
  by (simp add: keeps_def)

lemma keepsI: "(\<And>x. m = Inr x \<Longrightarrow> P x) \<Longrightarrow> keeps P m"
  by (cases m) simp_all

lemma keeps_bindE: "keeps Q m \<Longrightarrow> (\<And>x. Q x \<Longrightarrow> keeps P (k x)) \<Longrightarrow> keeps P (bindE m k)"
  by (cases m) simp_all

lemma keeps_weaken: "keeps Q m \<Longrightarrow> (\<And>x. Q x \<Longrightarrow> P x) \<Longrightarrow> keeps P m"
  by (cases m) simp_all

lemma SCM_markRemoved [simp]: "m_SCM (markRemoved I st) = m_SCM st"
  by (simp add: markRemoved_def)

lemma SCM_recoverOperands [simp]: "m_SCM (recoverOperands st ops) = m_SCM st"
  by (induction ops arbitrary: st) (auto simp: obtainVectorValueWhichMightBeScalarized_def)

lemma bindE_assoc: "bindE (bindE m f) k = bindE m (\<lambda>x. bindE (f x) k)"
  by (cases m) simp_all

lemma bindE_if: "bindE (if c then a else b) k = (if c then bindE a k else bindE b k)"
  by simp

lemma linv_getSCMEntry: "linv st \<Longrightarrow> keeps linv (getSCMEntry st v)"
  by (rule keepsI) (rule laneInvariant_getSCMEntry)

lemma linv_update: "linv st \<Longrightarrow> keeps linv (updateSCMEntryWithValues st v vals v r)"
  by (rule keepsI) (simp add: laneInvariant_update)

lemma linv_bind_getSCMEntry:
  "linv st \<Longrightarrow> (\<And>st1. linv st1 \<Longrightarrow> keeps P (k st1)) \<Longrightarrow> keeps P (bindE (getSCMEntry st v) k)"
  by (rule keeps_bindE [OF linv_getSCMEntry])

lemma linv_bind_update:
  "linv st \<Longrightarrow> (\<And>st1. linv st1 \<Longrightarrow> keeps P (k st1)) \<Longrightarrow>
   keeps P (bindE (updateSCMEntryWithValues st v vals v r) k)"
  by (rule keeps_bindE [OF linv_update])

lemma keeps_bind_lanes_of: "(\<And>ls. keeps P (k ls)) \<Longrightarrow> keeps P (bindE (lanes_of xs w) k)"
  by (cases "lanes_of xs w") simp_all

lemma linv_obtain:
  assumes "linv st"
  shows "keeps (\<lambda>(ls, c, st'). linv st') (obtainScalarizedValues st v)"
  unfolding obtainScalarizedValues_def Let_def
  using assms
  by (auto split: ty.split option.split prod.split val.split simp: bindE_assoc bindE_if
      intro!: keeps_bind_lanes_of linv_bind_getSCMEntry linv_bind_update)

lemma linv_bind_obtain:
  "linv st \<Longrightarrow> (\<And>ls c st1. linv st1 \<Longrightarrow> keeps P (k (ls, c, st1))) \<Longrightarrow>
   keeps P (bindE (obtainScalarizedValues st v) k)"
  by (rule keeps_bindE [OF linv_obtain]) auto

lemma linv_recover:
  assumes "linv st"
  shows "keeps linv (recoverNonScalarizableInst st I ins)"
  unfolding recoverNonScalarizableInst_def
  using assms
  by (auto simp: bindE_if intro!: linv_bind_getSCMEntry)

lemmas linv_intros = keeps_bind_lanes_of linv_bind_getSCMEntry linv_bind_update linv_bind_obtain
  linv_recover linv_update linv_getSCMEntry

lemma linv_binary: "linv st \<Longrightarrow> keeps linv (scalarizeBinaryOperator st I ins)"
  unfolding scalarizeBinaryOperator_def
  by (auto split: ty.split list.split prod.split simp: bindE_assoc bindE_if intro!: linv_intros)

lemma linv_cmp: "linv st \<Longrightarrow> keeps linv (scalarizeCmpInst st I ins)"
  unfolding scalarizeCmpInst_def
  by (auto split: ty.split list.split prod.split simp: bindE_assoc bindE_if intro!: linv_intros)

lemma linv_cast: "linv st \<Longrightarrow> keeps linv (scalarizeCastInst st I ins)"
  unfolding scalarizeCastInst_def
  by (auto split: ty.split list.split prod.split simp: bindE_assoc bindE_if intro!: linv_intros)


lemma linv_fillPHIs: "linv st \<Longrightarrow> keeps linv (fillPHIs st phis n vs)"
proof (induction vs arbitrary: st)
  case Nil
  then show ?case by simp
next
  case (Cons a vs)
  obtain v blk where a: "a = (v, blk)" by (cases a)
  show ?case
  proof (rule keepsI)
    fix st' assume r: "fillPHIs st phis n (a # vs) = Inr st'"
    then obtain operand c st1 where
      o: "obtainScalarizedValues st v = Inr (operand, c, st1)"
      and rest: "fillPHIs (st1\<lparr>m_currFunc := addIncomings (zip phis operand) blk (m_currFunc st1)\<rparr>)
                   phis n vs = Inr st'"
      by (auto simp: a split: sum.splits if_splits)
    from keepsD [OF linv_obtain [OF Cons.prems] o] have "linv st1" by simp
    then have "linv (st1\<lparr>m_currFunc := addIncomings (zip phis operand) blk (m_currFunc st1)\<rparr>)"
      by simp
    from keepsD [OF Cons.IH [OF this] rest] show "linv st'" .
  qed
qed

lemma linv_bind_fillPHIs:
  "linv st \<Longrightarrow> (\<And>st1. linv st1 \<Longrightarrow> keeps P (k st1)) \<Longrightarrow>
   keeps P (bindE (fillPHIs st phis n vs) k)"
  by (rule keeps_bindE [OF linv_fillPHIs])

lemma linv_phi: "linv st \<Longrightarrow> keeps linv (scalarizePHINode st I ins)"
  unfolding scalarizePHINode_def
  by (auto split: ty.split list.split prod.split simp: bindE_assoc bindE_if
      intro!: linv_intros linv_bind_fillPHIs)

lemma linv_select: "linv st \<Longrightarrow> keeps linv (scalarizeSelectInst st I ins)"
  unfolding scalarizeSelectInst_def
  by (auto split: ty.split list.split prod.split simp: bindE_assoc bindE_if intro!: linv_intros)

lemma keeps_bind_RAUW: "(\<And>f'. keeps P (k f')) \<Longrightarrow> keeps P (bindE (RAUW a b f) k)"
  by (cases "RAUW a b f") simp_all

lemma linv_extract: "linv st \<Longrightarrow> keeps linv (scalarizeExtractElementInst st I ins)"
  unfolding scalarizeExtractElementInst_def
  by (auto split: ty.split list.split prod.split val.split simp: bindE_assoc bindE_if
      intro!: linv_intros keeps_bind_RAUW)

lemma linv_insert: "linv st \<Longrightarrow> keeps linv (scalarizeInsertElementInst st I ins)"
  unfolding scalarizeInsertElementInst_def
  by (auto split: ty.split list.split prod.split val.split option.split
      simp: bindE_assoc bindE_if intro!: linv_intros)

lemma linv_shuffle: "linv st \<Longrightarrow> keeps linv (scalarizeShuffleVectorInst st I ins)"
  unfolding scalarizeShuffleVectorInst_def
  by (auto split: ty.split list.split prod.split val.split option.split
      simp: bindE_assoc bindE_if intro!: linv_intros)

lemma linv_load: "linv st \<Longrightarrow> keeps linv (scalarizeLoadInst st I ins)"
  unfolding scalarizeLoadInst_def
  by (auto split: ty.split list.split prod.split val.split option.split
      simp: bindE_assoc bindE_if intro!: linv_intros)

lemma linv_store: "linv st \<Longrightarrow> keeps linv (scalarizeStoreInst st I ins)"
  unfolding scalarizeStoreInst_def
  by (auto split: ty.split list.split prod.split val.split option.split
      simp: bindE_assoc bindE_if intro!: linv_intros)

lemma linv_dispatch: "linv st \<Longrightarrow> keeps linv (dispatchInstructionToScalarize st I)"
  unfolding dispatchInstructionToScalarize_def
  by (auto split: option.split opcode.split
      intro!: linv_binary linv_cmp linv_cast linv_phi linv_select linv_extract linv_insert
        linv_shuffle linv_load linv_store linv_recover)

lemma linv_traverse:
  "linv st \<Longrightarrow> traverse fuel st cur = Some r \<Longrightarrow> keeps linv r"
proof (induction fuel st cur rule: traverse.induct)
  case (1 fuel st)
  then show ?case by auto
next
  case (2 st currInst)
  then show ?case by simp
next
  case (3 fuel st currInst)
  show ?case
  proof (cases "dispatchInstructionToScalarize st currInst")
    case (Inl e)
    with 3 show ?thesis by auto
  next
    case (Inr st1)
    from keepsD [OF linv_dispatch [OF "3.prems"(1)] Inr] have "linv st1" .
    with 3 Inr show ?thesis by auto
  qed
qed

lemma linv_impl: "linv st \<Longrightarrow> keeps linv (obtainVectorValueWhichMightBeScalarizedImpl st v)"
  unfolding obtainVectorValueWhichMightBeScalarizedImpl_def
  by (auto split: ty.split list.split prod.split val.split option.split
      simp: bindE_assoc bindE_if intro!: linv_intros keeps_bind_RAUW)

lemma linv_resolveVectorValuesFrom: "linv st \<Longrightarrow> keeps linv (resolveVectorValuesFrom st vs)"
proof (induction vs arbitrary: st)
  case Nil
  then show ?case by simp
next
  case (Cons v vs)
  show ?case
  proof (cases "obtainVectorValueWhichMightBeScalarizedImpl st v")
    case (Inl e)
    then show ?thesis by simp
  next
    case (Inr st1)
    from keepsD [OF linv_impl [OF Cons.prems] Inr] have "linv st1" .
    from Cons.IH [OF this] Inr show ?thesis by simp
  qed
qed

lemma keeps_bind_any: "(\<And>x. keeps P (k x)) \<Longrightarrow> keeps P (bindE m k)"
  by (cases m) simp_all

lemma keeps_bind_hasDummyLoad:
  "(\<And>b. keeps P (k b)) \<Longrightarrow> keeps P (bindE (hasDummyLoad f xs) k)"
  by (rule keeps_bind_any)

lemma keeps_bind_rescalarize:
  "(\<And>x. keeps P (k x)) \<Longrightarrow> keeps P (bindE (rescalarize f v e b ls is loc) k)"
  by (rule keeps_bind_any)

lemma keeps_bind_connectDummies:
  "(\<And>x. keeps P (k x)) \<Longrightarrow> keeps P (bindE (connectDummies f ds) k)"
  by (rule keeps_bind_any)

lemma linv_resolveDRLEntry: "linv st \<Longrightarrow> keeps linv (resolveDRLEntry st current)"
  unfolding resolveDRLEntry_def
  by (auto split: ty.split val.split option.split prod.split
      simp: bindE_assoc bindE_if
      intro!: linv_bind_getSCMEntry keeps_bind_hasDummyLoad keeps_bind_rescalarize
        keeps_bind_connectDummies linv_bind_update)

lemma linv_resolveDRLEntries: "linv st \<Longrightarrow> keeps linv (resolveDRLEntries st ds)"
proof (induction ds arbitrary: st)
  case Nil
  then show ?case by simp
next
  case (Cons d ds)
  show ?case
  proof (cases "resolveDRLEntry st d")
    case (Inl e)
    then show ?thesis by simp
  next
    case (Inr st1)
    from keepsD [OF linv_resolveDRLEntry [OF Cons.prems] Inr] have "linv st1" .
    from Cons.IH [OF this] Inr show ?thesis by simp
  qed
qed

lemma linv_resolveDeferred: "linv st \<Longrightarrow> keeps linv (resolveDeferredInstructions st)"
  unfolding resolveDeferredInstructions_def
  by (rule keeps_bindE [OF linv_resolveDRLEntries]) auto

lemma upt_0_2: "[0..<2] = [0, 1]"
  by (simp add: numeral_2_eq_2)

lemma replicate_2: "replicate 2 x = [x, x]"
  by (simp add: numeral_2_eq_2)

lemma traverse_numeral:
  "traverse (numeral k) st (Some i) =
     (case dispatchInstructionToScalarize st i of
        Inl err \<Rightarrow> Some (Inl err)
      | Inr st1 \<Rightarrow> traverse (pred_numeral k) st1 (inst_next (m_currFunc st) i))"
  by (simp add: numeral_eq_Suc)

lemmas eval_defs = traverse_numeral ir_defs pass_defs rule_defs run_defs upt_0_2 replicate_2 v2i32_def dl0_def

lemma run_no_vectors_skipped:
  assumes "wellFormed F" and "noVectors F" and "\<not> skipped forceInline F"
    and "length (all_insts F) \<le> fuel"
  shows "runOnFunction fuel forceInline ldst dl F = Some (Inr (True, F))"
  using assms run_no_vectors [of F forceInline fuel ldst dl] by (simp add: skipped_def)

lemma obtain_constant:
  assumes c: "isConstant v" and ty: "type_of v = VectorTy e n" and inv: "linv st"
  shows "\<exists>ls. obtainScalarizedValues st v = Inr (ls, True, st) \<and> length ls = n"
proof (cases "case getScalarizedValues st v of Some en \<Rightarrow> scalarsInitialized en | None \<Rightarrow> False")
  case True
  then obtain en where en: "getScalarizedValues st v = Some en" and ini: "scalarsInitialized en"
    by (auto split: option.splits)
  from en have "(v, en) \<in> set (m_SCM st)"
    by (auto simp: getScalarizedValues_def dest: map_of_SomeD)
  with inv ini ty have "length (scalarValues en) = n" "None \<notin> set (scalarValues en)"
    by (auto simp: laneInvariant_def)
  then have "lanes_of (scalarValues en) n = Inr (map the (scalarValues en))"
    by (simp add: lanes_of_def)
  with en ini c ty \<open>length (scalarValues en) = n\<close> show ?thesis
    by (simp add: obtainScalarizedValues_def)
next
  case False
  with c ty show ?thesis
    by (auto simp: obtainScalarizedValues_def Let_def)
qed

lemma recoverOperands_frame:
  "m_currFunc (recoverOperands st ops) = m_currFunc st \<and>
   m_removedInsts (recoverOperands st ops) = m_removedInsts st \<and>
   m_DRL (recoverOperands st ops) = m_DRL st \<and>
   set (m_usedVectors (recoverOperands st ops)) =
     set (m_usedVectors st) \<union> {v \<in> set ops. isVectorTy (type_of v)}"
  by (induction ops arbitrary: st)
     (auto simp: obtainVectorValueWhichMightBeScalarized_def set_insert_def)

lemma getSCMEntry_self:
  "\<exists>st0. getSCMEntry st (VInst I t) = Inr st0 \<and> m_currFunc st0 = m_currFunc st \<and>
         m_removedInsts st0 = m_removedInsts st \<and> m_DRL st0 = m_DRL st \<and>
         m_usedVectors st0 = m_usedVectors st"
  by (cases "map_of (m_SCM st) (VInst I t) = None") (auto simp: getSCMEntry_def)

lemma recover_effect:
  "\<exists>st'. recoverNonScalarizableInst st I ins = Inr st' \<and>
         m_currFunc st' = m_currFunc st \<and> m_removedInsts st' = m_removedInsts st \<and>
         m_DRL st' = m_DRL st \<and>
         set (m_usedVectors st') =
           set (m_usedVectors st) \<union> {v \<in> set (operands ins). isVectorTy (type_of v)}"
proof (cases "isVectorTy (ity ins)")
  case True
  from getSCMEntry_self [of st I "ity ins"] obtain st0 where
    "getSCMEntry st (VInst I (ity ins)) = Inr st0" "m_currFunc st0 = m_currFunc st"
    "m_removedInsts st0 = m_removedInsts st" "m_DRL st0 = m_DRL st"
    "m_usedVectors st0 = m_usedVectors st" by blast
  with True show ?thesis
    by (simp add: recoverNonScalarizableInst_def recoverOperands_frame)
next
  case False
  then show ?thesis
    by (simp add: recoverNonScalarizableInst_def recoverOperands_frame)
qed

lemma use_empty_replaceAllUsesWith:
  "old \<noteq> new \<Longrightarrow> use_empty (replaceAllUsesWith old new f) old"
  by (auto simp: use_empty_def replaceAllUsesWith_def)

lemma obtain_filled_or_constant:
  assumes "obtainScalarizedValues st v = Inr (ls, c, st1)"
    and "isConstant v \<or> (\<exists>en. map_of (m_SCM st) v = Some en \<and> scalarsInitialized en)"
  shows "st1 = st"
  using assms
  by (auto simp: obtainScalarizedValues_def Let_def getScalarizedValues_def bindE_eq_Inr
      split: ty.splits if_splits)

lemma create_insts_Cons:
  "create_insts f (x # xs) loc =
     (fst (create_inst f x loc) # fst (create_insts (snd (create_inst f x loc)) xs loc),
      snd (create_insts (snd (create_inst f x loc)) xs loc))"
  by (simp split: prod.splits)

lemma create_insts_length: "length (fst (create_insts f xs loc)) = length xs"
  by (induction xs arbitrary: f) (simp_all add: create_insts_Cons del: create_insts.simps(2))

lemma create_insts_lengthD: "create_insts f xs loc = (vs, f') \<Longrightarrow> length vs = length xs"
  using create_insts_length [of f xs loc] by simp

lemma lanes_of_length: "lanes_of xs w = Inr ls \<Longrightarrow> length ls = w"
  by (auto simp: lanes_of_def split: if_splits)

lemma update_frame:
  assumes "updateSCMEntryWithValues st k vals v r = Inr st'"
  shows "m_currFunc st' = m_currFunc st \<and> m_removedInsts st' = m_removedInsts st \<and>
         m_DRL st' = m_DRL st \<and> m_usedVectors st' = m_usedVectors st"
  using assms
  by (auto simp: updateSCMEntryWithValues_def split: ty.splits option.splits if_splits)

lemma getSCMEntry_frame:
  assumes "getSCMEntry st v = Inr st'"
  shows "m_currFunc st' = m_currFunc st \<and> m_removedInsts st' = m_removedInsts st \<and>
         m_DRL st' = m_DRL st \<and> m_usedVectors st' = m_usedVectors st \<and>
         map_of (m_SCM st') v \<noteq> None"
  using assms by (auto simp: getSCMEntry_def map_add_def split: if_splits)

lemma update_result:
  assumes "updateSCMEntryWithValues st k vals k r = Inr st'" and "type_of k = VectorTy e w"
  shows "map_of (m_SCM st') k = Some \<lparr>scalarValues = take w vals, isOriginalVectorRemoved = r\<rparr>"
  using assms
  by (auto simp: updateSCMEntryWithValues_def map_of_map_upd split: option.splits if_splits)

lemma keeps_bind_lanes_of_length:
  "(\<And>ls. length ls = w \<Longrightarrow> keeps P (k ls)) \<Longrightarrow> keeps P (bindE (lanes_of xs w) k)"
  by (cases "lanes_of xs w") (auto dest: lanes_of_length)

lemma keeps_bind_getSCMEntry: "(\<And>x. keeps P (k x)) \<Longrightarrow> keeps P (bindE (getSCMEntry st v) k)"
  by (rule keeps_bind_any)

lemma keeps_bind_update:
  "(\<And>x. keeps P (k x)) \<Longrightarrow> keeps P (bindE (updateSCMEntryWithValues st a b c d) k)"
  by (rule keeps_bind_any)

lemma obtain_length_keeps:
  assumes "type_of v = VectorTy e w"
  shows "keeps (\<lambda>(ls, c, st'). length ls = w) (obtainScalarizedValues st v)"
  unfolding obtainScalarizedValues_def Let_def
  using assms
  by (auto split: option.split prod.split val.split simp: bindE_assoc bindE_if
      dest: create_insts_lengthD
      intro!: keeps_bind_lanes_of_length keeps_bind_getSCMEntry keeps_bind_update)

lemma obtain_length:
  assumes "obtainScalarizedValues st v = Inr (ls, c, st')" and "type_of v = VectorTy e w"
  shows "length ls = w"
  using keepsD [OF obtain_length_keeps [OF assms(2)] assms(1)] by simp


lemma place_first:
  "length ls = w \<Longrightarrow> place (replicate (2 * w) None) 0 ls = map Some ls @ replicate w None"
  by (simp add: place_def)

lemma place_second:
  "length all = 2 * w \<Longrightarrow> length ls = w \<Longrightarrow> place all w ls = take w all @ map Some ls"
  by (simp add: place_def)

lemma shuffle_inputs:
  assumes t0: "type_of v0 = VectorTy elemTy w" and t1: "type_of v1 = VectorTy elemTy w"
    and A: "(if \<not> isUndefValue v0
             then bindE (obtainScalarizedValues st v0)
                    (\<lambda>(ls, c, st1). Inr (place (replicate (2 * w) None) 0 ls, st1))
             else Inr (replicate (2 * w) None, st)) = Inr (all0, st1)"
    and B: "(if \<not> isUndefValue v1
             then bindE (obtainScalarizedValues st1 v1)
                    (\<lambda>(ls, c, st2). Inr (place all0 w ls, st2))
             else Inr (all0, st1)) = Inr (allValues, st2)"
  shows "\<exists>in0 in1.
           (if isUndefValue v0 then in0 = None \<and> st1 = st
            else \<exists>ls c. obtainScalarizedValues st v0 = Inr (ls, c, st1) \<and> in0 = Some ls) \<and>
           (if isUndefValue v1 then in1 = None \<and> st2 = st1
            else \<exists>ls c. obtainScalarizedValues st1 v1 = Inr (ls, c, st2) \<and> in1 = Some ls) \<and>
           allValues =
             (case in0 of None \<Rightarrow> replicate w None | Some ls \<Rightarrow> map Some ls) @
             (case in1 of None \<Rightarrow> replicate w None | Some ls \<Rightarrow> map Some ls)"
proof -
  have a: "\<exists>in0. (if isUndefValue v0 then in0 = None \<and> st1 = st
                 else \<exists>ls c. obtainScalarizedValues st v0 = Inr (ls, c, st1) \<and> in0 = Some ls) \<and>
                all0 = (case in0 of None \<Rightarrow> replicate w None | Some ls \<Rightarrow> map Some ls) @
                       replicate w None"
  proof (cases "isUndefValue v0")
    case True
    with A show ?thesis
      by (auto simp: replicate_add [symmetric] mult_2)
  next
    case False
    with A obtain ls c where o: "obtainScalarizedValues st v0 = Inr (ls, c, st1)"
      and all0: "all0 = place (replicate (2 * w) None) 0 ls"
      by (auto simp: bindE_eq_Inr)
    from obtain_length [OF o t0] have "length ls = w" .
    with False o all0 show ?thesis
      by (auto simp: place_first)
  qed
  then obtain in0 where
    i0: "if isUndefValue v0 then in0 = None \<and> st1 = st
         else \<exists>ls c. obtainScalarizedValues st v0 = Inr (ls, c, st1) \<and> in0 = Some ls"
    and all0: "all0 = (case in0 of None \<Rightarrow> replicate w None | Some ls \<Rightarrow> map Some ls) @
                      replicate w None"
    by blast
  have len0: "length (case in0 of None \<Rightarrow> replicate w None | Some ls \<Rightarrow> map Some ls) = w"
  proof (cases "isUndefValue v0")
    case True
    with i0 show ?thesis by simp
  next
    case False
    with i0 obtain ls c where "obtainScalarizedValues st v0 = Inr (ls, c, st1)" "in0 = Some ls"
      by auto
    with obtain_length [OF _ t0] show ?thesis by simp
  qed
  have b: "\<exists>in1. (if isUndefValue v1 then in1 = None \<and> st2 = st1
                 else \<exists>ls c. obtainScalarizedValues st1 v1 = Inr (ls, c, st2) \<and> in1 = Some ls) \<and>
                allValues =
                  (case in0 of None \<Rightarrow> replicate w None | Some ls \<Rightarrow> map Some ls) @
                  (case in1 of None \<Rightarrow> replicate w None | Some ls \<Rightarrow> map Some ls)"
  proof (cases "isUndefValue v1")
    case True
    with B all0 show ?thesis by auto
  next
    case False
    with B obtain ls c where o: "obtainScalarizedValues st1 v1 = Inr (ls, c, st2)"
      and av: "allValues = place all0 w ls"
      by (auto simp: bindE_eq_Inr)
    from obtain_length [OF o t1] have l: "length ls = w" .
    have "length all0 = 2 * w" using all0 len0 by simp
    from place_second [OF this l] av all0 len0 have
      "allValues = (case in0 of None \<Rightarrow> replicate w None | Some ls \<Rightarrow> map Some ls) @ map Some ls"
      by simp
    with False o show ?thesis by auto
  qed
  with i0 show ?thesis by blast
qed

lemma shuffle_lane:
  assumes "m < int (length allValues)"
    and "allValues =
           (case in0 of None \<Rightarrow> replicate w None | Some ls \<Rightarrow> map Some ls) @
           (case in1 of None \<Rightarrow> replicate w None | Some ls \<Rightarrow> map Some ls)"
  shows "(if m \<ge> 0 \<and> allValues ! nat m \<noteq> None then allValues ! nat m
          else Some (VUndef elemTy)) = Some (specShuffleLane elemTy w in0 in1 m)"
  using assms(2) by (auto simp: specShuffleLane_def Let_def split: option.splits)

lemma insertAllBefore_Nil [simp]: "insertAllBefore [] loc is = is"
  by (induction "is") auto

lemma insertedAt_Nil [simp]: "insertedAt [] loc bs = bs"
  by (cases loc) (auto simp: insertedAt_def intro: map_idI)

lemma insertAllBefore_Cons:
  "n \<noteq> l \<Longrightarrow> insertAllBefore new l (insertAllBefore [n] l is) = insertAllBefore (n # new) l is"
  by (induction "is") auto

lemma insertedAt_Cons:
  "\<forall>l. loc = Some l \<longrightarrow> n \<noteq> l \<Longrightarrow>
   insertedAt new loc (insertedAt [n] loc bs) = insertedAt (n # new) loc bs"
  by (cases loc) (auto simp: insertedAt_def insertAllBefore_Cons)

lemma insertAllBefore_ins_before:
  "n \<noteq> loc \<Longrightarrow> insertAllBefore new loc (ins_before n loc is) = insertAllBefore (n # new) loc is"
  by (induction "is") auto

lemma set_ins_before: "set (ins_before n loc is) \<subseteq> insert n (set is)"
  by (induction "is") auto

lemma map_of_append_fresh:
  "k \<notin> fst ` set xs \<Longrightarrow> map_of (xs @ [(k, v)]) i = (if i = k then Some v else map_of xs i)"
  by (induction xs) auto

lemma freshIds_not_live: "freshIds f \<Longrightarrow> next_id f \<le> i \<Longrightarrow> inst_of f i = None"
  by (force simp: freshIds_def inst_of_def map_of_eq_None_iff)

lemma create_inst_spec:
  assumes fr: "freshIds f" and loc: "\<forall>l. loc = Some l \<longrightarrow> l < next_id f"
    and c: "create_inst f x loc = (v, f')"
  shows "v = VInst (next_id f) (ity x)" and "next_id f' = Suc (next_id f)"
    and "freshIds f'"
    and "inst_of f' i = (if i = next_id f then Some x else inst_of f i)"
    and "blocks f' = insertedAt [next_id f] loc (blocks f)"
    and "isDeclaration f' = isDeclaration f" and "returnType f' = returnType f"
proof -
  from c have v: "v = VInst (next_id f) (ity x)"
    and f': "f' = f\<lparr>insts := insts f @ [(next_id f, x)],
        blocks := (case loc of
                     None \<Rightarrow> blocks f
                   | Some l \<Rightarrow> map (\<lambda>(b, is). (b, ins_before (next_id f) l is)) (blocks f)),
        next_id := Suc (next_id f)\<rparr>"
    by (simp_all add: create_inst_def)
  show "v = VInst (next_id f) (ity x)" by (rule v)
  show "next_id f' = Suc (next_id f)" by (simp add: f')
  show "isDeclaration f' = isDeclaration f" "returnType f' = returnType f"
    by (simp_all add: f')
  have nl: "next_id f \<notin> fst ` set (insts f)"
    using fr by (force simp: freshIds_def)
  show "inst_of f' i = (if i = next_id f then Some x else inst_of f i)"
    unfolding f' inst_of_def using map_of_append_fresh [OF nl] by simp
  have ib: "ins_before (next_id f) l is = insertAllBefore [next_id f] l is" for l "is"
    by (induction "is") auto
  show "blocks f' = insertedAt [next_id f] loc (blocks f)"
    by (cases loc) (simp_all add: f' insertedAt_def ib)
  have "\<forall>i \<in> set (all_insts f'). i < next_id f'"
  proof (cases loc)
    case None
    with fr show ?thesis by (fastforce simp: f' freshIds_def all_insts_def less_Suc_eq)
  next
    case (Some l)
    show ?thesis
    proof
      fix i assume "i \<in> set (all_insts f')"
      then obtain b "is" where "(b, is) \<in> set (blocks f)" "i \<in> set (ins_before (next_id f) l is)"
        by (auto simp: f' Some all_insts_def)
      with set_ins_before [of "next_id f" l "is"] have "i = next_id f \<or> i \<in> set (all_insts f)"
        by (fastforce simp: all_insts_def)
      with fr show "i < next_id f'" by (auto simp: f' freshIds_def)
    qed
  qed
  moreover have "\<forall>(i, ins) \<in> set (insts f'). i < next_id f'"
    using fr by (auto simp: f' freshIds_def)
  ultimately show "freshIds f'" by (simp add: freshIds_def)
qed


lemma create_insts_spec:
  assumes "freshIds f" and "\<forall>l. loc = Some l \<longrightarrow> l < next_id f"
    and "create_insts f xs loc = (vs, f')"
  shows "vs = map (\<lambda>j. VInst (next_id f + j) (ity (xs ! j))) [0..<length xs] \<and>
         next_id f' = next_id f + length xs \<and> freshIds f' \<and>
         (\<forall>i. inst_of f' i =
                (if next_id f \<le> i \<and> i < next_id f + length xs
                 then Some (xs ! (i - next_id f)) else inst_of f i)) \<and>
         blocks f' = insertedAt [next_id f..<next_id f + length xs] loc (blocks f)"
  using assms
proof (induction xs arbitrary: f vs f')
  case Nil
  then show ?case by auto
next
  case (Cons x xs)
  obtain v f1 where c1: "create_inst f x loc = (v, f1)" by (cases "create_inst f x loc")
  obtain vs1 f2 where c2: "create_insts f1 xs loc = (vs1, f2)"
    by (cases "create_insts f1 xs loc")
  from Cons.prems(3) c1 c2 have vs: "vs = v # vs1" and f': "f' = f2" by simp_all
  note s1 = create_inst_spec [OF Cons.prems(1,2) c1]
  have loc1: "\<forall>l. loc = Some l \<longrightarrow> l < next_id f1"
    using Cons.prems(2) s1(2) by auto
  from Cons.IH [OF s1(3) loc1 c2] have
    ih: "vs1 = map (\<lambda>j. VInst (next_id f1 + j) (ity (xs ! j))) [0..<length xs]"
      "next_id f2 = next_id f1 + length xs" "freshIds f2"
      "\<And>i. inst_of f2 i =
                (if next_id f1 \<le> i \<and> i < next_id f1 + length xs
                 then Some (xs ! (i - next_id f1)) else inst_of f1 i)"
      "blocks f2 = insertedAt [next_id f1..<next_id f1 + length xs] loc (blocks f1)"
    by auto
  have a: "vs = map (\<lambda>j. VInst (next_id f + j) (ity ((x # xs) ! j))) [0..<length (x # xs)]"
  proof -
    have "[0..<length (x # xs)] = 0 # map Suc [0..<length xs]"
      by (simp add: upt_conv_Cons map_Suc_upt del: upt_Suc)
    then show ?thesis
      unfolding vs ih(1) s1(1) s1(2) by (simp add: comp_def del: upt_Suc)
  qed
  have b: "next_id f' = next_id f + length (x # xs)"
    unfolding f' ih(2) s1(2) by simp
  have c: "inst_of f' i =
       (if next_id f \<le> i \<and> i < next_id f + length (x # xs)
        then Some ((x # xs) ! (i - next_id f)) else inst_of f i)" for i
  proof (cases "i = next_id f")
    case True
    then show ?thesis unfolding f' ih(4) s1(4) s1(2) by simp
  next
    case False
    show ?thesis
    proof (cases "next_id f \<le> i \<and> i < next_id f + length (x # xs)")
      case True
      with False have "i - next_id f = Suc (i - Suc (next_id f))" by arith
      with True False show ?thesis unfolding f' ih(4) s1(4) s1(2) by auto
    next
      case False
      then show ?thesis unfolding f' ih(4) s1(4) s1(2) by auto
    qed
  qed
  have d: "blocks f' = insertedAt [next_id f..<next_id f + length (x # xs)] loc (blocks f)"
  proof -
    have ne: "\<forall>l. loc = Some l \<longrightarrow> next_id f \<noteq> l"
      using Cons.prems(2) by auto
    have "[next_id f..<next_id f + length (x # xs)] =
        next_id f # [next_id f1..<next_id f1 + length xs]"
      unfolding s1(2) by (simp add: upt_conv_Cons del: upt_Suc)
    then show ?thesis
      unfolding f' ih(5) s1(5) using insertedAt_Cons [OF ne] by simp
  qed
  from a b c d ih(3) f' show ?case by blast
qed




lemma replaceAllUsesWith_spec:
  "inst_of (replaceAllUsesWith old new f) i = map_option (redirect old new) (inst_of f i)"
  "blocks (replaceAllUsesWith old new f) = blocks f"
  "next_id (replaceAllUsesWith old new f) = next_id f"
proof -
  have "map_of (map (\<lambda>(i, ins). (i, g ins)) xs) k = map_option g (map_of xs k)" for g xs k
    by (induction xs) auto
  then show "inst_of (replaceAllUsesWith old new f) i = map_option (redirect old new) (inst_of f i)"
    by (simp add: replaceAllUsesWith_def inst_of_def redirect_def [abs_def])
qed (simp_all add: replaceAllUsesWith_def)

lemma getFirstNonPHI_in_layout:
  assumes "getFirstNonPHI f i = Some l"
  shows "l \<in> set (all_insts f)"
proof -
  from assms obtain "is" where p: "parent f i = Some is" and f: "find (\<lambda>j. \<not> isPHINode f j) is = Some l"
    by (auto simp: getFirstNonPHI_def split: option.splits)
  from f have "l \<in> set is"
    by (auto simp: find_Some_iff)
  moreover from p obtain b where "(b, is) \<in> set (blocks f)"
    by (auto simp: parent_def find_Some_iff) (metis nth_mem)
  ultimately show ?thesis
    by (force simp: all_insts_def)
qed








lemma inst_begin_in_layout: "inst_begin f = Some i \<Longrightarrow> i \<in> set (all_insts f)"
  by (auto simp: inst_begin_def split: list.splits)

lemma next_in_list_mem: "next_in_list i xs = Some y \<Longrightarrow> y \<in> set xs"
  by (induction i xs rule: next_in_list.induct) (auto split: if_splits)

lemma parent_in_layout: "parent f i = Some is \<Longrightarrow> set is \<subseteq> set (all_insts f)"
  by (auto simp: parent_def all_insts_def find_Some_iff) (metis nth_mem snd_conv)

lemma bb_next_in_layout: "bb_next f i = Some y \<Longrightarrow> y \<in> set (all_insts f)"
  using parent_in_layout [of f i] next_in_list_mem [of i _ y]
  by (auto simp: bb_next_def split: option.splits)

lemma set_insertAllBefore: "set is \<subseteq> set (insertAllBefore new l is)"
  by (induction "is") auto

lemma set_insertAllBefore_new:
  "l \<in> set is \<Longrightarrow> set new \<subseteq> set (insertAllBefore new l is)"
  by (induction "is") auto

lemma all_insts_insertedAt:
  assumes "blocks f' = insertedAt new loc (blocks f)"
  shows "set (all_insts f) \<subseteq> set (all_insts f')"
proof (cases loc)
  case None
  with assms show ?thesis by (simp add: insertedAt_def all_insts_def)
next
  case (Some l)
  show ?thesis
  proof
    fix i assume "i \<in> set (all_insts f)"
    then obtain b "is" where m: "(b, is) \<in> set (blocks f)" and i: "i \<in> set is"
      by (auto simp: all_insts_def)
    from m have "(b, insertAllBefore new l is) \<in> set (blocks f')"
      unfolding assms Some insertedAt_def by force
    with i set_insertAllBefore [of "is" new l] show "i \<in> set (all_insts f')"
      by (force simp: all_insts_def)
  qed
qed

lemma all_insts_insertedAt_new:
  assumes "blocks f' = insertedAt new (Some l) (blocks f)" and "l \<in> set (all_insts f)"
  shows "set new \<subseteq> set (all_insts f')"
proof -
  from assms(2) obtain b "is" where m: "(b, is) \<in> set (blocks f)" and l: "l \<in> set is"
    by (auto simp: all_insts_def)
  from m have "(b, insertAllBefore new l is) \<in> set (blocks f')"
    unfolding assms(1) insertedAt_def by force
  with set_insertAllBefore_new [OF l, of new] show ?thesis
    by (force simp: all_insts_def)
qed

text \<open>What a computation leaves of the function: the identities stay fresh, the live
  instructions stay as they are, and the layout keeps its instructions.\<close>

lemma create_insts_frame:
  assumes "freshIds f" and "\<forall>l. loc = Some l \<longrightarrow> l < next_id f"
    and "create_insts f xs loc = (vs, f')"
  shows "freshIds f' \<and> next_id f \<le> next_id f' \<and>
         (\<forall>i<next_id f. inst_of f' i = inst_of f i) \<and>
         set (all_insts f) \<subseteq> set (all_insts f')"
  using create_insts_spec [OF assms] all_insts_insertedAt [of f' _ loc f] by auto


lemma extends_refl: "freshIds f \<Longrightarrow> extends f f"
  by (simp add: extends_def)

lemma extends_trans: "extends f g \<Longrightarrow> extends g h \<Longrightarrow> extends f h"
  by (auto simp: extends_def)

lemma extract_location:
  assumes fr: "freshIds f" and b: "inst_begin f = Some first"
    and l: "(case v of
               VInst i t \<Rightarrow>
                 (case bb_next f i of
                    None \<Rightarrow> Inl NullDeref
                  | Some nx \<Rightarrow> Inr (if isPHINode f nx then getFirstNonPHI f nx else Some nx))
             | _ \<Rightarrow> Inr (Some first)) = Inr loc"
  shows "\<forall>l. loc = Some l \<longrightarrow> l \<in> set (all_insts f)"
proof (cases v)
  case (VInst i t)
  with l obtain nx where nx: "bb_next f i = Some nx"
    and loc: "loc = (if isPHINode f nx then getFirstNonPHI f nx else Some nx)"
    by (auto split: option.splits)
  show ?thesis
    unfolding loc using bb_next_in_layout [OF nx] getFirstNonPHI_in_layout [of f nx]
    by auto
qed (use l inst_begin_in_layout [OF b] in auto)

lemma obtain_cases:
  assumes r: "obtainScalarizedValues st v = Inr (ls, c, st')"
  obtains (same) "st' = st"
  | (placeholders) e w f' where "type_of v = VectorTy e w"
      "create_insts (m_currFunc st)
         (replicate w (mk_inst Load e [VNullPtr (PointerTy e 0)])) None = (ls, f')"
      "st' = st\<lparr>m_currFunc := f',
                m_DRL := m_DRL st @ [\<lparr>unresolvedInst = v, dummyVals = ls\<rparr>]\<rparr>"
      "isInstruction v" "map_of (m_SCM st) v = None"
  | (extracts) e w first loc f' st1 where "type_of v = VectorTy e w"
      "inst_begin (m_currFunc st) = Some first"
      "(case v of
          VInst i t \<Rightarrow>
            (case bb_next (m_currFunc st) i of
               None \<Rightarrow> Inl NullDeref
             | Some nx \<Rightarrow>
                 Inr (if isPHINode (m_currFunc st) nx
                      then getFirstNonPHI (m_currFunc st) nx else Some nx))
        | _ \<Rightarrow> Inr (Some first)) = Inr loc"
      "create_insts (m_currFunc st)
         (map (\<lambda>i. mk_inst ExtractElement e [v, i32 i]) [0..<w]) loc = (ls, f')"
      "getSCMEntry (st\<lparr>m_currFunc := f'\<rparr>) v = Inr st1"
      "updateSCMEntryWithValues st1 v (map Some ls) v False = Inr st'"
proof -
  from r obtain e w where ty: "type_of v = VectorTy e w"
    by (cases "type_of v") (auto simp: obtainScalarizedValues_def)
  let ?filled = "case getScalarizedValues st v of Some en \<Rightarrow> scalarsInitialized en | None \<Rightarrow> False"
  show ?thesis
  proof (cases "?filled \<or> isUndefValue v \<or> isConstant v")
    case True
    with r ty have "st' = st"
      by (auto simp: obtainScalarizedValues_def Let_def bindE_eq_Inr split: if_splits)
    then show ?thesis by (rule same)
  next
    case False
    show ?thesis
    proof (cases "isInstruction v \<and> getScalarizedValues st v = None")
      case True
      obtain ds f' where c: "create_insts (m_currFunc st)
         (replicate w (mk_inst Load e [VNullPtr (PointerTy e 0)])) None = (ds, f')"
        by (cases "create_insts (m_currFunc st)
         (replicate w (mk_inst Load e [VNullPtr (PointerTy e 0)])) None")
      with r ty False True have "ls = ds"
        "st' = st\<lparr>m_currFunc := f',
                m_DRL := m_DRL st @ [\<lparr>unresolvedInst = v, dummyVals = ds\<rparr>]\<rparr>"
        by (auto simp: obtainScalarizedValues_def Let_def)
      with c ty True show ?thesis
        by (intro placeholders [of e w f']) (auto simp: getScalarizedValues_def)
    next
      case nd: False
      from r ty False nd obtain first where b: "inst_begin (m_currFunc st) = Some first"
        by (cases "inst_begin (m_currFunc st)")
           (auto simp: obtainScalarizedValues_def Let_def)
      let ?L = "case v of
          VInst i t \<Rightarrow>
            (case bb_next (m_currFunc st) i of
               None \<Rightarrow> Inl NullDeref
             | Some nx \<Rightarrow>
                 Inr (if isPHINode (m_currFunc st) nx
                      then getFirstNonPHI (m_currFunc st) nx else Some nx))
        | _ \<Rightarrow> Inr (Some first)"
      from r ty False nd b obtain loc where l: "?L = Inr loc"
        and h: "(case create_insts (m_currFunc st)
                   (map (\<lambda>i. mk_inst ExtractElement e [v, i32 i]) [0..<w]) loc of
                  (extracts, f') \<Rightarrow>
                    bindE (getSCMEntry (st\<lparr>m_currFunc := f'\<rparr>) v) (\<lambda>st1.
                    bindE (updateSCMEntryWithValues st1 v (map Some extracts) v False) (\<lambda>st2.
                    Inr (extracts, isConstant v, st2)))) = Inr (ls, c, st')"
        by (cases ?L) (auto simp: obtainScalarizedValues_def Let_def)
      obtain xs f' where cr: "create_insts (m_currFunc st)
                   (map (\<lambda>i. mk_inst ExtractElement e [v, i32 i]) [0..<w]) loc = (xs, f')"
        by (cases "create_insts (m_currFunc st)
                   (map (\<lambda>i. mk_inst ExtractElement e [v, i32 i]) [0..<w]) loc")
      from h obtain st1 where "getSCMEntry (st\<lparr>m_currFunc := f'\<rparr>) v = Inr st1"
        "updateSCMEntryWithValues st1 v (map Some xs) v False = Inr st'" "ls = xs"
        unfolding cr by (auto simp: bindE_eq_Inr)
      with ty b l cr show ?thesis
        by (intro extracts [of e w first loc f' st1]) auto
    qed
  qed
qed

lemma obtain_frame:
  assumes fr: "freshIds (m_currFunc st)"
    and r: "obtainScalarizedValues st v = Inr (ls, c, st')"
  shows "extends (m_currFunc st) (m_currFunc st')"
  using r
proof (cases rule: obtain_cases)
  case same
  with fr show ?thesis by (simp add: extends_refl)
next
  case (placeholders e w f')
  from create_insts_frame [OF fr _ placeholders(2)] placeholders(3) show ?thesis
    by (simp add: extends_def)
next
  case (extracts e w first loc f' st1)
  from extract_location [OF fr extracts(2,3)] fr
  have "\<forall>l. loc = Some l \<longrightarrow> l < next_id (m_currFunc st)"
    by (auto simp: freshIds_def)
  from create_insts_frame [OF fr this extracts(4)]
    getSCMEntry_frame [OF extracts(5)] update_frame [OF extracts(6)]
  show ?thesis by (simp add: extends_def)
qed


lemma map_of_map_key:
  "map_of (map (\<lambda>(i, ins). (i, g i ins)) xs) k = map_option (g k) (map_of xs k)"
  by (induction xs) auto

lemma addIncoming_spec:
  "inst_of (addIncoming p v blk f) i =
     map_option (\<lambda>ins. if i = p
                        then ins\<lparr>operands := operands ins @ [v], incoming := incoming ins @ [blk]\<rparr>
                        else ins) (inst_of f i)"
  "blocks (addIncoming p v blk f) = blocks f"
  "next_id (addIncoming p v blk f) = next_id f"
  "fst ` set (insts (addIncoming p v blk f)) = fst ` set (insts f)"
proof -
  have "insts (addIncoming p v blk f) =
      map (\<lambda>(i, ins). (i, if i = p
                        then ins\<lparr>operands := operands ins @ [v], incoming := incoming ins @ [blk]\<rparr>
                        else ins)) (insts f)"
    by (auto simp: addIncoming_def)
  then show "inst_of (addIncoming p v blk f) i =
     map_option (\<lambda>ins. if i = p
                        then ins\<lparr>operands := operands ins @ [v], incoming := incoming ins @ [blk]\<rparr>
                        else ins) (inst_of f i)"
    unfolding inst_of_def by (simp add: map_of_map_key)
  show "fst ` set (insts (addIncoming p v blk f)) = fst ` set (insts f)"
    by (force simp: addIncoming_def)
qed (simp_all add: addIncoming_def)

lemma addIncomings_spec:
  "inst_of (addIncomings ps blk f) i =
     map_option (\<lambda>ins. ins\<lparr>operands := operands ins @ appended ps i,
                            incoming := incoming ins @ replicate (length (appended ps i)) blk\<rparr>)
       (inst_of f i) \<and>
   blocks (addIncomings ps blk f) = blocks f \<and>
   next_id (addIncomings ps blk f) = next_id f \<and>
   fst ` set (insts (addIncomings ps blk f)) = fst ` set (insts f)"
proof (induction ps blk f rule: addIncomings.induct)
  case (1 blk f)
  show ?case by (cases "inst_of f i") simp_all
next
  case (2 p t v rest blk f)
  show ?case
    unfolding addIncomings.simps using 2
    by (cases "inst_of f i") (simp_all add: addIncoming_spec replicate_append_same)
qed simp_all

lemma appended_zip:
  "appended (zip (map (\<lambda>k. VInst (n + k) t) [a..<a + m]) ops) i =
     (if n + a \<le> i \<and> i < n + a + min m (length ops) then [ops ! (i - n - a)] else [])"
proof (induction ops arbitrary: a m)
  case Nil
  then show ?case by simp
next
  case (Cons x ops)
  show ?case
  proof (cases m)
    case 0
    then show ?thesis by simp
  next
    case (Suc m')
    have u: "[a..<a + m] = a # [Suc a..<Suc a + m']"
      unfolding Suc by (simp add: upt_conv_Cons del: upt_Suc)
    show ?thesis
      unfolding u using Cons [of "Suc a" m'] Suc
      by (auto simp: Suc_diff_le nth_Cons')
  qed
qed


lemma obtain_removed:
  assumes "obtainScalarizedValues st v = Inr (ls, c, st')"
  shows "m_removedInsts st' = m_removedInsts st \<and> m_usedVectors st' = m_usedVectors st"
  using assms
proof (cases rule: obtain_cases)
  case (extracts e w first loc f' st1)
  from getSCMEntry_frame [OF extracts(5)] update_frame [OF extracts(6)] show ?thesis by simp
qed simp_all

lemma freshIds_cong:
  assumes "fst ` set (insts g) = fst ` set (insts f)" and "blocks g = blocks f"
    and "next_id g = next_id f"
  shows "freshIds g = freshIds f"
proof -
  have k: "(\<forall>(i, ins) \<in> set (insts h). i < m) = (\<forall>i \<in> fst ` set (insts h). i < m)" for h m
    by force
  show ?thesis
    unfolding freshIds_def k all_insts_def assms ..
qed

lemma fillPHIs_spec:
  assumes "freshIds (m_currFunc st)" and "n + w \<le> next_id (m_currFunc st)"
    and "fillPHIs st (map (\<lambda>k. VInst (n + k) t) [0..<w]) w vs = Inr st'"
  shows "\<exists>Ls. incomingLanes st (map (\<lambda>k. VInst (n + k) t) [0..<w]) w vs = Inr Ls \<and>
           length Ls = length vs \<and>
           (\<forall>k<w. inst_of (m_currFunc st') (n + k) =
                     map_option (\<lambda>ins. ins\<lparr>operands := operands ins @ map (\<lambda>L. L ! k) Ls,
                                            incoming := incoming ins @ map snd vs\<rparr>)
                       (inst_of (m_currFunc st) (n + k))) \<and>
           freshIds (m_currFunc st') \<and> next_id (m_currFunc st) \<le> next_id (m_currFunc st') \<and>
           set (all_insts (m_currFunc st)) \<subseteq> set (all_insts (m_currFunc st')) \<and>
           m_removedInsts st' = m_removedInsts st"
  using assms
proof (induction vs arbitrary: st)
  case Nil
  have "map_option (\<lambda>ins. ins\<lparr>operands := operands ins @ [], incoming := incoming ins @ []\<rparr>) x = x"
    for x :: "inst option"
    by (cases x) simp_all
  with Nil show ?case by simp
next
  case (Cons a vs)
  let ?phis = "map (\<lambda>k. VInst (n + k) t) [0..<w]"
  obtain v blk where a: "a = (v, blk)" by (cases a)
  from Cons.prems(3) obtain operand c st1 where
    o: "obtainScalarizedValues st v = Inr (operand, c, st1)"
    and len: "w \<le> length operand"
    and rest: "fillPHIs (st1\<lparr>m_currFunc := addIncomings (zip ?phis operand) blk (m_currFunc st1)\<rparr>)
                 ?phis w vs = Inr st'"
    by (auto simp: a split: sum.splits if_splits)
  let ?f = "m_currFunc st"
  let ?f1 = "m_currFunc st1"
  let ?g = "addIncomings (zip ?phis operand) blk ?f1"
  let ?st1 = "st1\<lparr>m_currFunc := ?g\<rparr>"
  note ex = obtain_frame [OF Cons.prems(1) o, unfolded extends_def]
  note ai = addIncomings_spec [of "zip ?phis operand" blk ?f1]
  have frg: "freshIds ?g"
    using freshIds_cong [of ?g ?f1] ai ex by blast
  have ng: "next_id ?g = next_id ?f1" using ai by blast
  have bg: "n + w \<le> next_id (m_currFunc ?st1)"
    using Cons.prems(2) ex ng by simp
  from Cons.IH [of ?st1] frg bg rest obtain Ls where
    il: "incomingLanes ?st1 ?phis w vs = Inr Ls" and ll: "length Ls = length vs"
    and ih: "\<And>k. k < w \<Longrightarrow> inst_of (m_currFunc st') (n + k) =
                     map_option (\<lambda>ins. ins\<lparr>operands := operands ins @ map (\<lambda>L. L ! k) Ls,
                                            incoming := incoming ins @ map snd vs\<rparr>)
                       (inst_of ?g (n + k))"
    and fr': "freshIds (m_currFunc st')" and nx: "next_id ?g \<le> next_id (m_currFunc st')"
    and al: "set (all_insts ?g) \<subseteq> set (all_insts (m_currFunc st'))"
    and rm: "m_removedInsts st' = m_removedInsts st1"
    by auto
  have ap: "appended (zip ?phis operand) (n + k) = [operand ! k]" if "k < w" for k
    using appended_zip [of n t 0 w operand "n + k"] that len by simp
  have step: "inst_of (m_currFunc st') (n + k) =
      map_option (\<lambda>ins. ins\<lparr>operands := operands ins @ map (\<lambda>L. L ! k) (operand # Ls),
                             incoming := incoming ins @ map snd (a # vs)\<rparr>)
        (inst_of ?f (n + k))" if k: "k < w" for k
  proof -
    have "n + k < next_id ?f" using k Cons.prems(2) by simp
    with ex have "inst_of ?f1 (n + k) = inst_of ?f (n + k)" by simp
    then show ?thesis
      unfolding ih [OF k] using ai ap [OF k]
      by (cases "inst_of ?f (n + k)") (simp_all add: a)
  qed
  have "incomingLanes st ?phis w (a # vs) = Inr (operand # Ls)"
    using o len il by (simp add: a)
  moreover have "all_insts ?g = all_insts ?f1"
    using ai by (simp add: all_insts_def)
  ultimately show ?case
    using ll step fr' nx ng ex al rm obtain_removed [OF o]
    by (intro exI [of _ "operand # Ls"]) auto
qed


lemma phi_decomposed:
  assumes ins: "inst_of (m_currFunc st) I = Some PI" and opc: "opcode PI = PHI"
    and ty: "ity PI = VectorTy scalarType w"
    and nv: "\<not> (\<exists>Op \<in> set (operands PI). isVMESend (m_currFunc st) Op)"
    and fr: "freshIds (m_currFunc st)" and lay: "I \<in> set (all_insts (m_currFunc st))"
    and r: "scalarizePHINode st I PI = Inr st'"
  shows "phiDecomposed st I PI scalarType w st'"
proof -
  let ?f = "m_currFunc st"
  let ?n = "next_id ?f"
  let ?phis = "map (\<lambda>k. VInst (?n + k) scalarType) [0..<w]"
  let ?xs = "replicate w (mk_inst PHI scalarType [])"
  from r ty nv have eq: "length (incoming PI) = length (operands PI)"
    by (auto simp: scalarizePHINode_def split: if_splits)
  from r ty nv eq obtain st0 where g: "getSCMEntry st (self I PI) = Inr st0"
    and h: "(case create_insts (m_currFunc st0) ?xs (Some I) of
              (newScalarizedPHI, f') \<Rightarrow>
                bindE (fillPHIs (st0\<lparr>m_currFunc := f'\<rparr>) newScalarizedPHI w
                         (zip (operands PI) (incoming PI))) (\<lambda>st1.
                bindE (updateSCMEntryWithValues st1 (self I PI) (map Some newScalarizedPHI)
                         (self I PI) True) (\<lambda>st2.
                Inr (markRemoved I st2)))) = Inr st'"
    by (auto simp: scalarizePHINode_def bindE_eq_Inr)
  from getSCMEntry_frame [OF g] have f0: "m_currFunc st0 = ?f"
    and rm0: "m_removedInsts st0 = m_removedInsts st" by simp_all
  obtain phis f1 where c: "create_insts ?f ?xs (Some I) = (phis, f1)"
    by (cases "create_insts ?f ?xs (Some I)")
  have Ib: "\<forall>l. Some I = Some l \<longrightarrow> l < ?n"
    using fr lay by (auto simp: freshIds_def)
  from create_insts_spec [OF fr Ib c] have
    ph: "phis = ?phis" and n1: "next_id f1 = ?n + w" and fr1: "freshIds f1"
    and i1: "\<And>k. k < w \<Longrightarrow> inst_of f1 (?n + k) = Some (mk_inst PHI scalarType [])"
    and b1: "blocks f1 = insertedAt [?n..<?n + w] (Some I) (blocks ?f)"
    by (auto simp: mk_inst_def)
  from h obtain st1 st2 where
    fl: "fillPHIs (st0\<lparr>m_currFunc := f1\<rparr>) ?phis w (zip (operands PI) (incoming PI)) = Inr st1"
    and u: "updateSCMEntryWithValues st1 (self I PI) (map Some ?phis) (self I PI) True = Inr st2"
    and st': "st' = markRemoved I st2"
    unfolding f0 c ph by (auto simp: bindE_eq_Inr)
  have "freshIds (m_currFunc (st0\<lparr>m_currFunc := f1\<rparr>))"
    "?n + w \<le> next_id (m_currFunc (st0\<lparr>m_currFunc := f1\<rparr>))"
    using fr1 n1 by simp_all
  from fillPHIs_spec [OF this fl] obtain Ls where
    il: "incomingLanes (st0\<lparr>m_currFunc := f1\<rparr>) ?phis w (zip (operands PI) (incoming PI)) =
           Inr Ls"
    and ll: "length Ls = length (zip (operands PI) (incoming PI))"
    and ops: "\<And>k. k < w \<Longrightarrow> inst_of (m_currFunc st1) (?n + k) =
                     map_option (\<lambda>ins. ins\<lparr>operands := operands ins @ map (\<lambda>L. L ! k) Ls,
                                            incoming := incoming ins @
                                              map snd (zip (operands PI) (incoming PI))\<rparr>)
                       (inst_of f1 (?n + k))"
    and al: "set (all_insts f1) \<subseteq> set (all_insts (m_currFunc st1))"
    by auto
  have pl: "phiLanes st I PI = Inr Ls"
    unfolding phiLanes_def using ty g f0 c ph il by simp
  have f2: "m_currFunc st' = m_currFunc st1"
    using update_frame [OF u] by (simp add: st' markRemoved_def)
  have new: "inst_of (m_currFunc st') (?n + k) =
      Some ((mk_inst PHI scalarType (map (\<lambda>L. L ! k) Ls))\<lparr>incoming := incoming PI\<rparr>) \<and>
      ?n + k \<in> set (all_insts (m_currFunc st'))" if k: "k < w" for k
  proof -
    have "?n + k \<in> set [?n..<?n + w]" using k by simp
    with all_insts_insertedAt_new [OF b1 lay] al have "?n + k \<in> set (all_insts (m_currFunc st'))"
      unfolding f2 by blast
    then show ?thesis
      unfolding f2 ops [OF k] i1 [OF k] using eq by (simp add: mk_inst_def)
  qed
  have ts: "type_of (self I PI) = VectorTy scalarType w"
    by (simp add: self_def ty)
  have scm: "map_of (m_SCM st') (self I PI) =
      Some \<lparr>scalarValues = map (\<lambda>k. Some (VInst (?n + k) scalarType)) [0..<w],
            isOriginalVectorRemoved = True\<rparr>"
    using update_result [OF u ts] by (simp add: st' comp_def)
  have "I \<in> set (m_removedInsts st')"
    by (simp add: st' markRemoved_def set_insert_def)
  with pl ll eq new scm show ?thesis
    unfolding phiDecomposed_def Let_def by auto
qed

lemma set_insertAllBefore_upper: "set (insertAllBefore new l is) \<subseteq> set is \<union> set new"
  by (induction "is") auto

lemma all_insts_insertedAt_upper:
  assumes "blocks f' = insertedAt new loc (blocks f)"
  shows "set (all_insts f') \<subseteq> set (all_insts f) \<union> set new"
proof (cases loc)
  case None
  with assms show ?thesis by (simp add: insertedAt_def all_insts_def)
next
  case (Some l)
  show ?thesis
  proof
    fix i assume "i \<in> set (all_insts f')"
    then obtain b "is" where m: "(b, is) \<in> set (blocks f)"
      and i: "i \<in> set (insertAllBefore new l is)"
      unfolding all_insts_def assms Some insertedAt_def by auto
    from i set_insertAllBefore_upper [of new l "is"] have "i \<in> set is \<union> set new" by blast
    with m show "i \<in> set (all_insts f) \<union> set new"
      by (force simp: all_insts_def)
  qed
qed

lemma live_below_next_id: "freshIds f \<Longrightarrow> inst_of f i = Some ins \<Longrightarrow> i < next_id f"
  using freshIds_not_live [of f i] by (cases "i < next_id f") auto

lemma isDummyValue_cong:
  "inst_of f' i = inst_of f i \<Longrightarrow> isDummyValue f' (VInst i t) = isDummyValue f (VInst i t)"
  by (simp add: isDummyValue_def)

lemma resolving_create:
  assumes inv: "resolving D f0 f Ps"
    and c: "create_inst f (mk_inst ExtractElement ety [VInst vi t, i32 k]) loc = (v, f')"
    and vi: "vi \<in> set (all_insts f)"
    and loc: "\<forall>l. loc = Some l \<longrightarrow> l < next_id f"
  shows "resolving D f0 f' Ps" and "v \<notin> D" and "vi \<in> set (all_insts f')"
    and "\<forall>l. loc = Some l \<longrightarrow> l < next_id f'"
    and "\<And>s. isDummyValue f s = Inr False \<Longrightarrow> isDummyValue f' s = Inr False"
proof -
  let ?x = "mk_inst ExtractElement ety [VInst vi t, i32 k]"
  from inv have fr0: "freshIds f0" and fr: "freshIds f" and le: "next_id f0 \<le> next_id f"
    and J: "\<forall>d \<in> D. \<exists>i t. d = VInst i t \<and> i < next_id f0 \<and> isDummyValue f d \<noteq> Inr False"
    and P: "\<forall>(d, so) \<in> set Ps. d \<in> D \<and> (\<exists>s. so = Some s \<and> s \<notin> D) \<and> discarded f d"
    and di: "distinct (map fst Ps)"
    and B: "\<forall>i ins. inst_of f0 i = Some ins \<longrightarrow> (\<forall>t. VInst i t \<notin> fst ` set Ps) \<longrightarrow>
         inst_of f i = Some (ins\<lparr>operands := map (substitute Ps) (operands ins)\<rparr>)"
    unfolding resolving_def by blast+
  note sp = create_inst_spec [OF fr loc c]
  have same: "inst_of f' i = inst_of f i" if "i < next_id f" for i
    using that sp(4) [of i] by simp
  have ins': "insts f' = insts f @ [(next_id f, ?x)]"
    using c by (auto simp: create_inst_def)
  have lay: "set (all_insts f') \<subseteq> set (all_insts f) \<union> {next_id f}"
    using all_insts_insertedAt_upper [OF sp(5)] by simp
  show "vi \<in> set (all_insts f')"
    using all_insts_insertedAt [OF sp(5)] vi by blast
  show "\<forall>l. loc = Some l \<longrightarrow> l < next_id f'"
    using loc sp(2) by auto
  show "v \<notin> D"
    using J le sp(1) by fastforce
  show "isDummyValue f' s = Inr False" if "isDummyValue f s = Inr False" for s
  proof (cases s)
    case (VInst i t')
    with that have "inst_of f i \<noteq> None"
      by (auto simp: isDummyValue_def split: option.splits)
    then have "i < next_id f"
      using live_below_next_id [OF fr] by blast
    with that VInst show ?thesis
      using isDummyValue_cong [OF same] by simp
  qed (simp_all add: isDummyValue_def)
  have J': "\<forall>d \<in> D. \<exists>i t. d = VInst i t \<and> i < next_id f0 \<and> isDummyValue f' d \<noteq> Inr False"
  proof
    fix d assume "d \<in> D"
    with J obtain i t' where d: "d = VInst i t'" "i < next_id f0" "isDummyValue f d \<noteq> Inr False"
      by blast
    with le have "i < next_id f" by simp
    from isDummyValue_cong [OF same [OF this]] d
    show "\<exists>i t. d = VInst i t \<and> i < next_id f0 \<and> isDummyValue f' d \<noteq> Inr False"
      by simp
  qed
  have P': "\<forall>(d, so) \<in> set Ps. d \<in> D \<and> (\<exists>s. so = Some s \<and> s \<notin> D) \<and> discarded f' d"
  proof (clarify, intro conjI)
    fix d so assume m: "(d, so) \<in> set Ps"
    with P have dD: "d \<in> D" and so: "\<exists>s. so = Some s \<and> s \<notin> D" and dis: "discarded f d"
      by auto
    from dD so show "d \<in> D" "\<exists>s. so = Some s \<and> s \<notin> D" by auto
    from dD J obtain i t' where d: "d = VInst i t'" "i < next_id f0" by blast
    with le have i: "i < next_id f" by simp
    from dis d have a: "inst_of f i = None" "i \<notin> set (all_insts f)" "use_empty f d"
      by (simp_all add: discarded_def)
    from a(2) vi have "d \<noteq> VInst vi t" using d by auto
    with a(3) have "use_empty f' d"
      unfolding use_empty_def ins' using d by (auto simp: mk_inst_def i32_def)
    moreover have "inst_of f' i = None" using same [OF i] a(1) by simp
    moreover have "i \<notin> set (all_insts f')" using lay a(2) i by auto
    ultimately show "discarded f' d"
      using d by (simp add: discarded_def)
  qed
  have B': "\<forall>i ins. inst_of f0 i = Some ins \<longrightarrow> (\<forall>t. VInst i t \<notin> fst ` set Ps) \<longrightarrow>
         inst_of f' i = Some (ins\<lparr>operands := map (substitute Ps) (operands ins)\<rparr>)"
  proof (intro allI impI)
    fix i ins assume a: "inst_of f0 i = Some ins" "\<forall>t. VInst i t \<notin> fst ` set Ps"
    from live_below_next_id [OF fr0 a(1)] le have "i < next_id f" by simp
    from same [OF this] B a
    show "inst_of f' i = Some (ins\<lparr>operands := map (substitute Ps) (operands ins)\<rparr>)"
      by simp
  qed
  from fr0 sp(3) le sp(2) J' P' di B' show "resolving D f0 f' Ps"
    unfolding resolving_def by simp
qed


lemma rescalarize_spec:
  assumes "rescalarize f (VInst vi t) ety init lanes is loc = Inr (vs, f')"
    and "resolving D f0 f Ps" and "vi \<in> set (all_insts f)"
    and "\<forall>l. loc = Some l \<longrightarrow> l < next_id f"
  shows "resolving D f0 f' Ps \<and> length vs = length is \<and> (\<forall>s \<in> set vs. s \<notin> D)"
  using assms
proof (induction "is" arbitrary: f vs)
  case Nil
  then show ?case by simp
next
  case (Cons i rest)
  let ?chk = "if \<not> init then Inr True
              else if length lanes \<le> i then Inl OutOfBounds
              else (case lanes ! i of None \<Rightarrow> Inl NullDeref | Some v \<Rightarrow> isDummyValue f v)"
  from Cons.prems(1) obtain fresh where chk: "?chk = Inr fresh"
    by (cases ?chk) simp_all
  show ?case
  proof (cases fresh)
    case True
    obtain EE f1 where c: "create_inst f (mk_inst ExtractElement ety [VInst vi t, i32 i]) loc = (EE, f1)"
      by (cases "create_inst f (mk_inst ExtractElement ety [VInst vi t, i32 i]) loc")
    from Cons.prems(1) chk True c obtain vs' where
      r: "rescalarize f1 (VInst vi t) ety init lanes rest loc = Inr (vs', f')" and vs: "vs = EE # vs'"
      by (simp split: sum.splits prod.splits)
    note st = resolving_create [OF Cons.prems(2) c Cons.prems(3,4)]
    from Cons.IH [OF r st(1,3,4)] st(2) vs show ?thesis
      by simp
  next
    case False
    with chk obtain v where l: "lanes ! i = Some v" and nd: "isDummyValue f v = Inr False"
      by (auto split: if_splits option.splits)
    from Cons.prems(1) chk False obtain vs' where
      r: "rescalarize f (VInst vi t) ety init lanes rest loc = Inr (vs', f')"
      and vs: "vs = the (lanes ! i) # vs'"
      by (simp split: sum.splits prod.splits)
    from Cons.prems(2) nd have "v \<notin> D"
      unfolding resolving_def by blast
    with Cons.IH [OF r Cons.prems(2,3,4)] vs l show ?thesis
      by simp
  qed
qed

lemma eraseFromParent_spec:
  "inst_of (eraseFromParent i f) j = (if j = i then None else inst_of f j)"
  "set (all_insts (eraseFromParent i f)) = set (all_insts f) - {i}"
  "next_id (eraseFromParent i f) = next_id f"
proof -
  have "map_of (filter (\<lambda>(j, ins). j \<noteq> i) xs) j = (if j = i then None else map_of xs j)"
    for xs :: "(nat \<times> inst) list"
    by (induction xs) auto
  then show "inst_of (eraseFromParent i f) j = (if j = i then None else inst_of f j)"
    by (simp add: eraseFromParent_def inst_of_def)
  show "set (all_insts (eraseFromParent i f)) = set (all_insts f) - {i}"
    by (auto simp: eraseFromParent_def all_insts_def)
qed (simp add: eraseFromParent_def)

lemma freshIds_connect: "freshIds f \<Longrightarrow> freshIds (eraseFromParent i (replaceAllUsesWith d s f))"
  unfolding freshIds_def eraseFromParent_spec
  by (auto simp: eraseFromParent_def replaceAllUsesWith_def all_insts_def)

lemma use_empty_connect:
  assumes "use_empty f p \<or> p = d" and "p \<noteq> s" and "d \<noteq> s"
  shows "use_empty (eraseFromParent i (replaceAllUsesWith d s f)) p"
  using assms by (auto simp: use_empty_def eraseFromParent_def replaceAllUsesWith_def)

lemma substitute_snoc:
  assumes "\<forall>(p, so) \<in> set Ps. \<exists>s'. so = Some s' \<and> s' \<noteq> d"
  shows "substitute (Ps @ [(d, Some s)]) x = (if substitute Ps x = d then s else substitute Ps x)"
proof (cases "map_of Ps x")
  case None
  then show ?thesis by (simp add: substitute_def map_add_def)
next
  case (Some so)
  then have "(x, so) \<in> set Ps" by (rule map_of_SomeD)
  with assms obtain s' where "so = Some s'" "s' \<noteq> d" by blast
  with Some show ?thesis by (simp add: substitute_def map_add_def)
qed

lemma resolving_connect:
  assumes inv: "resolving D f0 f Ps" and d: "VInst i t \<in> D" and s: "s \<notin> D"
    and live: "inst_of f i \<noteq> None"
  shows "resolving D f0 (eraseFromParent i (replaceAllUsesWith (VInst i t) s f))
           (Ps @ [(VInst i t, Some s)])"
proof -
  let ?d = "VInst i t"
  let ?f = "eraseFromParent i (replaceAllUsesWith ?d s f)"
  from inv have fr0: "freshIds f0" and fr: "freshIds f" and le: "next_id f0 \<le> next_id f"
    and J: "\<forall>d \<in> D. \<exists>i t. d = VInst i t \<and> i < next_id f0 \<and> isDummyValue f d \<noteq> Inr False"
    and P: "\<forall>(d, so) \<in> set Ps. d \<in> D \<and> (\<exists>s. so = Some s \<and> s \<notin> D) \<and> discarded f d"
    and di: "distinct (map fst Ps)"
    and B: "\<forall>i ins. inst_of f0 i = Some ins \<longrightarrow> (\<forall>t. VInst i t \<notin> fst ` set Ps) \<longrightarrow>
         inst_of f i = Some (ins\<lparr>operands := map (substitute Ps) (operands ins)\<rparr>)"
    unfolding resolving_def by blast+
  from d s have ds: "?d \<noteq> s" by auto
  have io: "inst_of ?f j = (if j = i then None else map_option (redirect ?d s) (inst_of f j))" for j
    by (simp add: eraseFromParent_spec replaceAllUsesWith_spec)
  have "all_insts (replaceAllUsesWith ?d s f) = all_insts f"
    by (simp add: all_insts_def replaceAllUsesWith_spec)
  then have lay: "set (all_insts ?f) = set (all_insts f) - {i}"
    by (simp add: eraseFromParent_spec)
  have nx: "next_id ?f = next_id f"
    by (simp add: eraseFromParent_spec replaceAllUsesWith_spec)
  have J': "\<forall>d \<in> D. \<exists>i t. d = VInst i t \<and> i < next_id f0 \<and> isDummyValue ?f d \<noteq> Inr False"
  proof
    fix p assume "p \<in> D"
    with J obtain j t' where p: "p = VInst j t'" "j < next_id f0" "isDummyValue f p \<noteq> Inr False"
      by blast
    have "isDummyValue ?f (VInst j t') \<noteq> Inr False"
      using p(3) unfolding p(1) isDummyValue_def io
      by (auto simp: redirect_def split: option.splits list.splits val.splits)
    with p show "\<exists>i t. p = VInst i t \<and> i < next_id f0 \<and> isDummyValue ?f p \<noteq> Inr False"
      by simp
  qed
  have fresh: "?d \<notin> fst ` set Ps"
  proof
    assume "?d \<in> fst ` set Ps"
    then obtain so where "(?d, so) \<in> set Ps" by auto
    with P have "discarded f ?d" by blast
    with live show False by (simp add: discarded_def)
  qed
  have P': "\<forall>(p, so) \<in> set (Ps @ [(?d, Some s)]).
              p \<in> D \<and> (\<exists>s. so = Some s \<and> s \<notin> D) \<and> discarded ?f p"
  proof (clarify, intro conjI)
    fix p so assume m: "(p, so) \<in> set (Ps @ [(?d, Some s)])"
    then consider "(p, so) \<in> set Ps" | "p = ?d" "so = Some s" by auto
    then have a: "p \<in> D \<and> (\<exists>s. so = Some s \<and> s \<notin> D) \<and> (discarded f p \<or> p = ?d)"
      using P d s by cases auto
    then show "p \<in> D" "\<exists>s. so = Some s \<and> s \<notin> D" by auto
    from a J obtain j t' where p: "p = VInst j t'" by blast
    from a s have ps: "p \<noteq> s" by auto
    from a have "use_empty f p \<or> p = ?d"
      by (auto simp: discarded_def p)
    from use_empty_connect [OF this ps ds] have "use_empty ?f p" .
    moreover have "inst_of ?f j = None \<and> j \<notin> set (all_insts ?f)"
      using a unfolding io lay p by (auto simp: discarded_def)
    ultimately show "discarded ?f p"
      by (simp add: discarded_def p)
  qed
  have ne: "\<forall>(p, so) \<in> set Ps. \<exists>s'. so = Some s' \<and> s' \<noteq> ?d"
    using P d by fastforce
  have B': "\<forall>j ins. inst_of f0 j = Some ins \<longrightarrow>
         (\<forall>t'. VInst j t' \<notin> fst ` set (Ps @ [(?d, Some s)])) \<longrightarrow>
         inst_of ?f j =
           Some (ins\<lparr>operands := map (substitute (Ps @ [(?d, Some s)])) (operands ins)\<rparr>)"
  proof (intro allI impI)
    fix j ins assume a: "inst_of f0 j = Some ins"
      "\<forall>t'. VInst j t' \<notin> fst ` set (Ps @ [(?d, Some s)])"
    then have "j \<noteq> i" by auto
    moreover from a B have "inst_of f j = Some (ins\<lparr>operands := map (substitute Ps) (operands ins)\<rparr>)"
      by auto
    ultimately show "inst_of ?f j =
           Some (ins\<lparr>operands := map (substitute (Ps @ [(?d, Some s)])) (operands ins)\<rparr>)"
      unfolding io by (simp add: redirect_def substitute_snoc [OF ne])
  qed
  from fr0 freshIds_connect [OF fr] le nx J' P' di fresh B' show ?thesis
    unfolding resolving_def by simp
qed

lemma connect_spec:
  assumes "connectDummies f pairs = Inr f'" and "resolving D f0 f Ps"
    and "\<forall>(d, so) \<in> set pairs. d \<in> D \<and> (\<forall>s. so = Some s \<longrightarrow> s \<notin> D)"
  shows "resolving D f0 f' (Ps @ pairs)"
  using assms
proof (induction pairs arbitrary: f Ps)
  case Nil
  then show ?case by simp
next
  case (Cons p rest)
  from Cons.prems(1) obtain i t s where p: "p = (VInst i t, Some s)"
    by (cases p; cases "fst p"; cases "snd p") auto
  from Cons.prems(1) have live: "inst_of f i \<noteq> None"
    and r: "connectDummies (eraseFromParent i (replaceAllUsesWith (VInst i t) s f)) rest = Inr f'"
    unfolding p by (auto simp: RAUW_def split: if_splits)
  from Cons.prems(3) have d: "VInst i t \<in> D" and s: "s \<notin> D"
    and rest: "\<forall>(d, so) \<in> set rest. d \<in> D \<and> (\<forall>s. so = Some s \<longrightarrow> s \<notin> D)"
    unfolding p by auto
  from Cons.IH [OF r resolving_connect [OF Cons.prems(2) d s live] rest]
  show ?case by (simp add: p)
qed

lemma hasDummyLoad_False:
  "hasDummyLoad f lanes = Inr False \<Longrightarrow>
   \<forall>so \<in> set lanes. \<exists>s. so = Some s \<and> isDummyValue f s = Inr False"
proof (induction lanes)
  case Nil
  then show ?case by simp
next
  case (Cons a lanes)
  then show ?case
    by (cases a) (auto split: sum.splits if_splits)
qed


lemma parent_self: "parent f i = Some is \<Longrightarrow> i \<in> set is"
  by (auto simp: parent_def find_Some_iff)

lemma bb_next_self_in_layout: "bb_next f i = Some y \<Longrightarrow> i \<in> set (all_insts f)"
  using parent_in_layout [of f i] parent_self [of f i]
  by (auto simp: bb_next_def split: option.splits)

lemma zip_take_lanes:
  assumes "\<forall>so \<in> set (take w ys). P so" and "length xs \<le> w" and "(d, so) \<in> set (zip xs ys)"
  shows "P so"
proof -
  from assms(3) obtain k where k: "k < length xs" "k < length ys" "ys ! k = so"
    by (auto simp: set_zip)
  with assms(2) have "so \<in> set (take w ys)"
    by (auto simp: in_set_conv_nth intro!: exI [of _ k])
  with assms(1) show ?thesis by blast
qed

lemma entry_spec:
  assumes r: "resolveDRLEntry st e = Inr st1" and inv: "resolving D f0 (m_currFunc st) Ps"
    and sub: "set (placeholders e) \<subseteq> D"
  shows "resolving D f0 (m_currFunc st1) (Ps @ resolvedLanes (m_SCM st1) e) \<and>
         map fst (resolvedLanes (m_SCM st1) e) = placeholders e \<and> m_DRL st1 = m_DRL st"
proof -
  from r obtain vi t where V: "unresolvedInst e = VInst vi t"
    by (cases "unresolvedInst e") (auto simp: resolveDRLEntry_def)
  from r V obtain ety w where t: "t = VectorTy ety w"
    by (cases t) (auto simp: resolveDRLEntry_def)
  let ?V = "VInst vi (VectorTy ety w)"
  have ph: "placeholders e = take w (dummyVals e)"
    by (simp add: placeholders_def V t)
  obtain st0 where g: "getSCMEntry st ?V = Inr st0"
    using r by (cases "getSCMEntry st ?V") (simp_all add: resolveDRLEntry_def V t)
  from getSCMEntry_frame [OF g] have f0: "m_currFunc st0 = m_currFunc st"
    and drl0: "m_DRL st0 = m_DRL st" by simp_all
  let ?f = "m_currFunc st0"
  obtain cur where cur: "map_of (m_SCM st0) ?V = Some cur"
    using r g by (cases "map_of (m_SCM st0) ?V") (simp_all add: resolveDRLEntry_def V t)
  let ?hd = "if scalarsInitialized cur
             then if length (scalarValues cur) < w then Inl OutOfBounds
                  else hasDummyLoad ?f (take w (scalarValues cur))
             else Inr False"
  obtain hd where hd: "?hd = Inr hd"
    using r g cur by (cases ?hd) (simp_all add: resolveDRLEntry_def V t)
  let ?mid = "if \<not> scalarsInitialized cur \<or> hd then
                (case bb_next ?f vi of
                   None \<Rightarrow> Inl NullDeref
                 | Some nx \<Rightarrow>
                     bindE (rescalarize ?f ?V ety (scalarsInitialized cur) (scalarValues cur)
                              [0..<w]
                              (if isPHINode ?f nx then getFirstNonPHI ?f nx else Some nx))
                       (\<lambda>(newInsts, f').
                          updateSCMEntryWithValues (st0\<lparr>m_currFunc := f'\<rparr>) ?V
                            (map Some newInsts) ?V False))
              else Inr st0"
  obtain stm where mid: "?mid = Inr stm"
    using r g cur hd by (cases ?mid) (simp_all add: resolveDRLEntry_def V t)
  from r g cur hd mid have fin:
    "(case map_of (m_SCM stm) ?V of
        None \<Rightarrow> Inl NullDeref
      | Some resolvedEntry \<Rightarrow>
          if length (dummyVals e) < w \<or> length (scalarValues resolvedEntry) < w
          then Inl OutOfBounds
          else bindE (connectDummies (m_currFunc stm)
                        (zip (take w (dummyVals e)) (scalarValues resolvedEntry)))
                 (\<lambda>f'. Inr (stm\<lparr>m_currFunc := f'\<rparr>))) = Inr st1"
    by (simp add: resolveDRLEntry_def V t)
  then obtain res f' where res: "map_of (m_SCM stm) ?V = Some res"
    and len: "w \<le> length (dummyVals e)" "w \<le> length (scalarValues res)"
    and con: "connectDummies (m_currFunc stm) (zip (take w (dummyVals e)) (scalarValues res)) =
                Inr f'"
    and st1: "st1 = stm\<lparr>m_currFunc := f'\<rparr>"
    by (auto simp: bindE_eq_Inr split: option.splits if_splits)
  from inv have inv0: "resolving D f0 ?f Ps" by (simp add: f0)
  from inv0 have J: "\<forall>d \<in> D. \<exists>i t. d = VInst i t \<and> i < next_id f0 \<and>
      isDummyValue ?f d \<noteq> Inr False" and fr: "freshIds ?f"
    unfolding resolving_def by blast+
  have m: "resolving D f0 (m_currFunc stm) Ps \<and> m_DRL stm = m_DRL st \<and>
      (\<forall>so \<in> set (take w (scalarValues res)). \<forall>s. so = Some s \<longrightarrow> s \<notin> D)"
  proof (cases "\<not> scalarsInitialized cur \<or> hd")
    case False
    with mid have stm: "stm = st0" by simp
    from False hd have "hasDummyLoad ?f (take w (scalarValues cur)) = Inr False"
      by (auto split: if_splits)
    from hasDummyLoad_False [OF this] J
    have "\<forall>so \<in> set (take w (scalarValues cur)). \<forall>s. so = Some s \<longrightarrow> s \<notin> D"
      by blast
    with inv0 res cur show ?thesis
      by (simp add: stm drl0)
  next
    case True
    with mid obtain nx where nx: "bb_next ?f vi = Some nx"
      by (cases "bb_next ?f vi") simp_all
    let ?loc = "if isPHINode ?f nx then getFirstNonPHI ?f nx else Some nx"
    from True mid nx obtain newInsts f1 where
      rs: "rescalarize ?f ?V ety (scalarsInitialized cur) (scalarValues cur) [0..<w] ?loc =
             Inr (newInsts, f1)"
      and u: "updateSCMEntryWithValues (st0\<lparr>m_currFunc := f1\<rparr>) ?V (map Some newInsts) ?V False =
             Inr stm"
      by (auto simp: bindE_eq_Inr)
    have vi: "vi \<in> set (all_insts ?f)"
      using bb_next_self_in_layout [OF nx] .
    have loc: "\<forall>l. ?loc = Some l \<longrightarrow> l < next_id ?f"
      using bb_next_in_layout [OF nx] getFirstNonPHI_in_layout [of ?f nx] fr
      by (auto simp: freshIds_def)
    from rescalarize_spec [OF rs inv0 vi loc]
    have a: "resolving D f0 f1 Ps" "length newInsts = w" "\<forall>s \<in> set newInsts. s \<notin> D"
      by simp_all
    have ts: "type_of ?V = VectorTy ety w" by simp
    from update_result [OF u ts] res have "scalarValues res = take w (map Some newInsts)"
      by simp
    with a(2,3) have "\<forall>so \<in> set (take w (scalarValues res)). \<forall>s. so = Some s \<longrightarrow> s \<notin> D"
      by auto
    with a(1) update_frame [OF u] drl0 show ?thesis
      by simp
  qed
  have pairs: "\<forall>(d, so) \<in> set (zip (take w (dummyVals e)) (scalarValues res)).
      d \<in> D \<and> (\<forall>s. so = Some s \<longrightarrow> s \<notin> D)"
  proof (clarify, intro conjI)
    fix d so assume z: "(d, so) \<in> set (zip (take w (dummyVals e)) (scalarValues res))"
    then have "d \<in> set (take w (dummyVals e))" by (rule set_zip_leftD)
    with sub ph show "d \<in> D" by auto
    from zip_take_lanes [of w "scalarValues res" "\<lambda>so. \<forall>s. so = Some s \<longrightarrow> s \<notin> D", OF _ _ z] m
    show "\<forall>s. so = Some s \<longrightarrow> s \<notin> D" by simp
  qed
  have rl: "resolvedLanes (m_SCM st1) e = zip (take w (dummyVals e)) (scalarValues res)"
    by (simp add: resolvedLanes_def V t st1 res ph)
  from len have "map fst (zip (take w (dummyVals e)) (scalarValues res)) = take w (dummyVals e)"
    by (simp add: map_fst_zip_take min_def)
  with connect_spec [OF con _ pairs, of f0 Ps] m show ?thesis
    unfolding rl ph by (simp add: st1)
qed


lemma entries_spec:
  assumes "resolveDRLEntries st es = Inr st'" and "resolving D f0 (m_currFunc st) Ps"
    and "\<forall>e \<in> set es. set (placeholders e) \<subseteq> D"
  shows "resolving D f0 (m_currFunc st') (Ps @ resolvedPairs st es) \<and>
         map fst (resolvedPairs st es) = concat (map placeholders es) \<and> m_DRL st' = m_DRL st"
  using assms
proof (induction es arbitrary: st Ps)
  case Nil
  then show ?case by simp
next
  case (Cons e es)
  from Cons.prems(1) obtain st1 where e: "resolveDRLEntry st e = Inr st1"
    and r: "resolveDRLEntries st1 es = Inr st'"
    by (auto split: sum.splits)
  from Cons.prems(3) have sub: "set (placeholders e) \<subseteq> D"
    and rest: "\<forall>e \<in> set es. set (placeholders e) \<subseteq> D" by simp_all
  note one = entry_spec [OF e Cons.prems(2) sub]
  from Cons.IH [OF r one [THEN conjunct1] rest] one e show ?case
    by simp
qed


lemma resolving_start:
  assumes fr: "freshIds f"
    and "\<forall>d \<in> D. isDummyValue f d = Inr True"
  shows "resolving D f f []"
proof -
  have "\<exists>i t. d = VInst i t \<and> i < next_id f \<and> isDummyValue f d \<noteq> Inr False" if "d \<in> D" for d
  proof -
    from assms(2) that have t: "isDummyValue f d = Inr True" by blast
    then obtain i t where d: "d = VInst i t" and "inst_of f i \<noteq> None"
      by (cases d) (auto simp: isDummyValue_def split: option.splits)
    with live_below_next_id [OF fr] t show ?thesis by auto
  qed
  moreover have "substitute [] = (\<lambda>v. v)"
    by (rule ext) (simp add: substitute_def)
  then have "ins\<lparr>operands := map (substitute []) (operands ins)\<rparr> = ins" for ins :: inst
    by simp
  ultimately show ?thesis
    unfolding resolving_def using fr by simp
qed

lemma isDummyValue_True:
  "isDummyValue f d = Inr True \<longleftrightarrow>
   (\<exists>i t ins pt. d = VInst i t \<and> inst_of f i = Some ins \<and> opcode ins = Load \<and>
      operands ins = [VNullPtr pt])"
  by (cases d)
     (auto simp: isDummyValue_def split: option.splits list.splits val.splits)

lemma steady_dummy:
  "steady f f' \<Longrightarrow> isDummyValue f d = Inr True \<Longrightarrow> isDummyValue f' d = Inr True"
  unfolding isDummyValue_True steady_def by fastforce

lemma steady_refl: "freshIds f \<Longrightarrow> steady f f"
  by (simp add: steady_def)

lemma steady_trans: "steady f g \<Longrightarrow> steady g h \<Longrightarrow> steady f h"
  unfolding steady_def by (auto; metis)

lemma advance_refl [simp]: "advance st st"
  by (simp add: advance_def steady_refl)

lemma placeholders_subset: "set (placeholders e) \<subseteq> set (dummyVals e)"
  by (auto simp: placeholders_def split: option.splits dest: in_set_takeD)

lemma advance_drlReady:
  assumes fr: "freshIds (m_currFunc st)" and e: "m_DRL st = []" and a: "advance st st'"
  shows "drlReady st'"
proof -
  from a fr e have s: "steady (m_currFunc st) (m_currFunc st')"
    and new: "\<forall>e \<in> set (m_DRL st'). \<forall>d \<in> set (dummyVals e).
                isDummyValue (m_currFunc st') d = Inr True"
    unfolding advance_def by auto
  with placeholders_subset show ?thesis
    unfolding drlReady_def by (auto simp: steady_def)
qed

lemma advance_trans:
  assumes "advance st s" and "advance s s'"
  shows "advance st s'"
proof (cases "freshIds (m_currFunc st)")
  case False
  then show ?thesis by (simp add: advance_def)
next
  case True
  with assms(1) obtain new where s: "steady (m_currFunc st) (m_currFunc s)"
    and drl: "m_DRL s = m_DRL st @ new"
    and new: "\<forall>e \<in> set new. \<forall>d \<in> set (dummyVals e).
                isDummyValue (m_currFunc s) d = Inr True"
    unfolding advance_def by blast
  from s have "freshIds (m_currFunc s)" by (simp add: steady_def)
  with assms(2) obtain new' where s': "steady (m_currFunc s) (m_currFunc s')"
    and drl': "m_DRL s' = m_DRL s @ new'"
    and new': "\<forall>e \<in> set new'. \<forall>d \<in> set (dummyVals e).
                isDummyValue (m_currFunc s') d = Inr True"
    unfolding advance_def by blast
  from new steady_dummy [OF s']
  have "\<forall>e \<in> set new. \<forall>d \<in> set (dummyVals e).
          isDummyValue (m_currFunc s') d = Inr True" by blast
  with new' have "\<forall>e \<in> set (new @ new'). \<forall>d \<in> set (dummyVals e).
          isDummyValue (m_currFunc s') d = Inr True" by auto
  moreover have "m_DRL s' = m_DRL st @ (new @ new')" by (simp add: drl drl')
  ultimately show ?thesis
    unfolding advance_def using steady_trans [OF s s'] by blast
qed

lemma advance_same:
  "advance st s \<Longrightarrow> m_currFunc s' = m_currFunc s \<Longrightarrow> m_DRL s' = m_DRL s \<Longrightarrow> advance st s'"
  by (simp add: advance_def)

lemma advance_func:
  assumes "advance st s" and "freshIds (m_currFunc s) \<Longrightarrow> steady (m_currFunc s) f'"
  shows "advance st (s\<lparr>m_currFunc := f'\<rparr>)"
proof (rule advance_trans [OF assms(1)])
  show "advance s (s\<lparr>m_currFunc := f'\<rparr>)"
    unfolding advance_def using assms(2) by (auto intro: exI [of _ "[]"])
qed

lemma steady_create_inst:
  assumes fr: "freshIds f" and c: "create_inst f x loc = (v, f')"
  shows "steady f f'" and "v = VInst (next_id f) (ity x)"
    and "inst_of f' (next_id f) = Some x"
proof -
  from c have v: "v = VInst (next_id f) (ity x)"
    and f': "f' = f\<lparr>insts := insts f @ [(next_id f, x)],
        blocks := (case loc of
                     None \<Rightarrow> blocks f
                   | Some l \<Rightarrow> map (\<lambda>(b, is). (b, ins_before (next_id f) l is)) (blocks f)),
        next_id := Suc (next_id f)\<rparr>"
    by (auto simp: create_inst_def)
  show "v = VInst (next_id f) (ity x)" by (rule v)
  from fr have nk: "next_id f \<notin> fst ` set (insts f)"
    by (force simp: freshIds_def)
  have io: "inst_of f' i = (if i = next_id f then Some x else inst_of f i)" for i
    unfolding f' inst_of_def using map_of_append_fresh [OF nk] by simp
  then show "inst_of f' (next_id f) = Some x" by simp
  have lay: "set (all_insts f') \<subseteq> insert (next_id f) (set (all_insts f))"
  proof (cases loc)
    case None
    then show ?thesis by (auto simp: f' all_insts_def)
  next
    case (Some l)
    show ?thesis
      using set_ins_before [of "next_id f" l]
      by (fastforce simp: f' Some all_insts_def)
  qed
  have nx: "next_id f' = Suc (next_id f)" and ins': "insts f' = insts f @ [(next_id f, x)]"
    by (simp_all add: f')
  have "i < next_id f'" if "i \<in> set (all_insts f')" for i
    using that lay fr unfolding nx freshIds_def by (auto simp: less_Suc_eq)
  moreover have "\<forall>(i, ins) \<in> set (insts f'). i < next_id f'"
    using fr unfolding nx ins' freshIds_def by (auto simp: less_Suc_eq)
  ultimately have "freshIds f'"
    unfolding freshIds_def by blast
  moreover have "inst_of f' i = Some ins" if "inst_of f i = Some ins" for i ins
    using that live_below_next_id [OF fr that] by (simp add: io)
  ultimately show "steady f f'"
    unfolding steady_def by simp
qed


lemma steady_fresh: "steady f f' \<Longrightarrow> freshIds f'"
  by (simp add: steady_def)

lemma steady_create_insts:
  "freshIds f \<Longrightarrow> create_insts f xs loc = (vs, f') \<Longrightarrow> steady f f'"
proof (induction xs arbitrary: f vs)
  case Nil
  then show ?case by (simp add: steady_refl)
next
  case (Cons x xs)
  obtain v f1 where c1: "create_inst f x loc = (v, f1)" by (cases "create_inst f x loc")
  from Cons.prems(2) c1 obtain vs1 where c2: "create_insts f1 xs loc = (vs1, f')"
    by (auto split: prod.splits)
  note s1 = steady_create_inst(1) [OF Cons.prems(1) c1]
  from steady_trans [OF s1 Cons.IH [OF steady_fresh [OF s1] c2]] show ?case .
qed

lemma create_insts_dummies:
  "freshIds f \<Longrightarrow> create_insts f (replicate w (mk_inst Load e [VNullPtr pt])) loc = (vs, f') \<Longrightarrow>
   \<forall>d \<in> set vs. isDummyValue f' d = Inr True"
proof (induction w arbitrary: f vs)
  case 0
  then show ?case by simp
next
  case (Suc w)
  let ?x = "mk_inst Load e [VNullPtr pt]"
  obtain v f1 where c1: "create_inst f ?x loc = (v, f1)" by (cases "create_inst f ?x loc")
  from Suc.prems(2) c1 obtain vs1 where c2: "create_insts f1 (replicate w ?x) loc = (vs1, f')"
    and vs: "vs = v # vs1"
    by (auto split: prod.splits)
  note s1 = steady_create_inst [OF Suc.prems(1) c1]
  have "isDummyValue f1 v = Inr True"
    unfolding isDummyValue_True using s1(2,3) by (simp add: mk_inst_def)
  from steady_dummy [OF steady_create_insts [OF steady_fresh [OF s1(1)] c2] this]
    Suc.IH [OF steady_fresh [OF s1(1)] c2]
  show ?case by (simp add: vs)
qed

lemma phisOK_steady: "steady f f' \<Longrightarrow> phisOK f phis \<Longrightarrow> phisOK f' phis"
  unfolding phisOK_def steady_def by (auto; metis)

lemma create_insts_phis:
  "freshIds f \<Longrightarrow> create_insts f (replicate w (mk_inst PHI t [])) loc = (vs, f') \<Longrightarrow>
   phisOK f' vs"
proof (induction w arbitrary: f vs)
  case 0
  then show ?case by (simp add: phisOK_def)
next
  case (Suc w)
  let ?x = "mk_inst PHI t []"
  obtain v f1 where c1: "create_inst f ?x loc = (v, f1)" by (cases "create_inst f ?x loc")
  from Suc.prems(2) c1 obtain vs1 where c2: "create_insts f1 (replicate w ?x) loc = (vs1, f')"
    and vs: "vs = v # vs1"
    by (auto split: prod.splits)
  note s1 = steady_create_inst [OF Suc.prems(1) c1]
  have "phisOK f1 [v]"
    unfolding phisOK_def using s1(2,3) by (simp add: mk_inst_def)
  from phisOK_steady [OF steady_create_insts [OF steady_fresh [OF s1(1)] c2] this]
    Suc.IH [OF steady_fresh [OF s1(1)] c2]
  show ?case by (simp add: vs phisOK_def)
qed

lemma steady_createSelects:
  "freshIds f \<Longrightarrow> createSelects f xs I = (vs, f') \<Longrightarrow> steady f f'"
proof (induction xs arbitrary: f vs)
  case Nil
  then show ?case by (simp add: steady_refl)
next
  case (Cons x xs)
  obtain c t e where x: "x = (c, t, e)" by (cases x)
  show ?case
  proof (cases "t = e")
    case True
    with Cons.prems(2) obtain vs1 where "createSelects f xs I = (vs1, f')"
      by (auto simp: x split: prod.splits)
    from Cons.IH [OF Cons.prems(1) this] show ?thesis .
  next
    case False
    obtain v f1 where c1: "create_inst f (mk_inst Select (type_of t) [c, t, e]) (Some I) = (v, f1)"
      by (cases "create_inst f (mk_inst Select (type_of t) [c, t, e]) (Some I)")
    with Cons.prems(2) False obtain vs1 where c2: "createSelects f1 xs I = (vs1, f')"
      by (auto simp: x split: prod.splits)
    note s1 = steady_create_inst(1) [OF Cons.prems(1) c1]
    from steady_trans [OF s1 Cons.IH [OF steady_fresh [OF s1] c2]] show ?thesis .
  qed
qed

lemma steady_createLaneLoads:
  "freshIds f \<Longrightarrow> createLaneLoads f b e ds I = (vs, f') \<Longrightarrow> steady f f'"
proof (induction ds arbitrary: f vs)
  case Nil
  then show ?case by (simp add: steady_refl)
next
  case (Cons d ds)
  obtain g f1 where c1: "create_inst f (mk_inst GetElementPtr (type_of b) [b, i32 d]) (Some I) = (g, f1)"
    by (cases "create_inst f (mk_inst GetElementPtr (type_of b) [b, i32 d]) (Some I)")
  obtain l f2 where c2: "create_inst f1 (mk_inst Load e [g]) (Some I) = (l, f2)"
    by (cases "create_inst f1 (mk_inst Load e [g]) (Some I)")
  from Cons.prems(2) c1 c2 obtain vs1 where c3: "createLaneLoads f2 b e ds I = (vs1, f')"
    by (auto split: prod.splits)
  note s1 = steady_create_inst(1) [OF Cons.prems(1) c1]
  note s2 = steady_create_inst(1) [OF steady_fresh [OF s1] c2]
  from steady_trans [OF s1 steady_trans [OF s2 Cons.IH [OF steady_fresh [OF s2] c3]]]
  show ?case .
qed

lemma steady_createLaneStores:
  "freshIds f \<Longrightarrow> steady f (createLaneStores f b xs I)"
proof (induction xs arbitrary: f)
  case Nil
  then show ?case by (simp add: steady_refl)
next
  case (Cons x xs)
  obtain d v where x: "x = (d, v)" by (cases x)
  obtain g f1 where c1: "create_inst f (mk_inst GetElementPtr (type_of b) [b, i32 d]) (Some I) = (g, f1)"
    by (cases "create_inst f (mk_inst GetElementPtr (type_of b) [b, i32 d]) (Some I)")
  obtain l f2 where c2: "create_inst f1 (mk_inst Store VoidTy [v, g]) (Some I) = (l, f2)"
    by (cases "create_inst f1 (mk_inst Store VoidTy [v, g]) (Some I)")
  note s1 = steady_create_inst(1) [OF Cons.prems(1) c1]
  note s2 = steady_create_inst(1) [OF steady_fresh [OF s1] c2]
  from steady_trans [OF s1 steady_trans [OF s2 Cons.IH [OF steady_fresh [OF s2]]]]
  show ?case by (simp add: x c1 c2)
qed

lemma steady_assemble:
  "freshIds f \<Longrightarrow> assemble f a xs loc = (v, f') \<Longrightarrow> steady f f'"
proof (induction xs arbitrary: f a)
  case Nil
  then show ?case by (simp add: steady_refl)
next
  case (Cons x xs)
  obtain i lane where x: "x = (i, lane)" by (cases x)
  obtain ie f1 where c1: "create_inst f (mk_inst InsertElement (type_of a) [a, lane, i32 i]) loc = (ie, f1)"
    by (cases "create_inst f (mk_inst InsertElement (type_of a) [a, lane, i32 i]) loc")
  with Cons.prems(2) have c2: "assemble f1 ie xs loc = (v, f')"
    by (simp add: x)
  note s1 = steady_create_inst(1) [OF Cons.prems(1) c1]
  from steady_trans [OF s1 Cons.IH [OF steady_fresh [OF s1] c2]] show ?case .
qed

lemma steady_replaceAllUsesWith:
  "freshIds f \<Longrightarrow> steady f (replaceAllUsesWith (VInst i t) new f)"
  unfolding steady_def replaceAllUsesWith_spec
  by (auto simp: freshIds_def replaceAllUsesWith_def all_insts_def redirect_def)

lemma addIncoming_spec2:
  "inst_of (addIncoming p v blk f) i =
     map_option (\<lambda>ins. if i = p then ins\<lparr>operands := operands ins @ [v],
                                          incoming := incoming ins @ [blk]\<rparr> else ins)
       (inst_of f i)"
proof -
  have "map_of (map (\<lambda>(i, ins). if i = p then (i, g ins) else (i, ins)) xs) i =
        map_option (\<lambda>ins. if i = p then g ins else ins) (map_of xs i)" for g and xs :: "(nat \<times> inst) list"
    by (induction xs) auto
  then show ?thesis
    by (simp add: addIncoming_def inst_of_def)
qed

lemma steady_addIncoming:
  assumes "freshIds f" and "\<exists>ins. inst_of f p = Some ins \<and> opcode ins = PHI"
  shows "steady f (addIncoming p v blk f)"
proof -
  have "freshIds (addIncoming p v blk f)"
    using assms(1) by (auto simp: freshIds_def addIncoming_def all_insts_def split: if_splits)
  with assms(2) show ?thesis
    unfolding steady_def addIncoming_spec2 by auto
qed

lemma steady_addIncomings:
  "freshIds f \<Longrightarrow> phisOK f (map fst xs) \<Longrightarrow> steady f (addIncomings xs blk f)"
proof (induction xs blk f rule: addIncomings.induct)
  case (1 blk f)
  then show ?case by (simp add: steady_refl)
next
  case (2 p t v rest blk f)
  from 2(3) have "\<exists>ins. inst_of f p = Some ins \<and> opcode ins = PHI"
    by (simp add: phisOK_def)
  note s1 = steady_addIncoming [OF 2(2) this, of v blk]
  from 2(3) have "phisOK f (map fst rest)" by (simp add: phisOK_def)
  from steady_trans [OF s1 2(1) [OF steady_fresh [OF s1] phisOK_steady [OF s1 this]]]
  show ?case by simp
qed (simp_all add: phisOK_def)


lemma frame_markRemoved [simp]:
  "m_currFunc (markRemoved I s) = m_currFunc s" "m_DRL (markRemoved I s) = m_DRL s"
  by (simp_all add: markRemoved_def)

lemma frame_recoverOperands [simp]:
  "m_currFunc (recoverOperands s ops) = m_currFunc s" "m_DRL (recoverOperands s ops) = m_DRL s"
  by (induction ops arbitrary: s) (auto simp: obtainVectorValueWhichMightBeScalarized_def)

lemma adv_markRemoved [simp]: "advance st0 (markRemoved I s) = advance st0 s"
  by (simp add: advance_def)

lemma adv_recoverOperands [simp]: "advance st0 (recoverOperands s ops) = advance st0 s"
  by (simp add: advance_def)

lemma adv_getSCMEntry: "advance st0 s \<Longrightarrow> keeps (advance st0) (getSCMEntry s v)"
  by (rule keepsI) (auto dest!: getSCMEntry_frame intro: advance_same)

lemma adv_update:
  "advance st0 s \<Longrightarrow> keeps (advance st0) (updateSCMEntryWithValues s k vals v r)"
  by (rule keepsI) (auto dest!: update_frame intro: advance_same)

lemma adv_create_inst:
  "create_inst f x loc = (v, f') \<Longrightarrow> advance st0 (s\<lparr>m_currFunc := f\<rparr>) \<Longrightarrow>
   advance st0 (s\<lparr>m_currFunc := f'\<rparr>)"
  using advance_func [of st0 "s\<lparr>m_currFunc := f\<rparr>" f'] steady_create_inst(1) [of f x loc v f']
  by simp

lemma adv_create_insts:
  "create_insts f xs loc = (vs, f') \<Longrightarrow> advance st0 (s\<lparr>m_currFunc := f\<rparr>) \<Longrightarrow>
   advance st0 (s\<lparr>m_currFunc := f'\<rparr>)"
  using advance_func [of st0 "s\<lparr>m_currFunc := f\<rparr>" f'] steady_create_insts [of f xs loc vs f']
  by simp

lemma adv_createSelects:
  "createSelects f xs I = (vs, f') \<Longrightarrow> advance st0 (s\<lparr>m_currFunc := f\<rparr>) \<Longrightarrow>
   advance st0 (s\<lparr>m_currFunc := f'\<rparr>)"
  using advance_func [of st0 "s\<lparr>m_currFunc := f\<rparr>" f'] steady_createSelects [of f xs I vs f']
  by simp

lemma adv_createLaneLoads:
  "createLaneLoads f b e ds I = (vs, f') \<Longrightarrow> advance st0 (s\<lparr>m_currFunc := f\<rparr>) \<Longrightarrow>
   advance st0 (s\<lparr>m_currFunc := f'\<rparr>)"
  using advance_func [of st0 "s\<lparr>m_currFunc := f\<rparr>" f'] steady_createLaneLoads [of f b e ds I vs f']
  by simp

lemma adv_createLaneStores:
  "advance st0 (s\<lparr>m_currFunc := f\<rparr>) \<Longrightarrow>
   advance st0 (s\<lparr>m_currFunc := createLaneStores f b xs I\<rparr>)"
  using advance_func [of st0 "s\<lparr>m_currFunc := f\<rparr>" "createLaneStores f b xs I"]
    steady_createLaneStores [of f b xs I]
  by simp

lemma adv_assemble:
  "assemble f a xs loc = (v, f') \<Longrightarrow> advance st0 (s\<lparr>m_currFunc := f\<rparr>) \<Longrightarrow>
   advance st0 (s\<lparr>m_currFunc := f'\<rparr>)"
  using advance_func [of st0 "s\<lparr>m_currFunc := f\<rparr>" f'] steady_assemble [of f a xs loc v f']
  by simp

lemma adv_RAUW:
  "RAUW (VInst i t) new f = Inr f' \<Longrightarrow> advance st0 (s\<lparr>m_currFunc := f\<rparr>) \<Longrightarrow>
   advance st0 (s\<lparr>m_currFunc := f'\<rparr>)"
  using advance_func [of st0 "s\<lparr>m_currFunc := f\<rparr>" f'] steady_replaceAllUsesWith [of f i t new]
  by (auto simp: RAUW_def split: if_splits)

lemma adv_self [simp]: "advance st0 (s\<lparr>m_currFunc := m_currFunc s\<rparr>) = advance st0 s"
  by simp

lemma adv_obtain:
  assumes a: "advance st0 s"
  shows "keeps (\<lambda>(ls, c, s'). advance st0 s') (obtainScalarizedValues s v)"
proof (rule keepsI, clarify)
  fix ls c s' assume r: "obtainScalarizedValues s v = Inr (ls, c, s')"
  then show "advance st0 s'"
  proof (cases rule: obtain_cases)
    case same
    with a show ?thesis by simp
  next
    case (placeholders e w f')
    have "advance s s'"
      unfolding advance_def placeholders(3)
      using steady_create_insts [OF _ placeholders(2)] create_insts_dummies [OF _ placeholders(2)]
      by (auto intro!: exI [of _ "[\<lparr>unresolvedInst = v, dummyVals = ls\<rparr>]"])
    with a show ?thesis by (rule advance_trans)
  next
    case (extracts e w first loc f' st1)
    from a have "advance st0 (s\<lparr>m_currFunc := m_currFunc s\<rparr>)" by simp
    from adv_create_insts [OF extracts(4) this]
    have "advance st0 (s\<lparr>m_currFunc := f'\<rparr>)" .
    from keepsD [OF adv_getSCMEntry [OF this] extracts(5)] have "advance st0 st1" .
    from keepsD [OF adv_update [OF this] extracts(6)] show ?thesis .
  qed
qed

lemma adv_bind_getSCMEntry:
  "advance st0 s \<Longrightarrow> (\<And>s1. advance st0 s1 \<Longrightarrow> keeps P (k s1)) \<Longrightarrow>
   keeps P (bindE (getSCMEntry s v) k)"
  by (rule keeps_bindE [OF adv_getSCMEntry])

lemma adv_bind_update:
  "advance st0 s \<Longrightarrow> (\<And>s1. advance st0 s1 \<Longrightarrow> keeps P (k s1)) \<Longrightarrow>
   keeps P (bindE (updateSCMEntryWithValues s u vals v r) k)"
  by (rule keeps_bindE [OF adv_update])

lemma adv_bind_obtain:
  "advance st0 s \<Longrightarrow> (\<And>ls c s1. advance st0 s1 \<Longrightarrow> keeps P (k (ls, c, s1))) \<Longrightarrow>
   keeps P (bindE (obtainScalarizedValues s v) k)"
  by (rule keeps_bindE [OF adv_obtain]) auto

lemma adv_recover:
  "advance st0 s \<Longrightarrow> keeps (advance st0) (recoverNonScalarizableInst s I ins)"
  unfolding recoverNonScalarizableInst_def
  by (auto simp: bindE_if intro!: adv_bind_getSCMEntry)

lemmas adv_intros = adv_bind_getSCMEntry adv_bind_update adv_bind_obtain adv_recover
  adv_update adv_getSCMEntry

lemma adv_create_inst0:
  "create_inst (m_currFunc s) x loc = (v, f') \<Longrightarrow> advance st0 s \<Longrightarrow>
   advance st0 (s\<lparr>m_currFunc := f'\<rparr>)"
  using adv_create_inst [of "m_currFunc s" x loc v f' st0 s] by simp

lemma adv_create_insts0:
  "create_insts (m_currFunc s) xs loc = (vs, f') \<Longrightarrow> advance st0 s \<Longrightarrow>
   advance st0 (s\<lparr>m_currFunc := f'\<rparr>)"
  using adv_create_insts [of "m_currFunc s" xs loc vs f' st0 s] by simp

lemma adv_createSelects0:
  "createSelects (m_currFunc s) xs I = (vs, f') \<Longrightarrow> advance st0 s \<Longrightarrow>
   advance st0 (s\<lparr>m_currFunc := f'\<rparr>)"
  using adv_createSelects [of "m_currFunc s" xs I vs f' st0 s] by simp

lemma adv_RAUW0:
  "RAUW (VInst i t) new (m_currFunc s) = Inr f' \<Longrightarrow> advance st0 s \<Longrightarrow>
   advance st0 (s\<lparr>m_currFunc := f'\<rparr>)"
  using adv_RAUW [of i t new "m_currFunc s" f' st0 s] by simp

lemma adv_assemble0:
  "assemble (m_currFunc s) a xs loc = (v, f') \<Longrightarrow> advance st0 s \<Longrightarrow>
   advance st0 (s\<lparr>m_currFunc := f'\<rparr>)"
  using adv_assemble [of "m_currFunc s" a xs loc v f' st0 s] by simp

lemmas adv_steps = adv_create_inst0 adv_create_insts0 adv_createSelects0 adv_createLaneLoads
  adv_createLaneStores

lemma adv_binary: "advance st0 s \<Longrightarrow> keeps (advance st0) (scalarizeBinaryOperator s I ins)"
  unfolding scalarizeBinaryOperator_def
  by (auto split: ty.split list.split prod.split simp: bindE_assoc bindE_if intro!: adv_intros)
     ((erule adv_steps | assumption)+)?

lemma adv_cmp: "advance st0 s \<Longrightarrow> keeps (advance st0) (scalarizeCmpInst s I ins)"
  unfolding scalarizeCmpInst_def
  by (auto split: ty.split list.split prod.split simp: bindE_assoc bindE_if intro!: adv_intros)
     ((erule adv_steps | assumption)+)?

lemma adv_cast: "advance st0 s \<Longrightarrow> keeps (advance st0) (scalarizeCastInst s I ins)"
  unfolding scalarizeCastInst_def
  by (auto split: ty.split list.split prod.split simp: bindE_assoc bindE_if intro!: adv_intros)
     ((erule adv_steps | assumption)+)?

lemma adv_select: "advance st0 s \<Longrightarrow> keeps (advance st0) (scalarizeSelectInst s I ins)"
  unfolding scalarizeSelectInst_def
  by (auto split: ty.split list.split prod.split simp: bindE_assoc bindE_if intro!: adv_intros)
     ((erule adv_steps | assumption)+)?

lemma adv_extract:
  "advance st0 s \<Longrightarrow> keeps (advance st0) (scalarizeExtractElementInst s I ins)"
  unfolding scalarizeExtractElementInst_def self_def
  by (auto split: ty.split list.split prod.split val.split simp: bindE_assoc bindE_if
      intro!: adv_intros keepsI [of "bindE (RAUW _ _ _) _"] elim!: adv_RAUW0
      simp: bindE_eq_Inr)

lemma adv_insert:
  "advance st0 s \<Longrightarrow> keeps (advance st0) (scalarizeInsertElementInst s I ins)"
  unfolding scalarizeInsertElementInst_def
  by (auto split: ty.split list.split prod.split val.split option.split
      simp: bindE_assoc bindE_if intro!: adv_intros)

lemma adv_shuffle:
  "advance st0 s \<Longrightarrow> keeps (advance st0) (scalarizeShuffleVectorInst s I ins)"
  unfolding scalarizeShuffleVectorInst_def
  by (auto split: ty.split list.split prod.split val.split option.split
      simp: bindE_assoc bindE_if intro!: adv_intros)

lemma adv_load: "advance st0 s \<Longrightarrow> keeps (advance st0) (scalarizeLoadInst s I ins)"
  unfolding scalarizeLoadInst_def
  by (auto split: ty.split list.split prod.split val.split option.split
      simp: bindE_assoc bindE_if intro!: adv_intros)
     ((erule adv_steps | assumption)+)?

lemma adv_store: "advance st0 s \<Longrightarrow> keeps (advance st0) (scalarizeStoreInst s I ins)"
  unfolding scalarizeStoreInst_def
  by (auto split: ty.split list.split prod.split val.split option.split
      simp: bindE_assoc bindE_if intro!: adv_intros)
     ((erule adv_steps | rule adv_createLaneStores | assumption)+)?


lemma adv_fresh: "freshIds (m_currFunc st0) \<Longrightarrow> advance st0 s \<Longrightarrow> freshIds (m_currFunc s)"
  by (simp add: advance_def steady_def)

lemma adv_steady:
  "freshIds (m_currFunc s) \<Longrightarrow> advance s s' \<Longrightarrow> steady (m_currFunc s) (m_currFunc s')"
  by (simp add: advance_def)

lemma phisOK_subset: "phisOK f phis \<Longrightarrow> set xs \<subseteq> set phis \<Longrightarrow> phisOK f xs"
  unfolding phisOK_def by blast

lemma adv_fillPHIs:
  "advance st0 s \<Longrightarrow> freshIds (m_currFunc s) \<Longrightarrow> phisOK (m_currFunc s) phis \<Longrightarrow>
   keeps (advance st0) (fillPHIs s phis n vs)"
proof (induction vs arbitrary: s)
  case Nil
  then show ?case by simp
next
  case (Cons a vs)
  obtain v blk where a: "a = (v, blk)" by (cases a)
  show ?case
  proof (rule keepsI)
    fix s' assume r: "fillPHIs s phis n (a # vs) = Inr s'"
    then obtain operand c s1 where
      o: "obtainScalarizedValues s v = Inr (operand, c, s1)"
      and rest: "fillPHIs (s1\<lparr>m_currFunc := addIncomings (zip phis operand) blk (m_currFunc s1)\<rparr>)
                   phis n vs = Inr s'"
      by (auto simp: a split: sum.splits if_splits)
    let ?f2 = "addIncomings (zip phis operand) blk (m_currFunc s1)"
    from keepsD [OF adv_obtain [OF Cons.prems(1)] o] have a1: "advance st0 s1" by simp
    from keepsD [OF adv_obtain [OF advance_refl] o] have "advance s s1" by simp
    from adv_steady [OF Cons.prems(2) this] have s1: "steady (m_currFunc s) (m_currFunc s1)" .
    note fr1 = steady_fresh [OF s1]
    note ok1 = phisOK_steady [OF s1 Cons.prems(3)]
    have "set (map fst (zip phis operand)) \<subseteq> set phis"
      by (auto dest: set_zip_leftD)
    from steady_addIncomings [OF fr1 phisOK_subset [OF ok1 this]]
    have s2: "steady (m_currFunc s1) ?f2" .
    from advance_func [OF a1 s2] have a2: "advance st0 (s1\<lparr>m_currFunc := ?f2\<rparr>)" .
    from keepsD [OF Cons.IH [OF a2] rest] steady_fresh [OF s2] phisOK_steady [OF s2 ok1]
    show "advance st0 s'" by simp
  qed
qed

lemma adv_phi:
  assumes a: "advance st0 s"
  shows "keeps (advance st0) (scalarizePHINode s I ins)"
proof (cases "freshIds (m_currFunc st0)")
  case False
  then show ?thesis by (auto intro!: keepsI simp: advance_def)
next
  case True
  note fr = adv_fresh [OF True a]
  show ?thesis
  proof (rule keepsI)
    fix s' assume r: "scalarizePHINode s I ins = Inr s'"
    show "advance st0 s'"
    proof (cases "\<exists>t n. ity ins = VectorTy t n \<and>
        \<not> (\<exists>Op \<in> set (operands ins). isVMESend (m_currFunc s) Op)")
      case False
      with r have "s' = s \<or> recoverNonScalarizableInst s I ins = Inr s'"
        by (auto simp: scalarizePHINode_def split: ty.splits if_splits)
      with a keepsD [OF adv_recover [OF a]] show ?thesis by auto
    next
      case True
      then obtain t n where ty: "ity ins = VectorTy t n"
        and nv: "\<not> (\<exists>Op \<in> set (operands ins). isVMESend (m_currFunc s) Op)" by blast
      obtain s0 where g: "getSCMEntry s (self I ins) = Inr s0"
        using r ty nv by (cases "getSCMEntry s (self I ins)")
          (auto simp: scalarizePHINode_def split: if_splits)
      obtain phis f' where c: "create_insts (m_currFunc s0) (replicate n (mk_inst PHI t []))
          (Some I) = (phis, f')"
        by (cases "create_insts (m_currFunc s0) (replicate n (mk_inst PHI t [])) (Some I)")
      from r ty nv g c obtain s1 s2 where
        fl: "fillPHIs (s0\<lparr>m_currFunc := f'\<rparr>) phis n (zip (operands ins) (incoming ins)) = Inr s1"
        and u: "updateSCMEntryWithValues s1 (self I ins) (map Some phis) (self I ins) True = Inr s2"
        and s': "s' = markRemoved I s2"
        by (auto simp: scalarizePHINode_def bindE_eq_Inr split: if_splits)
      from keepsD [OF adv_getSCMEntry [OF a] g] have a0: "advance st0 s0" .
      from getSCMEntry_frame [OF g] fr have fr0: "freshIds (m_currFunc s0)" by simp
      from adv_create_insts0 [OF c a0] have a1: "advance st0 (s0\<lparr>m_currFunc := f'\<rparr>)" .
      from keepsD [OF adv_fillPHIs [OF a1] fl]
        steady_fresh [OF steady_create_insts [OF fr0 c]] create_insts_phis [OF fr0 c]
      have "advance st0 s1" by simp
      from keepsD [OF adv_update [OF this] u] show ?thesis
        by (simp add: s')
    qed
  qed
qed

lemma adv_dispatch:
  "advance st0 s \<Longrightarrow> keeps (advance st0) (dispatchInstructionToScalarize s I)"
  unfolding dispatchInstructionToScalarize_def
  by (auto split: option.split opcode.split
      intro!: adv_binary adv_cmp adv_cast adv_phi adv_select adv_extract adv_insert
        adv_shuffle adv_load adv_store adv_recover)

lemma adv_traverse:
  "advance st0 s \<Longrightarrow> traverse fuel s cur = Some r \<Longrightarrow> keeps (advance st0) r"
proof (induction fuel s cur rule: traverse.induct)
  case (1 fuel st)
  then show ?case by auto
next
  case (2 st currInst)
  then show ?case by simp
next
  case (3 fuel st currInst)
  show ?case
  proof (cases "dispatchInstructionToScalarize st currInst")
    case (Inl e)
    with 3 show ?thesis by auto
  next
    case (Inr st1)
    from keepsD [OF adv_dispatch [OF "3.prems"(1)] Inr] have "advance st0 st1" .
    with 3 Inr show ?thesis by auto
  qed
qed

lemma adv_reassemble:
  assumes "advance st0 s" and "assemble (m_currFunc s) a xs loc = (x1, f1)"
    and "RAUW (VInst i t) x1 f1 = Inr f2" and "getSCMEntry (s\<lparr>m_currFunc := f2\<rparr>) k = Inr sb"
    and "updateSCMEntryWithValues sb k vals k' r = Inr x"
  shows "advance st0 x"
proof -
  from adv_RAUW [OF assms(3) adv_assemble0 [OF assms(2,1)]]
  have "advance st0 (s\<lparr>m_currFunc := f2\<rparr>)" .
  from keepsD [OF adv_getSCMEntry [OF this] assms(4)] have "advance st0 sb" .
  from keepsD [OF adv_update [OF this] assms(5)] show ?thesis .
qed

lemma adv_impl:
  "advance st0 s \<Longrightarrow> keeps (advance st0) (obtainVectorValueWhichMightBeScalarizedImpl s v)"
  unfolding obtainVectorValueWhichMightBeScalarizedImpl_def
  by (auto split: ty.split list.split prod.split val.split option.split
      simp: bindE_assoc bindE_if bindE_eq_Inr
      intro!: keeps_bind_lanes_of adv_intros keepsI [of "bindE (RAUW _ _ _) _"])
     (erule adv_reassemble, assumption+)+

lemma adv_resolveVectorValuesFrom:
  "advance st0 s \<Longrightarrow> keeps (advance st0) (resolveVectorValuesFrom s vs)"
proof (induction vs arbitrary: s)
  case Nil
  then show ?case by simp
next
  case (Cons v vs)
  show ?case
  proof (cases "obtainVectorValueWhichMightBeScalarizedImpl s v")
    case (Inl e)
    then show ?thesis by simp
  next
    case (Inr s1)
    from keepsD [OF adv_impl [OF Cons.prems] Inr] have "advance st0 s1" .
    from Cons.IH [OF this] Inr show ?thesis by simp
  qed
qed

lemma pipeline_drlReady:
  assumes "freshIds F" and "traverse fuel (initPass ldst dl F) cur = Some (Inr st0)"
    and "resolveVectorValues st0 = Inr st1"
  shows "drlReady st1"
proof -
  from adv_traverse [OF advance_refl assms(2)] have "advance (initPass ldst dl F) st0" by simp
  from keepsD [OF adv_resolveVectorValuesFrom [OF this]] assms(3)
  have "advance (initPass ldst dl F) st1"
    by (simp add: resolveVectorValues_def)
  from advance_drlReady [OF _ _ this] assms(1) show ?thesis
    by (simp add: initPass_def)
qed

lemma obtain_flag_keeps:
  "keeps (\<lambda>(ls, c, s'). c = isConstant v \<and> (isConstant v \<longrightarrow> s' = s))
     (obtainScalarizedValues s v)"
  unfolding obtainScalarizedValues_def Let_def
  by (auto split: ty.split option.split prod.split val.split simp: bindE_assoc bindE_if
      intro!: keeps_bind_lanes_of keeps_bind_getSCMEntry keeps_bind_update)

lemma obtain_flag:
  assumes "obtainScalarizedValues st v = Inr (ls, c, st')"
  shows "c = isConstant v" and "isConstant v \<Longrightarrow> st' = st"
  using keepsD [OF obtain_flag_keeps assms] by simp_all

lemma removedIs_func [simp]: "removedIs R (s\<lparr>m_currFunc := f\<rparr>) = removedIs R s"
  by (simp add: removedIs_def)

lemma removedIs_recoverOperands [simp]: "removedIs R (recoverOperands s ops) = removedIs R s"
  unfolding removedIs_def
  by (induction ops arbitrary: s) (auto simp: obtainVectorValueWhichMightBeScalarized_def)

lemma marksOnly_same: "removedIs R s \<Longrightarrow> marksOnly I R s"
  by (simp add: removedIs_def marksOnly_def)

lemma marksOnly_mark: "removedIs R s \<Longrightarrow> marksOnly I R (markRemoved I s)"
  by (simp add: removedIs_def marksOnly_def markRemoved_def)

lemma rem_getSCMEntry: "removedIs R s \<Longrightarrow> keeps (removedIs R) (getSCMEntry s v)"
  unfolding removedIs_def by (rule keepsI) (auto dest!: getSCMEntry_frame)

lemma rem_update:
  "removedIs R s \<Longrightarrow> keeps (removedIs R) (updateSCMEntryWithValues s k vals v r)"
  unfolding removedIs_def by (rule keepsI) (auto dest!: update_frame)

lemma rem_obtain:
  "removedIs R s \<Longrightarrow> keeps (\<lambda>(ls, c, s'). removedIs R s') (obtainScalarizedValues s v)"
  unfolding removedIs_def by (rule keepsI) (auto dest!: obtain_removed)

lemma rem_bind_getSCMEntry:
  "removedIs R s \<Longrightarrow> (\<And>s1. removedIs R s1 \<Longrightarrow> keeps P (k s1)) \<Longrightarrow>
   keeps P (bindE (getSCMEntry s v) k)"
  by (rule keeps_bindE [OF rem_getSCMEntry])

lemma rem_bind_update:
  "removedIs R s \<Longrightarrow> (\<And>s1. removedIs R s1 \<Longrightarrow> keeps P (k s1)) \<Longrightarrow>
   keeps P (bindE (updateSCMEntryWithValues s u vals v r) k)"
  by (rule keeps_bindE [OF rem_update])

lemma rem_bind_obtain:
  "removedIs R s \<Longrightarrow> (\<And>ls c s1. removedIs R s1 \<Longrightarrow> keeps P (k (ls, c, s1))) \<Longrightarrow>
   keeps P (bindE (obtainScalarizedValues s v) k)"
  by (rule keeps_bindE [OF rem_obtain]) auto

lemma rem_recover:
  "removedIs R s \<Longrightarrow> keeps (marksOnly I R) (recoverNonScalarizableInst s I' ins)"
  unfolding recoverNonScalarizableInst_def
  by (auto simp: bindE_if intro!: rem_bind_getSCMEntry marksOnly_same)

lemma rem_fillPHIs:
  "removedIs R s \<Longrightarrow> keeps (removedIs R) (fillPHIs s phis n vs)"
proof (induction vs arbitrary: s)
  case Nil
  then show ?case by simp
next
  case (Cons a vs)
  obtain v blk where a: "a = (v, blk)" by (cases a)
  show ?case
  proof (rule keepsI)
    fix s' assume r: "fillPHIs s phis n (a # vs) = Inr s'"
    then obtain operand c s1 where
      o: "obtainScalarizedValues s v = Inr (operand, c, s1)"
      and rest: "fillPHIs (s1\<lparr>m_currFunc := addIncomings (zip phis operand) blk (m_currFunc s1)\<rparr>)
                   phis n vs = Inr s'"
      by (auto simp: a split: sum.splits if_splits)
    from keepsD [OF rem_obtain [OF Cons.prems] o]
    have "removedIs R (s1\<lparr>m_currFunc := addIncomings (zip phis operand) blk (m_currFunc s1)\<rparr>)"
      by simp
    from keepsD [OF Cons.IH [OF this] rest] show "removedIs R s'" .
  qed
qed

lemma rem_bind_fillPHIs:
  "removedIs R s \<Longrightarrow> (\<And>s1. removedIs R s1 \<Longrightarrow> keeps P (k s1)) \<Longrightarrow>
   keeps P (bindE (fillPHIs s phis n vs) k)"
  by (rule keeps_bindE [OF rem_fillPHIs])

lemmas rem_intros = keeps_bind_lanes_of rem_bind_getSCMEntry rem_bind_update rem_bind_obtain
  rem_bind_fillPHIs rem_recover keeps_bind_RAUW marksOnly_same marksOnly_mark

lemma rem_binary: "removedIs R s \<Longrightarrow> keeps (marksOnly I R) (scalarizeBinaryOperator s I ins)"
  unfolding scalarizeBinaryOperator_def
  by (auto split: ty.split list.split prod.split simp: bindE_assoc bindE_if intro!: rem_intros)

lemma rem_cmp: "removedIs R s \<Longrightarrow> keeps (marksOnly I R) (scalarizeCmpInst s I ins)"
  unfolding scalarizeCmpInst_def
  by (auto split: ty.split list.split prod.split simp: bindE_assoc bindE_if intro!: rem_intros)

lemma rem_cast: "removedIs R s \<Longrightarrow> keeps (marksOnly I R) (scalarizeCastInst s I ins)"
  unfolding scalarizeCastInst_def
  by (auto split: ty.split list.split prod.split simp: bindE_assoc bindE_if intro!: rem_intros)

lemma rem_phi: "removedIs R s \<Longrightarrow> keeps (marksOnly I R) (scalarizePHINode s I ins)"
  unfolding scalarizePHINode_def
  by (auto split: ty.split list.split prod.split simp: bindE_assoc bindE_if intro!: rem_intros)

lemma rem_select: "removedIs R s \<Longrightarrow> keeps (marksOnly I R) (scalarizeSelectInst s I ins)"
  unfolding scalarizeSelectInst_def
  by (auto split: ty.split list.split prod.split simp: bindE_assoc bindE_if intro!: rem_intros)

lemma rem_extract: "removedIs R s \<Longrightarrow> keeps (marksOnly I R) (scalarizeExtractElementInst s I ins)"
  unfolding scalarizeExtractElementInst_def
  by (auto split: ty.split list.split prod.split val.split simp: bindE_assoc bindE_if intro!: rem_intros)

lemma rem_insert: "removedIs R s \<Longrightarrow> keeps (marksOnly I R) (scalarizeInsertElementInst s I ins)"
  unfolding scalarizeInsertElementInst_def
  by (auto split: ty.split list.split prod.split val.split option.split simp: bindE_assoc bindE_if intro!: rem_intros)

lemma rem_shuffle: "removedIs R s \<Longrightarrow> keeps (marksOnly I R) (scalarizeShuffleVectorInst s I ins)"
  unfolding scalarizeShuffleVectorInst_def
  by (auto split: ty.split list.split prod.split val.split option.split simp: bindE_assoc bindE_if intro!: rem_intros)

lemma rem_load: "removedIs R s \<Longrightarrow> keeps (marksOnly I R) (scalarizeLoadInst s I ins)"
  unfolding scalarizeLoadInst_def
  by (auto split: ty.split list.split prod.split val.split option.split simp: bindE_assoc bindE_if intro!: rem_intros)

lemma rem_store: "removedIs R s \<Longrightarrow> keeps (marksOnly I R) (scalarizeStoreInst s I ins)"
  unfolding scalarizeStoreInst_def
  by (auto split: ty.split list.split prod.split val.split option.split simp: bindE_assoc bindE_if intro!: rem_intros)

lemma rem_dispatch:
  "removedIs R s \<Longrightarrow> keeps (marksOnly I R) (dispatchInstructionToScalarize s I)"
  unfolding dispatchInstructionToScalarize_def
  by (auto split: option.split opcode.split
      intro!: rem_binary rem_cmp rem_cast rem_phi rem_select rem_extract rem_insert
        rem_shuffle rem_load rem_store rem_recover marksOnly_same)

lemma dispatch_marks_only:
  assumes "dispatchInstructionToScalarize s I = Inr s'"
  shows "m_removedInsts s' = m_removedInsts s \<or>
         m_removedInsts s' = set_insert I (m_removedInsts s)"
  using keepsD [OF rem_dispatch [of "m_removedInsts s" s I] assms]
  by (simp add: removedIs_def marksOnly_def)

lemma set_set_insert: "set (set_insert x xs) = insert x (set xs)"
  by (auto simp: set_insert_def)

lemma removed_traverse:
  "traverse fuel s cur = Some (Inr s') \<Longrightarrow> set (m_removedInsts s) \<subseteq> set (m_removedInsts s')"
proof (induction fuel s cur rule: traverse.induct)
  case (1 fuel st)
  then show ?case by auto
next
  case (2 st currInst)
  then show ?case by simp
next
  case (3 fuel st currInst)
  from "3.prems" obtain st1 where d: "dispatchInstructionToScalarize st currInst = Inr st1"
    and t: "traverse fuel st1 (inst_next (m_currFunc st) currInst) = Some (Inr s')"
    by (auto split: sum.splits)
  from dispatch_marks_only [OF d] have "set (m_removedInsts st) \<subseteq> set (m_removedInsts st1)"
    by (auto simp: set_set_insert)
  with "3.IH" [OF d t] show ?case by blast
qed


lemma intact_refl [simp]: "intact st st"
  by (simp add: intact_def)

lemma intact_recoverOperands [simp]: "intact st (recoverOperands s ops) = intact st s"
proof -
  have "m_removedInsts (recoverOperands s ops) = m_removedInsts s"
    using removedIs_recoverOperands [of "m_removedInsts s" s ops] by (simp add: removedIs_def)
  then show ?thesis by (simp add: intact_def)
qed

lemma intact_getSCMEntry: "getSCMEntry st v = Inr s \<Longrightarrow> intact st s"
  by (auto simp: getSCMEntry_def intact_def split: if_splits)

lemma mi_mark [simp]: "markedOrIntact I st (markRemoved I s)"
  by (simp add: markedOrIntact_def markRemoved_def set_set_insert)

lemma mi_intact: "intact st s \<Longrightarrow> markedOrIntact I st s"
  by (simp add: markedOrIntact_def)

lemma mi_bind_getSCMEntry:
  "(\<And>s1. intact st s1 \<Longrightarrow> keeps (markedOrIntact I st) (k s1)) \<Longrightarrow>
   keeps (markedOrIntact I st) (bindE (getSCMEntry st v) k)"
  by (cases "getSCMEntry st v") (auto dest: intact_getSCMEntry)

lemma mi_bind_obtain:
  assumes "\<And>ls. isConstant v \<Longrightarrow> keeps P (k (ls, True, s))"
    and "\<And>ls s1. \<not> isConstant v \<Longrightarrow> keeps P (k (ls, False, s1))"
  shows "keeps P (bindE (obtainScalarizedValues s v) k)"
proof (cases "obtainScalarizedValues s v")
  case (Inl e)
  then show ?thesis by simp
next
  case (Inr r)
  obtain ls c s1 where r: "r = (ls, c, s1)" by (cases r)
  from obtain_flag [OF Inr [unfolded r]] assms [of ls] show ?thesis
    by (cases "isConstant v") (simp_all add: Inr r)
qed

lemma keeps_bind_fillPHIs:
  "(\<And>x. keeps P (k x)) \<Longrightarrow> keeps P (bindE (fillPHIs s phis n vs) k)"
  by (rule keeps_bind_any)

lemma mi_recover: "keeps (markedOrIntact I st) (recoverNonScalarizableInst st I' ins)"
  unfolding recoverNonScalarizableInst_def
  by (auto simp: bindE_if intro!: mi_bind_getSCMEntry mi_intact)

lemmas mi_intros = keeps_bind_lanes_of mi_bind_getSCMEntry mi_bind_obtain keeps_bind_update
  keeps_bind_fillPHIs keeps_bind_RAUW mi_recover mi_intact

lemma mi_binary: "keeps (markedOrIntact I s) (scalarizeBinaryOperator s I ins)"
  unfolding scalarizeBinaryOperator_def
  by (auto split: ty.split list.split prod.split simp: bindE_assoc bindE_if intro!: mi_intros)

lemma mi_cmp: "keeps (markedOrIntact I s) (scalarizeCmpInst s I ins)"
  unfolding scalarizeCmpInst_def
  by (auto split: ty.split list.split prod.split simp: bindE_assoc bindE_if intro!: mi_intros)

lemma mi_cast: "keeps (markedOrIntact I s) (scalarizeCastInst s I ins)"
  unfolding scalarizeCastInst_def
  by (auto split: ty.split list.split prod.split simp: bindE_assoc bindE_if intro!: mi_intros)

lemma mi_phi: "keeps (markedOrIntact I s) (scalarizePHINode s I ins)"
  unfolding scalarizePHINode_def
  by (auto split: ty.split list.split prod.split simp: bindE_assoc bindE_if intro!: mi_intros)

lemma mi_select: "keeps (markedOrIntact I s) (scalarizeSelectInst s I ins)"
  unfolding scalarizeSelectInst_def
  by (auto split: ty.split list.split prod.split simp: bindE_assoc bindE_if intro!: mi_intros)

lemma mi_extract: "keeps (markedOrIntact I s) (scalarizeExtractElementInst s I ins)"
  unfolding scalarizeExtractElementInst_def
  by (auto split: ty.split list.split prod.split val.split simp: bindE_assoc bindE_if intro!: mi_intros)

lemma mi_insert: "keeps (markedOrIntact I s) (scalarizeInsertElementInst s I ins)"
  unfolding scalarizeInsertElementInst_def
  by (auto split: ty.split list.split prod.split val.split option.split simp: bindE_assoc bindE_if intro!: mi_intros)

lemma mi_shuffle: "keeps (markedOrIntact I s) (scalarizeShuffleVectorInst s I ins)"
  unfolding scalarizeShuffleVectorInst_def
  by (auto split: ty.split list.split prod.split val.split option.split simp: bindE_assoc bindE_if
      intro!: keeps_bind_getSCMEntry mi_bind_obtain keeps_bind_update)

lemma mi_load: "keeps (markedOrIntact I s) (scalarizeLoadInst s I ins)"
  unfolding scalarizeLoadInst_def
  by (auto split: ty.split list.split prod.split val.split option.split simp: bindE_assoc bindE_if intro!: mi_intros)

lemma mi_store: "keeps (markedOrIntact I s) (scalarizeStoreInst s I ins)"
  unfolding scalarizeStoreInst_def
  by (auto split: ty.split list.split prod.split val.split option.split simp: bindE_assoc bindE_if intro!: mi_intros)

lemma mi_dispatch: "keeps (markedOrIntact I s) (dispatchInstructionToScalarize s I)"
  unfolding dispatchInstructionToScalarize_def
  by (auto split: option.split opcode.split
      intro!: mi_binary mi_cmp mi_cast mi_phi mi_select mi_extract mi_insert
        mi_shuffle mi_load mi_store mi_recover mi_intact)

lemma filled_lanes:
  assumes f: "filled st v" and inv: "linv st" and ty: "type_of v = VectorTy e w"
  obtains en where "map_of (m_SCM st) v = Some en" "scalarsInitialized en"
    "length (scalarValues en) = w" "None \<notin> set (scalarValues en)"
    "obtainScalarizedValues st v = Inr (map the (scalarValues en), isConstant v, st)"
proof -
  from f obtain en where en: "map_of (m_SCM st) v = Some en" and ini: "scalarsInitialized en"
    by (auto simp: filled_def split: option.splits)
  from en have "(v, en) \<in> set (m_SCM st)" by (auto dest: map_of_SomeD)
  with inv ini ty have l: "length (scalarValues en) = w" "None \<notin> set (scalarValues en)"
    by (auto simp: laneInvariant_def)
  then have "lanes_of (scalarValues en) w = Inr (map the (scalarValues en))"
    by (simp add: lanes_of_def)
  with en ini ty have "obtainScalarizedValues st v = Inr (map the (scalarValues en), isConstant v, st)"
    by (simp add: obtainScalarizedValues_def getScalarizedValues_def)
  with en ini l show ?thesis by (rule that)
qed

lemma obtain_total:
  assumes ty: "type_of v = VectorTy e w" and inv: "linv st"
    and b: "inst_begin (m_currFunc st) \<noteq> None"
    and nx: "case v of
               VInst i t \<Rightarrow> map_of (m_SCM st) v \<noteq> None \<longrightarrow> bb_next (m_currFunc st) i \<noteq> None
             | _ \<Rightarrow> True"
  shows "\<exists>ls c st'. obtainScalarizedValues st v = Inr (ls, c, st')"
proof (cases "filled st v")
  case True
  from filled_lanes [OF True inv ty] show ?thesis by metis
next
  case nf: False
  then have nf': "\<not> (case getScalarizedValues st v of Some en \<Rightarrow> scalarsInitialized en | None \<Rightarrow> False)"
    by (simp add: filled_def getScalarizedValues_def)
  show ?thesis
  proof (cases "isUndefValue v \<or> isConstant v \<or> (isInstruction v \<and> getScalarizedValues st v = None)")
    case True
    with ty nf' show ?thesis
      by (auto simp: obtainScalarizedValues_def Let_def split: prod.splits)
  next
    case False
    from b obtain first where first: "inst_begin (m_currFunc st) = Some first" by auto
    let ?L = "case v of
          VInst i t \<Rightarrow>
            (case bb_next (m_currFunc st) i of
               None \<Rightarrow> Inl NullDeref
             | Some nx \<Rightarrow>
                 Inr (if isPHINode (m_currFunc st) nx
                      then getFirstNonPHI (m_currFunc st) nx else Some nx))
        | _ \<Rightarrow> Inr (Some first)"
    have "\<exists>loc. ?L = Inr loc"
    proof (cases v)
      case (VInst i t)
      with False have "map_of (m_SCM st) v \<noteq> None"
        by (simp add: getScalarizedValues_def)
      with nx VInst obtain n where "bb_next (m_currFunc st) i = Some n" by auto
      with VInst show ?thesis by simp
    qed simp_all
    then obtain loc where loc: "?L = Inr loc" ..
    obtain xs f' where cr: "create_insts (m_currFunc st)
                   (map (\<lambda>i. mk_inst ExtractElement e [v, i32 i]) [0..<w]) loc = (xs, f')"
      by (cases "create_insts (m_currFunc st)
                   (map (\<lambda>i. mk_inst ExtractElement e [v, i32 i]) [0..<w]) loc")
    from create_insts_lengthD [OF cr] have len: "length xs = w" by simp
    from False have "\<exists>st1. getSCMEntry (st\<lparr>m_currFunc := f'\<rparr>) v = Inr st1"
      by (simp add: getSCMEntry_def)
    then obtain st1 where g: "getSCMEntry (st\<lparr>m_currFunc := f'\<rparr>) v = Inr st1" ..
    from getSCMEntry_frame [OF g] obtain old where old: "map_of (m_SCM st1) v = Some old"
      by auto
    from ty old len obtain st2 where
      u: "updateSCMEntryWithValues st1 v (map Some xs) v False = Inr st2"
      by (auto simp: updateSCMEntryWithValues_def dest: in_set_takeD)
    from ty nf' False first loc cr g u show ?thesis
      by (auto simp: obtainScalarizedValues_def Let_def)
  qed
qed

lemma obtain_emitting_cases:
  assumes r: "obtainScalarizedValues st v = Inr (ls, c, st')"
    and nf: "\<not> filled st v" and nc: "\<not> isConstant v"
  obtains (placeholders) e w f' where "type_of v = VectorTy e w"
      "create_insts (m_currFunc st)
         (replicate w (mk_inst Load e [VNullPtr (PointerTy e 0)])) None = (ls, f')"
      "st' = st\<lparr>m_currFunc := f',
                m_DRL := m_DRL st @ [\<lparr>unresolvedInst = v, dummyVals = ls\<rparr>]\<rparr>"
      "isInstruction v" "map_of (m_SCM st) v = None"
  | (extracts) e w first loc f' st1 where "type_of v = VectorTy e w"
      "inst_begin (m_currFunc st) = Some first"
      "(case v of
          VInst i t \<Rightarrow>
            (case bb_next (m_currFunc st) i of
               None \<Rightarrow> Inl NullDeref
             | Some nx \<Rightarrow>
                 Inr (if isPHINode (m_currFunc st) nx
                      then getFirstNonPHI (m_currFunc st) nx else Some nx))
        | _ \<Rightarrow> Inr (Some first)) = Inr loc"
      "create_insts (m_currFunc st)
         (map (\<lambda>i. mk_inst ExtractElement e [v, i32 i]) [0..<w]) loc = (ls, f')"
      "getSCMEntry (st\<lparr>m_currFunc := f'\<rparr>) v = Inr st1"
      "updateSCMEntryWithValues st1 v (map Some ls) v False = Inr st'"
      "\<not> (isInstruction v \<and> map_of (m_SCM st) v = None)"
proof -
  from r obtain e w where ty: "type_of v = VectorTy e w"
    by (cases "type_of v") (auto simp: obtainScalarizedValues_def)
  let ?filled = "case getScalarizedValues st v of Some en \<Rightarrow> scalarsInitialized en | None \<Rightarrow> False"
  from nc have nu: "\<not> isUndefValue v" by (cases v) auto
  from nf nu nc have False: "\<not> (?filled \<or> isUndefValue v \<or> isConstant v)"
    by (simp add: filled_def getScalarizedValues_def)
  show ?thesis
  proof (cases "isInstruction v \<and> getScalarizedValues st v = None")
    case True
    obtain ds f' where c: "create_insts (m_currFunc st)
       (replicate w (mk_inst Load e [VNullPtr (PointerTy e 0)])) None = (ds, f')"
      by (cases "create_insts (m_currFunc st)
       (replicate w (mk_inst Load e [VNullPtr (PointerTy e 0)])) None")
    with r ty False True have "ls = ds"
      "st' = st\<lparr>m_currFunc := f',
              m_DRL := m_DRL st @ [\<lparr>unresolvedInst = v, dummyVals = ds\<rparr>]\<rparr>"
      by (auto simp: obtainScalarizedValues_def Let_def)
    with c ty True show ?thesis
      by (intro placeholders [of e w f']) (auto simp: getScalarizedValues_def)
  next
    case nd: False
    from r ty False nd obtain first where b: "inst_begin (m_currFunc st) = Some first"
      by (cases "inst_begin (m_currFunc st)")
         (auto simp: obtainScalarizedValues_def Let_def)
    let ?L = "case v of
        VInst i t \<Rightarrow>
          (case bb_next (m_currFunc st) i of
             None \<Rightarrow> Inl NullDeref
           | Some nx \<Rightarrow>
               Inr (if isPHINode (m_currFunc st) nx
                    then getFirstNonPHI (m_currFunc st) nx else Some nx))
      | _ \<Rightarrow> Inr (Some first)"
    from r ty False nd b obtain loc where l: "?L = Inr loc"
      and h: "(case create_insts (m_currFunc st)
                 (map (\<lambda>i. mk_inst ExtractElement e [v, i32 i]) [0..<w]) loc of
                (extracts, f') \<Rightarrow>
                  bindE (getSCMEntry (st\<lparr>m_currFunc := f'\<rparr>) v) (\<lambda>st1.
                  bindE (updateSCMEntryWithValues st1 v (map Some extracts) v False) (\<lambda>st2.
                  Inr (extracts, isConstant v, st2)))) = Inr (ls, c, st')"
      by (cases ?L) (auto simp: obtainScalarizedValues_def Let_def)
    obtain xs f' where cr: "create_insts (m_currFunc st)
                 (map (\<lambda>i. mk_inst ExtractElement e [v, i32 i]) [0..<w]) loc = (xs, f')"
      by (cases "create_insts (m_currFunc st)
                 (map (\<lambda>i. mk_inst ExtractElement e [v, i32 i]) [0..<w]) loc")
    from h obtain st1 where "getSCMEntry (st\<lparr>m_currFunc := f'\<rparr>) v = Inr st1"
      "updateSCMEntryWithValues st1 v (map Some xs) v False = Inr st'" "ls = xs"
      unfolding cr by (auto simp: bindE_eq_Inr)
    with ty b l cr nd show ?thesis
      by (intro extracts [of e w first loc f' st1]) (auto simp: getScalarizedValues_def)
  qed
qed

lemma obtain_emits:
  assumes r: "obtainScalarizedValues st v = Inr (ls, c, st1)" and ty: "type_of v = VectorTy e w"
    and fr: "freshIds (m_currFunc st)" and nf: "\<not> filled st v" and nc: "\<not> isConstant v"
  shows "next_id (m_currFunc st1) = next_id (m_currFunc st) + w \<and>
         (\<forall>i. inst_of (m_currFunc st1) i =
                (if next_id (m_currFunc st) \<le> i \<and> i < next_id (m_currFunc st) + w
                 then Some (laneInst st v e (i - next_id (m_currFunc st)))
                 else inst_of (m_currFunc st) i)) \<and>
         ls = map (\<lambda>j. VInst (next_id (m_currFunc st) + j) e) [0..<w]"
  using r nf nc
proof (cases rule: obtain_emitting_cases)
  case (placeholders e' w' f')
  with ty have [simp]: "e' = e" "w' = w" by simp_all
  from create_insts_spec [OF fr _ placeholders(2)] placeholders(3,4,5)
  show ?thesis
    by (auto simp: laneInst_def mk_inst_def)
next
  case (extracts e' w' first loc f' st2)
  with ty have [simp]: "e' = e" "w' = w" by simp_all
  from extract_location [OF fr extracts(2,3)] fr
  have l: "\<forall>l. loc = Some l \<longrightarrow> l < next_id (m_currFunc st)"
    by (auto simp: freshIds_def)
  from getSCMEntry_frame [OF extracts(5)] update_frame [OF extracts(6)]
  have f: "m_currFunc st1 = f'" by simp
  from create_insts_spec [OF fr l extracts(4)] extracts(7) f
  show ?thesis
    by (auto simp: laneInst_def mk_inst_def)
qed

text \<open>
  What \<open>sourceReady\<close> asks of the lane is not kept by the traversal. On \<open>selfExtract\<close> the
  traversal dispatches the instructions 0 to 4 and then meets the \<^verbatim>\<open>extractelement\<close> 10
  that the pass has created itself; the SCM entry of its source holds 10 as the lane 0,
  and the dispatch replaces the instruction by itself, which LLVM asserts against.
\<close>

lemma extractelement_self_replacement:
  "wellFormed selfExtract \<and> freshIds selfExtract \<and>
   (case bindE (bindE (bindE (bindE
            (dispatchInstructionToScalarize (initPass False dl0 selfExtract) 0)
            (\<lambda>s. dispatchInstructionToScalarize s 1))
            (\<lambda>s. dispatchInstructionToScalarize s 2))
            (\<lambda>s. dispatchInstructionToScalarize s 3))
            (\<lambda>s. dispatchInstructionToScalarize s 4) of
      Inl err \<Rightarrow> False
    | Inr st \<Rightarrow>
        all_insts (m_currFunc st) = [8, 9, 0, 1, 2, 6, 7, 3, 4, 10, 11, 5] \<and>
        inst_of (m_currFunc st) 10 =
          Some (mk_inst ExtractElement (IntTy 32) [VInst 2 v2i32, i32 0]) \<and>
        map_of (m_SCM st) (VInst 2 v2i32) =
          Some \<lparr>scalarValues = [Some (VInst 10 (IntTy 32)), Some (VInst 11 (IntTy 32))],
                isOriginalVectorRemoved = False\<rparr> \<and>
        \<not> sourceReady st 10 (mk_inst ExtractElement (IntTy 32) [VInst 2 v2i32, i32 0])
            (VInst 2 v2i32) 0 \<and>
        dispatchInstructionToScalarize st 10 = Inl AssertFailed) \<and>
   runOnFunction 12 False False dl0 selfExtract = Some (Inl AssertFailed)"
  apply (intro conjI)
  subgoal by (simp add: selfExtract_def wellFormed_def all_insts_def inst_of_def mk_inst_def)
  subgoal by (simp add: selfExtract_def freshIds_def all_insts_def)
  subgoal by (simp add: selfExtract_def eval_defs sourceReady_def scalarsInitialized_def self_def)
  subgoal by (simp add: selfExtract_def eval_defs)
  done

section \<open>The claims\<close>

text \<open>
  C2. The lane invariant of the SCM (a filled entry has as many lanes as the vector type
  of its owner has elements, and no lane is null) is kept by every operation that writes
  an SCM entry: \<^verbatim>\<open>getSCMEntry\<close> and \<^verbatim>\<open>updateSCMEntryWithValues\<close> themselves, the
  second of which leaves the entry it writes filled, of the owner's width and free of
  null lanes, and so every phase of the pass built from them, namely the dispatch of an
  instruction, the traversal, the reassembly and the resolution of the deferred
  references.
\<close>

theorem lane_invariant_preserved:
  "laneInvariant (m_SCM st) \<Longrightarrow>
     (getSCMEntry st v = Inr st' \<longrightarrow> laneInvariant (m_SCM st')) \<and>
     (updateSCMEntryWithValues st v vals v r = Inr st' \<longrightarrow>
        laneInvariant (m_SCM st') \<and>
        (\<exists>en. map_of (m_SCM st') v = Some en \<and>
              vectorWidth (type_of v) = Some (length (scalarValues en)) \<and>
              None \<notin> set (scalarValues en) \<and> isOriginalVectorRemoved en = r)) \<and>
     (dispatchInstructionToScalarize st I = Inr st' \<longrightarrow> laneInvariant (m_SCM st')) \<and>
     (traverse fuel st cur = Some (Inr st') \<longrightarrow> laneInvariant (m_SCM st')) \<and>
     (resolveVectorValues st = Inr st' \<longrightarrow> laneInvariant (m_SCM st')) \<and>
     (resolveDeferredInstructions st = Inr st' \<longrightarrow> laneInvariant (m_SCM st'))"
proof (intro conjI impI)
  assume inv: "laneInvariant (m_SCM st)"
  show "laneInvariant (m_SCM st')" if "getSCMEntry st v = Inr st'"
    using laneInvariant_getSCMEntry [OF inv that] .
  show "laneInvariant (m_SCM st')" if "updateSCMEntryWithValues st v vals v r = Inr st'"
    using laneInvariant_update [OF inv that] by simp
  show "\<exists>en. map_of (m_SCM st') v = Some en \<and>
          vectorWidth (type_of v) = Some (length (scalarValues en)) \<and>
          None \<notin> set (scalarValues en) \<and> isOriginalVectorRemoved en = r"
    if "updateSCMEntryWithValues st v vals v r = Inr st'"
    using laneInvariant_update [OF inv that] by simp
  show "laneInvariant (m_SCM st')" if "dispatchInstructionToScalarize st I = Inr st'"
    using keepsD [OF linv_dispatch [OF inv] that] .
  show "laneInvariant (m_SCM st')" if "traverse fuel st cur = Some (Inr st')"
    using linv_traverse [OF inv that] by simp
  show "laneInvariant (m_SCM st')" if "resolveVectorValues st = Inr st'"
    using keepsD [OF linv_resolveVectorValuesFrom [OF inv]] that
    by (simp add: resolveVectorValues_def)
  show "laneInvariant (m_SCM st')" if "resolveDeferredInstructions st = Inr st'"
    using keepsD [OF linv_resolveDeferred [OF inv] that] .
qed

theorem lane_invariant_preserved_witness:
  "laneInvariant (m_SCM constLanesState) \<and>
   (case dispatchInstructionToScalarize constLanesState 2 of
      Inl err \<Rightarrow> False
    | Inr st' \<Rightarrow> m_SCM st' \<noteq> m_SCM constLanesState \<and> laneInvariant (m_SCM st'))"
proof -
  have h: "laneInvariant (m_SCM constLanesState)"
    by (simp add: constLanesState_def laneInvariant_def scalarsInitialized_def v2i32_def)
  obtain st' where d: "dispatchInstructionToScalarize constLanesState 2 = Inr st'"
    and ne: "m_SCM st' \<noteq> m_SCM constLanesState"
    by (simp add: constLanes_def constLanesState_def eval_defs)
  from lane_invariant_preserved [OF h, of _ st' _ _ 2] d have "laneInvariant (m_SCM st')"
    by simp
  with h d ne show ?thesis by simp
qed

text \<open>
  C1, as the code has it. \<^verbatim>\<open>runOnFunction\<close> keeps no record of what it changes:
  it returns false, with the function untouched, when it skips the function (a
  declaration or, under forced inlining, a function whose return type is not void), and
  true for every function it processes, modified or not. In particular a run on a
  well-formed function with no vector instruction ends within as many steps as the
  function has instructions, returns true and leaves the function as it was.
\<close>

theorem runOnFunction_changed_flag:
  "(skipped forceInline F \<longrightarrow>
      runOnFunction fuel forceInline ldst dl F = Some (Inr (False, F))) \<and>
   (\<not> skipped forceInline F \<and>
      runOnFunction fuel forceInline ldst dl F = Some (Inr (changed, F')) \<longrightarrow> changed) \<and>
   (\<not> skipped forceInline F \<and> wellFormed F \<and> noVectors F \<and> length (all_insts F) \<le> fuel \<longrightarrow>
      runOnFunction fuel forceInline ldst dl F = Some (Inr (True, F)))"
  using run_skipped [of forceInline F fuel ldst dl]
    run_not_skipped [of forceInline F fuel ldst dl changed F']
    run_no_vectors_skipped [of F forceInline fuel ldst dl]
  by blast

theorem runOnFunction_changed_flag_witness:
  "skipped False declOnly \<and>
   runOnFunction 0 False False dl0 declOnly = Some (Inr (False, declOnly)) \<and>
   \<not> skipped False scalarAdd \<and> wellFormed scalarAdd \<and> noVectors scalarAdd \<and>
   length (all_insts scalarAdd) \<le> 2 \<and>
   runOnFunction 2 False False dl0 scalarAdd = Some (Inr (True, scalarAdd))"
proof -
  have a: "skipped False declOnly"
    by (simp add: skipped_def declOnly_def)
  have b: "\<not> skipped False scalarAdd"
    by (simp add: skipped_def scalarAdd_def)
  have c: "wellFormed scalarAdd"
    by (simp add: wellFormed_def scalarAdd_def all_insts_def inst_of_def mk_inst_def)
  have d: "noVectors scalarAdd"
    by (simp add: noVectors_def scalarAdd_def mk_inst_def)
  have e: "length (all_insts scalarAdd) \<le> 2"
    by (simp add: scalarAdd_def all_insts_def)
  from runOnFunction_changed_flag [of False declOnly 0 False dl0] a
  have "runOnFunction 0 False False dl0 declOnly = Some (Inr (False, declOnly))" by simp
  moreover from runOnFunction_changed_flag [of False scalarAdd 2 False dl0] b c d e
  have "runOnFunction 2 False False dl0 scalarAdd = Some (Inr (True, scalarAdd))" by simp
  ultimately show ?thesis using a b c d e by simp
qed

text \<open>
  C1 as stated fails: on the function that is one \<^verbatim>\<open>ret void\<close> the pass returns true
  and the function it returns is the function it was given.
\<close>

theorem runOnFunction_true_on_unmodified:
  "runOnFunction 1 False False dl0 retOnly = Some (Inr (True, retOnly))"
  by (simp add: retOnly_def eval_defs)

text \<open>
  C6, as the code has it. The short-circuit tests the operands, not their lanes: when
  both operands of a vector binary instruction are constants (\<^verbatim>\<open>isa<Constant>\<close>: a
  constant vector or undef), the dispatch returns with the function, the removed set and
  the DRL as they were, so no instruction is created and the instruction stays.
\<close>

theorem binary_constant_operands_no_new_instruction:
  assumes "inst_of (m_currFunc st) I = Some BI" and "opcode BI = Binary b"
    and "operands BI = [x, y]" and "isConstant x" and "isConstant y"
    and "ity BI = VectorTy e n" and "type_of x = ity BI" and "type_of y = ity BI"
    and "I \<notin> set (m_removedInsts st)" and "laneInvariant (m_SCM st)"
  shows "\<exists>st'. dispatchInstructionToScalarize st I = Inr st' \<and>
           m_currFunc st' = m_currFunc st \<and> m_removedInsts st' = m_removedInsts st \<and>
           m_DRL st' = m_DRL st \<and> m_usedVectors st' = m_usedVectors st"
proof -
  obtain st0 where g: "getSCMEntry st (self I BI) = Inr st0"
    and same: "m_currFunc st0 = m_currFunc st" "m_removedInsts st0 = m_removedInsts st"
      "m_DRL st0 = m_DRL st" "m_usedVectors st0 = m_usedVectors st"
    by (cases "map_of (m_SCM st) (self I BI) = None") (auto simp: getSCMEntry_def self_def)
  from laneInvariant_getSCMEntry [OF assms(10) g] have inv0: "linv st0" .
  from obtain_constant [OF assms(4) _ inv0] assms(6,7)
  obtain ls0 where o0: "obtainScalarizedValues st0 x = Inr (ls0, True, st0)" by auto
  from obtain_constant [OF assms(5) _ inv0] assms(6,8)
  obtain ls1 where o1: "obtainScalarizedValues st0 y = Inr (ls1, True, st0)" by auto
  have "dispatchInstructionToScalarize st I = Inr st0"
    using assms(1,2,3,6,9) g o0 o1
    by (simp add: dispatchInstructionToScalarize_def scalarizeBinaryOperator_def)
  with same show ?thesis by simp
qed

theorem binary_constant_operands_no_new_instruction_witness:
  "inst_of constAdd 0 = Some (mk_inst (Binary Add) v2i32 [VConst 7 v2i32, VUndef v2i32]) \<and>
   isConstant (VConst 7 v2i32) \<and> isConstant (VUndef v2i32) \<and>
   laneInvariant (m_SCM (initPass False dl0 constAdd)) \<and>
   (case dispatchInstructionToScalarize (initPass False dl0 constAdd) 0 of
      Inl err \<Rightarrow> False
    | Inr st' \<Rightarrow> m_currFunc st' = constAdd \<and> m_removedInsts st' = [])"
proof -
  let ?BI = "mk_inst (Binary Add) v2i32 [VConst 7 v2i32, VUndef v2i32]"
  let ?st = "initPass False dl0 constAdd"
  have a: "inst_of (m_currFunc ?st) 0 = Some ?BI"
    by (simp add: initPass_def constAdd_def inst_of_def)
  have i: "laneInvariant (m_SCM ?st)"
    by (simp add: initPass_def laneInvariant_def)
  from binary_constant_operands_no_new_instruction [of ?st 0 ?BI Add "VConst 7 v2i32"
      "VUndef v2i32" "IntTy 32" 2, OF a _ _ _ _ _ _ _ _ i]
  obtain st' where "dispatchInstructionToScalarize ?st 0 = Inr st'"
    and "m_currFunc st' = m_currFunc ?st" and "m_removedInsts st' = m_removedInsts ?st"
    by (auto simp: mk_inst_def v2i32_def initPass_def)
  with a i show ?thesis
    by (simp add: initPass_def)
qed

text \<open>
  C6 as stated fails. In \<open>constLanes\<close> both operands of the \<^verbatim>\<open>add\<close> are the
  instruction \<^verbatim>\<open>%1\<close>, whose decomposition is the constant lanes 1 and 2: the state
  \<open>constLanesState\<close> is the one the pass is in after the two \<^verbatim>\<open>insertelement\<close>
  instructions, the lanes it hands out for \<^verbatim>\<open>%1\<close> are constants, and the dispatch of
  the \<^verbatim>\<open>add\<close> puts the two new instructions 5 and 6 before it.
\<close>

theorem binary_constant_lanes_counterexample:
  "bindE (dispatchInstructionToScalarize (initPass False dl0 constLanes) 0)
     (\<lambda>s. dispatchInstructionToScalarize s 1) = Inr constLanesState \<and>
   obtainScalarizedValues constLanesState (VInst 1 v2i32) =
     Inr ([i32 1, i32 2], False, constLanesState) \<and>
   map_sum id (\<lambda>s. all_insts (m_currFunc s)) (dispatchInstructionToScalarize constLanesState 2) =
     Inr [0, 1, 5, 6, 2, 3, 4] \<and>
   all_insts (m_currFunc constLanesState) = [0, 1, 2, 3, 4]"
  apply (intro conjI)
  subgoal by (simp add: constLanes_def constLanesState_def eval_defs)
  subgoal by (simp add: constLanes_def constLanesState_def eval_defs)
  subgoal by (simp add: constLanes_def constLanesState_def eval_defs)
  subgoal by (simp add: constLanes_def constLanesState_def eval_defs)
  done


text \<open>
  C9 as stated fails. The first run turns \<open>vecAddArgs\<close> into \<open>vecAddArgs1\<close>; the second
  run, on \<open>vecAddArgs1\<close>, removes the instructions 3, 4, 5, 6, 9 and 10, adds the
  instructions 11 to 16, and leaves the extracts of the two arguments in the other order.
\<close>

theorem second_run_changes_function:
  "runOnFunction 3 False False dl0 vecAddArgs = Some (Inr (True, vecAddArgs1)) \<and>
   runOnFunction 10 False False dl0 vecAddArgs1 = Some (Inr (True, vecAddArgs2)) \<and>
   all_insts vecAddArgs1 = [5, 6, 3, 4, 7, 8, 9, 10, 1, 2] \<and>
   all_insts vecAddArgs2 = [13, 14, 11, 12, 7, 8, 15, 16, 1, 2]"
  apply (intro conjI)
  subgoal by (simp add: vecAddArgs_def vecAddArgs1_def eval_defs)
  subgoal by (simp add: vecAddArgs1_def vecAddArgs2_def eval_defs)
  subgoal by (simp add: vecAddArgs1_def all_insts_def)
  subgoal by (simp add: vecAddArgs2_def all_insts_def)
  done

text \<open>
  C4 as stated fails: for the constant-index \<^verbatim>\<open>extractelement\<close> of an argument the
  dispatch puts the two new instructions 2 and 3 into the function, and they are there
  when the run has ended.
\<close>

theorem extractelement_emits_instructions:
  "runOnFunction 2 False False dl0 extractArg = Some (Inr (True, extractArg1)) \<and>
   map_sum id (\<lambda>s. all_insts (m_currFunc s))
     (dispatchInstructionToScalarize (initPass False dl0 extractArg) 0) = Inr [2, 3, 0, 1]"
  by (simp add: extractArg_def extractArg1_def eval_defs)


text \<open>
  C5. Whenever the dispatch of a \<^verbatim>\<open>shufflevector\<close> returns, each input that is not
  undef has been decomposed by \<^verbatim>\<open>obtainScalarizedValues\<close> (the first input, then the
  second), the SCM entry of the shuffle is marked as removed and holds one lane per
  element of the result, and lane \<open>i\<close> is what the specification says for \<open>mask[i]\<close>: the
  entry at that index of the concatenated decompositions, or the scalar undef when the
  index is negative or the entry belongs to an undef input. The shuffle is in the
  removed set, and only the decompositions touched the function.
\<close>

theorem shufflevector_rule:
  assumes "inst_of (m_currFunc st) I = Some SI" and "opcode SI = ShuffleVector"
    and "operands SI = [v0, v1]" and "I \<notin> set (m_removedInsts st)"
    and "dispatchInstructionToScalarize st I = Inr st'"
  shows "\<exists>elemTy w width in0 in1 st1 st2 en.
           type_of v0 = VectorTy elemTy w \<and> vectorWidth (ity SI) = Some width \<and>
           (if isUndefValue v0 then in0 = None \<and> st1 = st
            else \<exists>ls c. obtainScalarizedValues st v0 = Inr (ls, c, st1) \<and> in0 = Some ls) \<and>
           (if isUndefValue v1 then in1 = None \<and> st2 = st1
            else \<exists>ls c. obtainScalarizedValues st1 v1 = Inr (ls, c, st2) \<and> in1 = Some ls) \<and>
           map_of (m_SCM st') (self I SI) = Some en \<and> isOriginalVectorRemoved en \<and>
           length (scalarValues en) = width \<and>
           scalarValues en =
             map (\<lambda>m. Some (specShuffleLane elemTy w in0 in1 m)) (take width (mask SI)) \<and>
           I \<in> set (m_removedInsts st') \<and> m_currFunc st' = m_currFunc st2"
proof -
  from assms have h: "scalarizeShuffleVectorInst st I SI = Inr st'"
    by (simp add: dispatchInstructionToScalarize_def)
  obtain elemTy w where t0: "type_of v0 = VectorTy elemTy w"
    using h assms(3) by (cases "type_of v0") (auto simp: scalarizeShuffleVectorInst_def)
  have t1: "type_of v1 = VectorTy elemTy w"
    using h assms(3) t0 by (auto simp: scalarizeShuffleVectorInst_def split: if_splits)
  define A where "A = (if \<not> isUndefValue v0
             then bindE (obtainScalarizedValues st v0)
                    (\<lambda>(ls, c, st1). Inr (place (replicate (2 * w) None) 0 ls, st1))
             else Inr (replicate (2 * w) None, st))"
  define B where "B = (\<lambda>all0 st1. if \<not> isUndefValue v1
             then bindE (obtainScalarizedValues st1 v1)
                    (\<lambda>(ls, c, st2). Inr (place all0 w ls, st2))
             else Inr (all0, st1))"
  define C where "C = (\<lambda>allValues st2.
                 case vectorWidth (ity SI) of
                   None \<Rightarrow> Inl NullDeref
                 | Some width \<Rightarrow>
                     if length (mask SI) < width \<or>
                        (\<exists>m \<in> set (take width (mask SI)). int (length allValues) \<le> m)
                     then Inl OutOfBounds
                     else
                       bindE (getSCMEntry st2 (self I SI)) (\<lambda>st3.
                       bindE (updateSCMEntryWithValues st3 (self I SI)
                                (map (\<lambda>maskValue.
                                        if maskValue \<ge> 0 \<and> allValues ! nat maskValue \<noteq> None
                                        then allValues ! nat maskValue
                                        else Some (VUndef elemTy))
                                   (take width (mask SI)))
                                (self I SI) True)
                         (\<lambda>st4. Inr (markRemoved I st4))))"
  have "bindE A (\<lambda>(all0, st1). bindE (B all0 st1) (\<lambda>(allValues, st2). C allValues st2)) = Inr st'"
    using h assms(3) t0 t1 unfolding A_def B_def C_def
    by (simp add: scalarizeShuffleVectorInst_def)
  then obtain all0 st1 allValues st2 where
    A: "A = Inr (all0, st1)" and B: "B all0 st1 = Inr (allValues, st2)"
    and C: "C allValues st2 = Inr st'"
    by (auto simp: bindE_eq_Inr)
  from shuffle_inputs [OF t0 t1 A [unfolded A_def] B [unfolded B_def]]
  obtain in0 in1 where
    i0: "if isUndefValue v0 then in0 = None \<and> st1 = st
         else \<exists>ls c. obtainScalarizedValues st v0 = Inr (ls, c, st1) \<and> in0 = Some ls"
    and i1: "if isUndefValue v1 then in1 = None \<and> st2 = st1
         else \<exists>ls c. obtainScalarizedValues st1 v1 = Inr (ls, c, st2) \<and> in1 = Some ls"
    and av: "allValues =
             (case in0 of None \<Rightarrow> replicate w None | Some ls \<Rightarrow> map Some ls) @
             (case in1 of None \<Rightarrow> replicate w None | Some ls \<Rightarrow> map Some ls)"
    by blast
  from C obtain width st3 st4 where
    wd: "vectorWidth (ity SI) = Some width" and ml: "width \<le> length (mask SI)"
    and inb: "\<forall>m \<in> set (take width (mask SI)). m < int (length allValues)"
    and g: "getSCMEntry st2 (self I SI) = Inr st3"
    and u: "updateSCMEntryWithValues st3 (self I SI)
              (map (\<lambda>maskValue.
                      if maskValue \<ge> 0 \<and> allValues ! nat maskValue \<noteq> None
                      then allValues ! nat maskValue
                      else Some (VUndef elemTy))
                 (take width (mask SI)))
              (self I SI) True = Inr st4"
    and st': "st' = markRemoved I st4"
    unfolding C_def
    by (auto simp: bindE_eq_Inr not_less not_le split: option.splits if_splits)
  from wd obtain e' where ts: "type_of (self I SI) = VectorTy e' width"
    by (cases "ity SI") (auto simp: self_def)
  have lanes: "map (\<lambda>maskValue.
                      if maskValue \<ge> 0 \<and> allValues ! nat maskValue \<noteq> None
                      then allValues ! nat maskValue
                      else Some (VUndef elemTy))
                 (take width (mask SI)) =
               map (\<lambda>m. Some (specShuffleLane elemTy w in0 in1 m)) (take width (mask SI))"
    using inb by (intro map_cong refl shuffle_lane [OF _ av]) auto
  from update_result [OF u ts, unfolded lanes] ml have
    en: "map_of (m_SCM st4) (self I SI) =
           Some \<lparr>scalarValues =
                   map (\<lambda>m. Some (specShuffleLane elemTy w in0 in1 m)) (take width (mask SI)),
                 isOriginalVectorRemoved = True\<rparr>"
    by simp
  have fr: "m_currFunc st4 = m_currFunc st2"
    using update_frame [OF u] getSCMEntry_frame [OF g] by simp
  define en0 where "en0 = \<lparr>scalarValues =
      map (\<lambda>m. Some (specShuffleLane elemTy w in0 in1 m)) (take width (mask SI)),
      isOriginalVectorRemoved = True\<rparr>"
  have "map_of (m_SCM st') (self I SI) = Some en0" "isOriginalVectorRemoved en0"
    "length (scalarValues en0) = width"
    "scalarValues en0 =
       map (\<lambda>m. Some (specShuffleLane elemTy w in0 in1 m)) (take width (mask SI))"
    "I \<in> set (m_removedInsts st')" "m_currFunc st' = m_currFunc st2"
    using en ml fr unfolding st' en0_def
    by (simp_all add: markRemoved_def set_insert_def)
  with t0 wd i0 i1 show ?thesis by blast
qed


theorem shufflevector_rule_witness:
  "bindE (dispatchInstructionToScalarize (initPass False dl0 shuffleUndef) 0)
     (\<lambda>s. dispatchInstructionToScalarize s 1) = Inr shuffleState \<and>
   (case dispatchInstructionToScalarize shuffleState 2 of
      Inl err \<Rightarrow> False
    | Inr st' \<Rightarrow>
        map_option scalarValues (map_of (m_SCM st') (VInst 2 (VectorTy (IntTy 32) 4))) =
          Some [Some (VArg 0 (IntTy 32)), Some (VArg 1 (IntTy 32)),
                Some (VUndef (IntTy 32)), Some (VUndef (IntTy 32))] \<and>
        2 \<in> set (m_removedInsts st') \<and> m_currFunc st' = shuffleUndef)"
proof -
  let ?SI = "(mk_inst ShuffleVector (VectorTy (IntTy 32) 4) [VInst 1 v2i32, VUndef v2i32])
               \<lparr>mask := [0, 1, -1, -1]\<rparr>"
  have r: "bindE (dispatchInstructionToScalarize (initPass False dl0 shuffleUndef) 0)
     (\<lambda>s. dispatchInstructionToScalarize s 1) = Inr shuffleState"
    by (simp add: shuffleUndef_def shuffleState_def eval_defs)
  have a: "inst_of (m_currFunc shuffleState) 2 = Some ?SI"
    by (simp add: shuffleState_def shuffleUndef_def initPass_def inst_of_def)
  have oc: "opcode ?SI = ShuffleVector" and op: "operands ?SI = [VInst 1 v2i32, VUndef v2i32]"
    by (simp_all add: mk_inst_def)
  have b: "2 \<notin> set (m_removedInsts shuffleState)"
    by (simp add: shuffleState_def)
  obtain st' where d: "dispatchInstructionToScalarize shuffleState 2 = Inr st'"
    by (simp add: shuffleUndef_def shuffleState_def eval_defs)
  have o: "obtainScalarizedValues shuffleState (VInst 1 v2i32) =
      Inr ([VArg 0 (IntTy 32), VArg 1 (IntTy 32)], False, shuffleState)"
    by (simp add: shuffleState_def eval_defs)
  from shufflevector_rule [OF a oc op b d]
  obtain elemTy w width in0 in1 st1 st2 en where
    t: "type_of (VInst 1 v2i32) = VectorTy elemTy w" "vectorWidth (ity ?SI) = Some width"
    and i0': "if isUndefValue (VInst 1 v2i32) then in0 = None \<and> st1 = shuffleState
         else \<exists>ls c. obtainScalarizedValues shuffleState (VInst 1 v2i32) = Inr (ls, c, st1) \<and>
                in0 = Some ls"
    and i1': "if isUndefValue (VUndef v2i32) then in1 = None \<and> st2 = st1
         else \<exists>ls c. obtainScalarizedValues st1 (VUndef v2i32) = Inr (ls, c, st2) \<and>
                in1 = Some ls"
    and en: "map_of (m_SCM st') (self 2 ?SI) = Some en"
      "scalarValues en =
         map (\<lambda>m. Some (specShuffleLane elemTy w in0 in1 m)) (take width (mask ?SI))"
    and rm: "2 \<in> set (m_removedInsts st')" and f: "m_currFunc st' = m_currFunc st2"
    by blast
  from i0' have i0: "\<exists>ls c. obtainScalarizedValues shuffleState (VInst 1 v2i32) =
      Inr (ls, c, st1) \<and> in0 = Some ls"
    by simp
  from i1' have i1: "in1 = None \<and> st2 = st1" by simp
  from t have tw: "elemTy = IntTy 32" "w = 2" "width = 4"
    by (simp_all add: v2i32_def mk_inst_def)
  from i0 o have in0: "in0 = Some [VArg 0 (IntTy 32), VArg 1 (IntTy 32)]" "st1 = shuffleState"
    by auto
  have "scalarValues en =
      [Some (VArg 0 (IntTy 32)), Some (VArg 1 (IntTy 32)),
       Some (VUndef (IntTy 32)), Some (VUndef (IntTy 32))]"
    unfolding en(2) tw in0 using i1
    by (simp add: mk_inst_def specShuffleLane_def)
  with en(1) rm f i1 in0 d show ?thesis
    unfolding r
    by (simp add: self_def mk_inst_def shuffleState_def initPass_def)
qed




text \<open>
  C8. A vector PHI with an incoming value produced by one of the VME send intrinsics is
  left intact: the dispatch returns with the function, the removed set and the DRL as
  they were, and the vector operands of the PHI in the used-whole set. Any other vector
  PHI of the layout, whenever its dispatch returns, is \<open>phiDecomposed\<close>: as many new
  scalar PHI nodes as the type has lanes, the node for lane \<open>k\<close> taking from each incoming
  block lane \<open>k\<close> of the decomposition of the value incoming from it.
\<close>

theorem phi_rule:
  assumes "inst_of (m_currFunc st) I = Some PI" and "opcode PI = PHI"
    and "ity PI = VectorTy scalarType w" and "I \<notin> set (m_removedInsts st)"
  shows "((\<exists>Op \<in> set (operands PI). isVMESend (m_currFunc st) Op) \<longrightarrow>
            (\<exists>st'. dispatchInstructionToScalarize st I = Inr st' \<and>
                  m_currFunc st' = m_currFunc st \<and> m_removedInsts st' = m_removedInsts st \<and>
                  m_DRL st' = m_DRL st \<and>
                  set (m_usedVectors st') =
                    set (m_usedVectors st) \<union> {v \<in> set (operands PI). isVectorTy (type_of v)})) \<and>
         (\<not> (\<exists>Op \<in> set (operands PI). isVMESend (m_currFunc st) Op) \<and>
            freshIds (m_currFunc st) \<and> I \<in> set (all_insts (m_currFunc st)) \<and>
            dispatchInstructionToScalarize st I = Inr st' \<longrightarrow>
            phiDecomposed st I PI scalarType w st')"
proof (intro conjI impI)
  assume vme: "\<exists>Op \<in> set (operands PI). isVMESend (m_currFunc st) Op"
  have "dispatchInstructionToScalarize st I = recoverNonScalarizableInst st I PI"
    using assms vme by (simp add: dispatchInstructionToScalarize_def scalarizePHINode_def)
  with recover_effect [of st I PI]
  show "\<exists>st'. dispatchInstructionToScalarize st I = Inr st' \<and>
          m_currFunc st' = m_currFunc st \<and> m_removedInsts st' = m_removedInsts st \<and>
          m_DRL st' = m_DRL st \<and>
          set (m_usedVectors st') =
            set (m_usedVectors st) \<union> {v \<in> set (operands PI). isVectorTy (type_of v)}"
    by simp
next
  assume h: "\<not> (\<exists>Op \<in> set (operands PI). isVMESend (m_currFunc st) Op) \<and>
            freshIds (m_currFunc st) \<and> I \<in> set (all_insts (m_currFunc st)) \<and>
            dispatchInstructionToScalarize st I = Inr st'"
  with assms have "scalarizePHINode st I PI = Inr st'"
    by (simp add: dispatchInstructionToScalarize_def)
  with h assms show "phiDecomposed st I PI scalarType w st'"
    by (intro phi_decomposed) auto
qed


theorem phi_rule_witness:
  "(\<exists>st'. dispatchInstructionToScalarize (initPass False dl0 phiVME) 2 = Inr st' \<and>
          m_currFunc st' = phiVME \<and> m_removedInsts st' = [] \<and> m_DRL st' = [] \<and>
          set (m_usedVectors st') = {VInst 0 v2i32}) \<and>
   (case dispatchInstructionToScalarize (initPass False dl0 phiArgs) 2 of
      Inl err \<Rightarrow> False
    | Inr st' \<Rightarrow>
        phiDecomposed (initPass False dl0 phiArgs) 2
          ((mk_inst PHI v2i32 [VArg 0 v2i32, VArg 1 v2i32])\<lparr>incoming := [0, 1]\<rparr>)
          (IntTy 32) 2 st' \<and>
        inst_of (m_currFunc st') 5 =
          Some ((mk_inst PHI (IntTy 32) [VInst 7 (IntTy 32), VInst 9 (IntTy 32)])
                  \<lparr>incoming := [0, 1]\<rparr>) \<and>
        inst_of (m_currFunc st') 7 =
          Some (mk_inst ExtractElement (IntTy 32) [VArg 0 v2i32, i32 0]) \<and>
        inst_of (m_currFunc st') 9 =
          Some (mk_inst ExtractElement (IntTy 32) [VArg 1 v2i32, i32 0]))"
proof -
  let ?V = "(mk_inst PHI v2i32 [VInst 0 v2i32])\<lparr>incoming := [0]\<rparr>"
  let ?P = "(mk_inst PHI v2i32 [VArg 0 v2i32, VArg 1 v2i32])\<lparr>incoming := [0, 1]\<rparr>"
  let ?sv = "initPass False dl0 phiVME"
  let ?sp = "initPass False dl0 phiArgs"
  have v1: "inst_of (m_currFunc ?sv) 2 = Some ?V"
    by (simp add: phiVME_def initPass_def inst_of_def)
  have v2: "opcode ?V = PHI" "ity ?V = VectorTy (IntTy 32) 2" "2 \<notin> set (m_removedInsts ?sv)"
    by (simp_all add: mk_inst_def v2i32_def initPass_def)
  have v3: "\<exists>Op \<in> set (operands ?V). isVMESend (m_currFunc ?sv) Op"
    by (simp add: mk_inst_def isVMESend_def phiVME_def initPass_def inst_of_def)
  from phi_rule [OF v1 v2, THEN conjunct1, rule_format, OF v3]
  obtain sv' where "dispatchInstructionToScalarize ?sv 2 = Inr sv'"
    "m_currFunc sv' = m_currFunc ?sv" "m_removedInsts sv' = m_removedInsts ?sv"
    "m_DRL sv' = m_DRL ?sv"
    "set (m_usedVectors sv') =
       set (m_usedVectors ?sv) \<union> {v \<in> set (operands ?V). isVectorTy (type_of v)}"
    by blast
  moreover have "{v \<in> set (operands ?V). isVectorTy (type_of v)} = {VInst 0 v2i32}"
    by (auto simp: mk_inst_def v2i32_def)
  ultimately have one: "\<exists>st'. dispatchInstructionToScalarize ?sv 2 = Inr st' \<and>
          m_currFunc st' = phiVME \<and> m_removedInsts st' = [] \<and> m_DRL st' = [] \<and>
          set (m_usedVectors st') = {VInst 0 v2i32}"
    by (simp add: initPass_def)
  have p1: "inst_of (m_currFunc ?sp) 2 = Some ?P"
    by (simp add: phiArgs_def initPass_def inst_of_def)
  have p2: "opcode ?P = PHI" "ity ?P = VectorTy (IntTy 32) 2" "2 \<notin> set (m_removedInsts ?sp)"
    by (simp_all add: mk_inst_def v2i32_def initPass_def)
  obtain sp' where d: "dispatchInstructionToScalarize ?sp 2 = Inr sp'"
    by (simp add: phiArgs_def eval_defs)
  have p3: "\<not> (\<exists>Op \<in> set (operands ?P). isVMESend (m_currFunc ?sp) Op) \<and>
      freshIds (m_currFunc ?sp) \<and> 2 \<in> set (all_insts (m_currFunc ?sp)) \<and>
      dispatchInstructionToScalarize ?sp 2 = Inr sp'"
    using d by (simp add: mk_inst_def isVMESend_def phiArgs_def initPass_def freshIds_def
        all_insts_def inst_of_def)
  from phi_rule [OF p1 p2, THEN conjunct2, rule_format, OF p3]
  have two: "phiDecomposed ?sp 2 ?P (IntTy 32) 2 sp'" .
  have ev: "inst_of (m_currFunc sp') 5 =
          Some ((mk_inst PHI (IntTy 32) [VInst 7 (IntTy 32), VInst 9 (IntTy 32)])
                  \<lparr>incoming := [0, 1]\<rparr>) \<and>
        inst_of (m_currFunc sp') 7 =
          Some (mk_inst ExtractElement (IntTy 32) [VArg 0 v2i32, i32 0]) \<and>
        inst_of (m_currFunc sp') 9 =
          Some (mk_inst ExtractElement (IntTy 32) [VArg 1 v2i32, i32 0])"
    using d by (simp add: phiArgs_def eval_defs, auto)
  from one two ev show ?thesis
    unfolding d by simp
qed

text \<open>
  C10. An instruction that is in the removed set is dispatched to nothing: the dispatch
  returns the state it was given, so the function, the SCM, the DRL, the used-whole set
  and the removed set are unchanged. A dispatch of the instruction \<open>I\<close> that returns
  changes the removed set by putting \<open>I\<close> in, or not at all; and when \<open>I\<close> is not in the
  removed set afterwards the state is \<open>intact\<close>: the function, the DRL and the removed
  set are the ones before, and the SCM has at most one unfilled entry more. So every rule
  that decomposes its instruction marks it. The traversal takes no instruction out of the
  removed set. Hence an instruction is decomposed at most once: once its dispatch has
  marked it, in whatever state the traversal goes on to reach, a dispatch of it returns
  that state untouched.
\<close>

theorem dispatch_removed_is_noop:
  "(I \<in> set (m_removedInsts st) \<longrightarrow> dispatchInstructionToScalarize st I = Inr st) \<and>
   (dispatchInstructionToScalarize st I = Inr st' \<longrightarrow>
      (m_removedInsts st' = m_removedInsts st \<or>
       m_removedInsts st' = set_insert I (m_removedInsts st)) \<and>
      (I \<notin> set (m_removedInsts st') \<longrightarrow> intact st st')) \<and>
   (traverse fuel st' cur = Some (Inr st2) \<longrightarrow>
      set (m_removedInsts st') \<subseteq> set (m_removedInsts st2)) \<and>
   (dispatchInstructionToScalarize st I = Inr st' \<and> I \<in> set (m_removedInsts st') \<and>
    traverse fuel st' cur = Some (Inr st2) \<longrightarrow>
      dispatchInstructionToScalarize st2 I = Inr st2)"
proof (intro conjI impI)
  show "dispatchInstructionToScalarize st I = Inr st" if "I \<in> set (m_removedInsts st)"
    using that by (simp add: dispatchInstructionToScalarize_def)
  show "m_removedInsts st' = m_removedInsts st \<or>
        m_removedInsts st' = set_insert I (m_removedInsts st)"
    if "dispatchInstructionToScalarize st I = Inr st'"
    using dispatch_marks_only [OF that] .
  show "intact st st'"
    if "dispatchInstructionToScalarize st I = Inr st'" and "I \<notin> set (m_removedInsts st')"
    using keepsD [OF mi_dispatch that(1)] that(2) by (simp add: markedOrIntact_def)
  show "set (m_removedInsts st') \<subseteq> set (m_removedInsts st2)"
    if "traverse fuel st' cur = Some (Inr st2)"
    using removed_traverse [OF that] .
  show "dispatchInstructionToScalarize st2 I = Inr st2"
    if "dispatchInstructionToScalarize st I = Inr st' \<and> I \<in> set (m_removedInsts st') \<and>
        traverse fuel st' cur = Some (Inr st2)"
    using that removed_traverse [of fuel st' cur st2]
    by (auto simp: dispatchInstructionToScalarize_def)
qed

theorem dispatch_removed_is_noop_witness:
  "(case dispatchInstructionToScalarize (initPass False dl0 constLanes) 0 of
      Inl err \<Rightarrow> False
    | Inr st1 \<Rightarrow>
        m_removedInsts st1 = [0] \<and>
        (case traverse 4 st1 (Some 1) of
           Some (Inr st2) \<Rightarrow>
             m_removedInsts st2 = [0, 1, 2, 3] \<and>
             dispatchInstructionToScalarize st2 0 = Inr st2
         | _ \<Rightarrow> False))"
proof -
  let ?st = "initPass False dl0 constLanes"
  obtain st1 where d: "dispatchInstructionToScalarize ?st 0 = Inr st1"
    by (simp add: constLanes_def eval_defs)
  have "map_sum id m_removedInsts (dispatchInstructionToScalarize ?st 0) = Inr [0]"
    by (simp add: constLanes_def eval_defs)
  then have m: "m_removedInsts st1 = [0]"
    by (simp add: d)
  obtain st2 where "(case dispatchInstructionToScalarize ?st 0 of
      Inl err \<Rightarrow> None | Inr st1 \<Rightarrow> traverse 4 st1 (Some 1)) = Some (Inr st2)"
    by (simp add: constLanes_def eval_defs)
  then have t: "traverse 4 st1 (Some 1) = Some (Inr st2)"
    by (simp add: d)
  have "(case dispatchInstructionToScalarize ?st 0 of
      Inl err \<Rightarrow> None
    | Inr st1 \<Rightarrow> map_option (map_sum id m_removedInsts) (traverse 4 st1 (Some 1))) =
      Some (Inr [0, 1, 2, 3])"
    by (simp add: constLanes_def eval_defs)
  then have m2: "m_removedInsts st2 = [0, 1, 2, 3]"
    using t by (auto simp: d)
  from m have "dispatchInstructionToScalarize ?st 0 = Inr st1 \<and> 0 \<in> set (m_removedInsts st1) \<and>
      traverse 4 st1 (Some 1) = Some (Inr st2)"
    using d t by simp
  from dispatch_removed_is_noop [of 0 ?st st1 4 "Some 1" st2, THEN conjunct2, THEN conjunct2,
      THEN conjunct2, rule_format, OF this]
  have "dispatchInstructionToScalarize st2 0 = Inr st2" .
  moreover from t have "traverse 4 st1 (Some (Suc 0)) = Some (Inr st2)" by simp
  ultimately show ?thesis
    using m m2 by (simp add: d)
qed

text \<open>
  C3. The DRL closure fails on the code, by a defect of the resolution: an SCM entry
  may hold a placeholder of another DRL entry, and the resolution of that other entry
  deletes the placeholder without touching the SCM. On \<open>dang\<close>, a function with one
  instruction per identity in which every definition dominates its uses, the traversal
  returns \<open>dangTraversed\<close>, where every recorded placeholder is a live load of the null
  pointer and no vector is used whole. The first DRL entry, of \<open>%8\<close>, is resolved: its
  placeholders 10 and 11 are replaced and deleted, and the SCM is what it was, so that
  lane 1 of the entry of \<open>%6\<close> is the deleted placeholder 11. The second DRL entry, of
  \<open>%6\<close>, then tests its lanes with \<^verbatim>\<open>isDummyValue\<close> and reads the deleted instruction: the
  resolution does not complete, and neither does the run of the pass. The placeholder 13,
  which the call reads, is never substituted.
\<close>

theorem drl_resolution_reads_deleted_placeholder:
  "wellFormed dang \<and> freshIds dang \<and>
   traverse 10 (initPass False dl0 dang) (inst_begin dang) = Some (Inr dangTraversed) \<and>
   drlReady dangTraversed \<and>
   resolveVectorValues dangTraversed = Inr dangTraversed \<and>
   (case resolveDRLEntry dangTraversed (m_DRL dangTraversed ! 0) of
      Inl err \<Rightarrow> False
    | Inr st1 \<Rightarrow>
        inst_of (m_currFunc st1) 10 = None \<and> inst_of (m_currFunc st1) 11 = None \<and>
        m_SCM st1 = m_SCM dangTraversed \<and>
        map_of (m_SCM st1) (VInst 6 v2i32) =
          Some \<lparr>scalarValues = [Some (VArg 3 (IntTy 32)), Some (VInst 11 (IntTy 32))],
                isOriginalVectorRemoved = True\<rparr> \<and>
        isDummyValue (m_currFunc st1) (VInst 11 (IntTy 32)) = Inl DanglingPointer \<and>
        resolveDRLEntry st1 (m_DRL dangTraversed ! 1) = Inl DanglingPointer \<and>
        inst_of (m_currFunc st1) 4 =
          Some (mk_inst (Call (OtherCallee 0)) VoidTy [VInst 13 (IntTy 32)])) \<and>
   resolveDeferredInstructions dangTraversed = Inl DanglingPointer \<and>
   runOnFunction 10 False False dl0 dang = Some (Inl DanglingPointer)"
  apply (intro conjI)
  subgoal by (simp add: dang_def wellFormed_def all_insts_def inst_of_def mk_inst_def)
  subgoal by (simp add: dang_def freshIds_def all_insts_def)
  subgoal by (simp add: dang_def dangTraversed_def eval_defs)
  subgoal by (simp add: dangTraversed_def drlReady_def freshIds_def all_insts_def placeholders_def eval_defs)
  subgoal by (simp add: dangTraversed_def eval_defs)
  subgoal by (simp add: dangTraversed_def eval_defs)
  subgoal by (simp add: dangTraversed_def eval_defs)
  subgoal by (simp add: dang_def eval_defs)
  done

theorem drl_resolution_reads_deleted_placeholder_witness:
  "traverse 10 (initPass False dl0 dang) (inst_begin dang) = Some (Inr dangTraversed) \<and>
   resolveDeferredInstructions dangTraversed = Inl DanglingPointer \<and>
   runOnFunction 10 False False dl0 dang = Some (Inl DanglingPointer)"
  using drl_resolution_reads_deleted_placeholder by blast

text \<open>
  C4, as the code has it. An \<^verbatim>\<open>extractelement\<close> whose index is not a constant integer
  is left intact: the function, the removed set and the DRL stay, and its vector operand
  joins the used-whole set. With a constant index below the number of lanes of the
  source, in a state that is \<open>sourceReady\<close>, the dispatch returns: the source has been
  decomposed by \<^verbatim>\<open>obtainScalarizedValues\<close> into one lane per element, every use of the
  instruction has been replaced by the lane at the index, and the instruction is in the
  removed set. When the source is a constant or has a filled SCM entry the decomposition
  changes nothing, so that the function has the instructions it had; otherwise the
  decomposition has created one instruction per lane, the placeholders or the
  \<^verbatim>\<open>extractelement\<close>s of the source (\<open>laneInst\<close>), and these are the lanes.
\<close>

theorem extractelement_rule:
  assumes "inst_of (m_currFunc st) I = Some EI" and "opcode EI = ExtractElement"
    and "operands EI = [v, idx]" and "I \<notin> set (m_removedInsts st)"
  shows "(\<not> isConstantInt idx \<longrightarrow>
            (\<exists>st'. dispatchInstructionToScalarize st I = Inr st' \<and>
                  m_currFunc st' = m_currFunc st \<and> m_removedInsts st' = m_removedInsts st \<and>
                  m_DRL st' = m_DRL st \<and>
                  set (m_usedVectors st') =
                    set (m_usedVectors st) \<union> {x \<in> {v, idx}. isVectorTy (type_of x)})) \<and>
         (idx = VConstInt t k \<and> type_of v = VectorTy e w \<and> trunc32 k < w \<and>
          sourceReady st I EI v (trunc32 k) \<longrightarrow>
            (\<exists>lanes c st1 st'.
                obtainScalarizedValues st v = Inr (lanes, c, st1) \<and> length lanes = w \<and>
                dispatchInstructionToScalarize st I = Inr st' \<and>
                st' = markRemoved I (st1\<lparr>m_currFunc :=
                        replaceAllUsesWith (self I EI) (lanes ! trunc32 k) (m_currFunc st1)\<rparr>) \<and>
                use_empty (m_currFunc st') (self I EI) \<and>
                I \<in> set (m_removedInsts st') \<and>
                (filled st v \<or> isConstant v \<longrightarrow>
                   st1 = st \<and>
                   map fst (insts (m_currFunc st')) = map fst (insts (m_currFunc st)) \<and>
                   blocks (m_currFunc st') = blocks (m_currFunc st)) \<and>
                (\<not> filled st v \<and> \<not> isConstant v \<longrightarrow>
                   lanes = map (\<lambda>j. VInst (next_id (m_currFunc st) + j) e) [0..<w] \<and>
                   (\<forall>j<w. inst_of (m_currFunc st) (next_id (m_currFunc st) + j) = None \<and>
                           inst_of (m_currFunc st1) (next_id (m_currFunc st) + j) =
                             Some (laneInst st v e j)) \<and>
                   (\<forall>i<next_id (m_currFunc st).
                      inst_of (m_currFunc st1) i = inst_of (m_currFunc st) i))))"
proof (intro conjI impI)
  assume nc: "\<not> isConstantInt idx"
  have "dispatchInstructionToScalarize st I = recoverNonScalarizableInst st I EI"
    using assms nc
    by (cases idx)
       (simp_all add: dispatchInstructionToScalarize_def scalarizeExtractElementInst_def)
  with recover_effect [of st I EI] assms(3)
  show "\<exists>st'. dispatchInstructionToScalarize st I = Inr st' \<and>
          m_currFunc st' = m_currFunc st \<and> m_removedInsts st' = m_removedInsts st \<and>
          m_DRL st' = m_DRL st \<and>
          set (m_usedVectors st') =
            set (m_usedVectors st) \<union> {x \<in> {v, idx}. isVectorTy (type_of x)}"
    by auto
next
  assume h: "idx = VConstInt t k \<and> type_of v = VectorTy e w \<and> trunc32 k < w \<and>
          sourceReady st I EI v (trunc32 k)"
  let ?f = "m_currFunc st"
  from h have idx: "idx = VConstInt t k" and ty: "type_of v = VectorTy e w"
    and k: "trunc32 k < w" and inv: "linv st" and fr: "freshIds ?f"
    and lay: "I \<in> set (all_insts ?f)"
    and nx: "case v of
               VInst i t \<Rightarrow> map_of (m_SCM st) v \<noteq> None \<longrightarrow> bb_next ?f i \<noteq> None
             | _ \<Rightarrow> True"
    and ns: "case map_of (m_SCM st) v of
               Some en \<Rightarrow> scalarsInitialized en \<longrightarrow>
                 scalarValues en ! trunc32 k \<noteq> Some (self I EI)
             | None \<Rightarrow> True"
    by (simp_all add: sourceReady_def)
  from lay have b: "inst_begin ?f \<noteq> None"
    by (cases "all_insts ?f") (auto simp: inst_begin_def)
  from obtain_total [OF ty inv b nx] obtain lanes c st1 where
    o: "obtainScalarizedValues st v = Inr (lanes, c, st1)" by blast
  from obtain_length [OF o ty] have len: "length lanes = w" .
  from assms(1) fr have I: "I < next_id ?f"
    by (auto simp: freshIds_def inst_of_def dest: map_of_SomeD)
  have emit: "lanes = map (\<lambda>j. VInst (next_id ?f + j) e) [0..<w] \<and>
      (\<forall>j<w. inst_of ?f (next_id ?f + j) = None \<and>
              inst_of (m_currFunc st1) (next_id ?f + j) = Some (laneInst st v e j)) \<and>
      (\<forall>i<next_id ?f. inst_of (m_currFunc st1) i = inst_of ?f i)"
    if "\<not> filled st v" "\<not> isConstant v"
    using obtain_emits [OF o ty fr that] freshIds_not_live [OF fr] by auto
  have ne: "self I EI \<noteq> lanes ! trunc32 k"
  proof (cases "filled st v")
    case True
    from filled_lanes [OF True inv ty] obtain en where
      en: "map_of (m_SCM st) v = Some en" "scalarsInitialized en"
        "length (scalarValues en) = w" "None \<notin> set (scalarValues en)"
        "obtainScalarizedValues st v = Inr (map the (scalarValues en), isConstant v, st)"
      by blast
    from en(5) o have l: "lanes = map the (scalarValues en)" by simp
    from en(3,4) k obtain x where x: "scalarValues en ! trunc32 k = Some x"
      by (cases "scalarValues en ! trunc32 k") (auto simp: in_set_conv_nth)
    with ns en(1,2) have "x \<noteq> self I EI" by auto
    with x l k en(3) show ?thesis by simp
  next
    case nf: False
    show ?thesis
    proof (cases "isConstant v")
      case True
      with o ty nf have "lanes = replicate w (VUndef e) \<or>
          lanes = map (\<lambda>i. VConstExtract v i) [0..<w]"
        by (auto simp: obtainScalarizedValues_def Let_def filled_def getScalarizedValues_def
            split: if_splits)
      with k show ?thesis by (auto simp: self_def)
    next
      case False
      from emit [OF nf False] k I show ?thesis by (auto simp: self_def)
    qed
  qed
  let ?st' = "markRemoved I (st1\<lparr>m_currFunc :=
                 replaceAllUsesWith (self I EI) (lanes ! trunc32 k) (m_currFunc st1)\<rparr>)"
  from assms idx o len k ne have d: "dispatchInstructionToScalarize st I = Inr ?st'"
    by (simp add: dispatchInstructionToScalarize_def scalarizeExtractElementInst_def RAUW_def)
  have ue: "use_empty (m_currFunc ?st') (self I EI)"
    using use_empty_replaceAllUsesWith [OF ne] by (simp add: markRemoved_def)
  have rm: "I \<in> set (m_removedInsts ?st')"
    by (simp add: markRemoved_def set_insert_def)
  have same: "st1 = st \<and>
      map fst (insts (m_currFunc ?st')) = map fst (insts (m_currFunc st)) \<and>
      blocks (m_currFunc ?st') = blocks (m_currFunc st)"
    if "filled st v \<or> isConstant v"
  proof -
    from that have "isConstant v \<or> (\<exists>en. map_of (m_SCM st) v = Some en \<and> scalarsInitialized en)"
      by (auto simp: filled_def split: option.splits)
    from obtain_filled_or_constant [OF o this] show ?thesis
      by (simp add: markRemoved_def replaceAllUsesWith_def comp_def case_prod_unfold)
  qed
  from o len d ue rm same emit
  show "\<exists>lanes c st1 st'.
      obtainScalarizedValues st v = Inr (lanes, c, st1) \<and> length lanes = w \<and>
      dispatchInstructionToScalarize st I = Inr st' \<and>
      st' = markRemoved I (st1\<lparr>m_currFunc :=
              replaceAllUsesWith (self I EI) (lanes ! trunc32 k) (m_currFunc st1)\<rparr>) \<and>
      use_empty (m_currFunc st') (self I EI) \<and>
      I \<in> set (m_removedInsts st') \<and>
      (filled st v \<or> isConstant v \<longrightarrow>
         st1 = st \<and>
         map fst (insts (m_currFunc st')) = map fst (insts (m_currFunc st)) \<and>
         blocks (m_currFunc st') = blocks (m_currFunc st)) \<and>
      (\<not> filled st v \<and> \<not> isConstant v \<longrightarrow>
         lanes = map (\<lambda>j. VInst (next_id (m_currFunc st) + j) e) [0..<w] \<and>
         (\<forall>j<w. inst_of (m_currFunc st) (next_id (m_currFunc st) + j) = None \<and>
                 inst_of (m_currFunc st1) (next_id (m_currFunc st) + j) =
                   Some (laneInst st v e j)) \<and>
         (\<forall>i<next_id (m_currFunc st).
            inst_of (m_currFunc st1) i = inst_of (m_currFunc st) i))"
    by blast
qed

theorem extractelement_rule_witness:
  "dispatchInstructionToScalarize (initPass False dl0 extractLane) 0 = Inr extractLaneState \<and>
   sourceReady extractLaneState 1
     (mk_inst ExtractElement (IntTy 32) [VInst 0 v2i32, i32 0]) (VInst 0 v2i32) 0 \<and>
   filled extractLaneState (VInst 0 v2i32) \<and>
   (case dispatchInstructionToScalarize extractLaneState 1 of
      Inl err \<Rightarrow> False
    | Inr st' \<Rightarrow>
        m_currFunc st' =
          replaceAllUsesWith (VInst 1 (IntTy 32)) (VArg 0 (IntTy 32)) extractLane \<and>
        use_empty (m_currFunc st') (VInst 1 (IntTy 32)) \<and>
        map fst (insts (m_currFunc st')) = [0, 1, 2] \<and>
        m_removedInsts st' = [0, 1]) \<and>
   sourceReady (initPass False dl0 extractArg) 0
     (mk_inst ExtractElement (IntTy 32) [VArg 0 v2i32, i32 0]) (VArg 0 v2i32) 0 \<and>
   \<not> filled (initPass False dl0 extractArg) (VArg 0 v2i32) \<and>
   (case dispatchInstructionToScalarize (initPass False dl0 extractArg) 0 of
      Inl err \<Rightarrow> False
    | Inr st' \<Rightarrow>
        inst_of (m_currFunc st') 1 = Some (mk_inst (OtherOp 0) VoidTy [VInst 2 (IntTy 32)]) \<and>
        inst_of (m_currFunc st') 2 =
          Some (mk_inst ExtractElement (IntTy 32) [VArg 0 v2i32, i32 0]) \<and>
        inst_of (m_currFunc st') 3 =
          Some (mk_inst ExtractElement (IntTy 32) [VArg 0 v2i32, i32 1]) \<and>
        use_empty (m_currFunc st') (VInst 0 (IntTy 32)) \<and>
        m_removedInsts st' = [0]) \<and>
   (case dispatchInstructionToScalarize (initPass False dl0 extractVar) 0 of
      Inl err \<Rightarrow> False
    | Inr st' \<Rightarrow>
        m_currFunc st' = extractVar \<and> m_removedInsts st' = [] \<and>
        set (m_usedVectors st') = {VArg 0 v2i32})"
proof -
  let ?EI = "mk_inst ExtractElement (IntTy 32) [VInst 0 v2i32, i32 0]"
  let ?sl = extractLaneState
  have r: "dispatchInstructionToScalarize (initPass False dl0 extractLane) 0 = Inr ?sl"
    by (simp add: extractLane_def extractLaneState_def eval_defs)
  have a: "inst_of (m_currFunc ?sl) 1 = Some ?EI"
    by (simp add: extractLaneState_def extractLane_def initPass_def inst_of_def)
  have b: "1 \<notin> set (m_removedInsts ?sl)"
    by (simp add: extractLaneState_def)
  have oc: "opcode ?EI = ExtractElement" and op: "operands ?EI = [VInst 0 v2i32, i32 0]"
    by (simp_all add: mk_inst_def)
  have sr: "sourceReady ?sl 1 ?EI (VInst 0 v2i32) 0"
    by (simp add: sourceReady_def laneInvariant_def freshIds_def scalarsInitialized_def
        self_def mk_inst_def extractLaneState_def extractLane_def initPass_def ir_defs
        v2i32_def)
  have fl: "filled ?sl (VInst 0 v2i32)"
    by (simp add: filled_def extractLaneState_def scalarsInitialized_def)
  have o: "obtainScalarizedValues ?sl (VInst 0 v2i32) =
      Inr ([VArg 0 (IntTy 32), VUndef (IntTy 32)], False, ?sl)"
    by (simp add: extractLaneState_def eval_defs)
  have h: "i32 0 = VConstInt (IntTy 32) 0 \<and> type_of (VInst 0 v2i32) = VectorTy (IntTy 32) 2 \<and>
      trunc32 0 < 2 \<and> sourceReady ?sl 1 ?EI (VInst 0 v2i32) (trunc32 0)"
    using sr by (simp add: i32_def v2i32_def trunc32_def)
  from extractelement_rule [of ?sl 1 ?EI "VInst 0 v2i32" "i32 0" "IntTy 32" 0 "IntTy 32" 2,
      OF a oc op b, THEN conjunct2, rule_format, OF h] fl
  obtain lanes c st1 st' where
    o': "obtainScalarizedValues ?sl (VInst 0 v2i32) = Inr (lanes, c, st1)"
    and d: "dispatchInstructionToScalarize ?sl 1 = Inr st'"
    and s: "st' = markRemoved 1 (st1\<lparr>m_currFunc :=
              replaceAllUsesWith (self 1 ?EI) (lanes ! trunc32 0) (m_currFunc st1)\<rparr>)"
    and ue: "use_empty (m_currFunc st') (self 1 ?EI)"
    and same: "st1 = ?sl"
      "map fst (insts (m_currFunc st')) = map fst (insts (m_currFunc ?sl))"
    by blast
  from o o' have l: "lanes = [VArg 0 (IntTy 32), VUndef (IntTy 32)]" by simp
  have one: "case dispatchInstructionToScalarize ?sl 1 of
      Inl err \<Rightarrow> False
    | Inr st' \<Rightarrow>
        m_currFunc st' =
          replaceAllUsesWith (VInst 1 (IntTy 32)) (VArg 0 (IntTy 32)) extractLane \<and>
        use_empty (m_currFunc st') (VInst 1 (IntTy 32)) \<and>
        map fst (insts (m_currFunc st')) = [0, 1, 2] \<and>
        m_removedInsts st' = [0, 1]"
    unfolding d using ue same(2) unfolding s same(1) l
    by (simp add: self_def mk_inst_def trunc32_def markRemoved_def set_insert_def
        extractLaneState_def initPass_def extractLane_def)
  let ?EA = "mk_inst ExtractElement (IntTy 32) [VArg 0 v2i32, i32 0]"
  let ?sa = "initPass False dl0 extractArg"
  have a2: "inst_of (m_currFunc ?sa) 0 = Some ?EA"
    by (simp add: extractArg_def initPass_def inst_of_def)
  have b2: "0 \<notin> set (m_removedInsts ?sa)"
    by (simp add: initPass_def)
  have oc2: "opcode ?EA = ExtractElement" and op2: "operands ?EA = [VArg 0 v2i32, i32 0]"
    by (simp_all add: mk_inst_def)
  have sr2: "sourceReady ?sa 0 ?EA (VArg 0 v2i32) 0"
    by (simp add: sourceReady_def laneInvariant_def freshIds_def
        extractArg_def initPass_def ir_defs)
  have nf2: "\<not> filled ?sa (VArg 0 v2i32)"
    by (simp add: filled_def initPass_def)
  have nc2: "\<not> isConstant (VArg 0 v2i32)" by simp
  have h2: "i32 0 = VConstInt (IntTy 32) 0 \<and> type_of (VArg 0 v2i32) = VectorTy (IntTy 32) 2 \<and>
      trunc32 0 < 2 \<and> sourceReady ?sa 0 ?EA (VArg 0 v2i32) (trunc32 0)"
    using sr2 by (simp add: i32_def v2i32_def trunc32_def)
  have n2: "next_id (m_currFunc ?sa) = 2"
    by (simp add: extractArg_def initPass_def)
  from extractelement_rule [of ?sa 0 ?EA "VArg 0 v2i32" "i32 0" "IntTy 32" 0 "IntTy 32" 2,
      OF a2 oc2 op2 b2, THEN conjunct2, rule_format, OF h2] nf2 nc2
  obtain lanes2 c2 st2 st2' where
    d2: "dispatchInstructionToScalarize ?sa 0 = Inr st2'"
    and s2: "st2' = markRemoved 0 (st2\<lparr>m_currFunc :=
              replaceAllUsesWith (self 0 ?EA) (lanes2 ! trunc32 0) (m_currFunc st2)\<rparr>)"
    and ue2: "use_empty (m_currFunc st2') (self 0 ?EA)"
    and l2: "lanes2 = map (\<lambda>j. VInst (next_id (m_currFunc ?sa) + j) (IntTy 32)) [0..<2]"
    and new2: "\<forall>j<2. inst_of (m_currFunc ?sa) (next_id (m_currFunc ?sa) + j) = None \<and>
                inst_of (m_currFunc st2) (next_id (m_currFunc ?sa) + j) =
                  Some (laneInst ?sa (VArg 0 v2i32) (IntTy 32) j)"
    and old2: "\<forall>i<next_id (m_currFunc ?sa).
                 inst_of (m_currFunc st2) i = inst_of (m_currFunc ?sa) i"
    by blast
  from l2 have lane: "lanes2 ! trunc32 0 = VInst 2 (IntTy 32)"
    unfolding n2 by (simp add: trunc32_def upt_0_2)
  from new2 [rule_format, of 0] new2 [rule_format, of 1]
  have i23: "inst_of (m_currFunc st2) 2 = Some (mk_inst ExtractElement (IntTy 32) [VArg 0 v2i32, i32 0])"
    "inst_of (m_currFunc st2) 3 = Some (mk_inst ExtractElement (IntTy 32) [VArg 0 v2i32, i32 1])"
    unfolding n2 by (simp_all add: laneInst_def)
  from old2 [rule_format, of 1]
  have i1: "inst_of (m_currFunc st2) 1 = Some (mk_inst (OtherOp 0) VoidTy [VInst 0 (IntTy 32)])"
    unfolding n2 by (simp add: extractArg_def initPass_def inst_of_def)
  have rm2: "m_removedInsts st2' = [0]"
    using d2 by (simp add: extractArg_def eval_defs) auto
  have two: "case dispatchInstructionToScalarize ?sa 0 of
      Inl err \<Rightarrow> False
    | Inr st' \<Rightarrow>
        inst_of (m_currFunc st') 1 = Some (mk_inst (OtherOp 0) VoidTy [VInst 2 (IntTy 32)]) \<and>
        inst_of (m_currFunc st') 2 =
          Some (mk_inst ExtractElement (IntTy 32) [VArg 0 v2i32, i32 0]) \<and>
        inst_of (m_currFunc st') 3 =
          Some (mk_inst ExtractElement (IntTy 32) [VArg 0 v2i32, i32 1]) \<and>
        use_empty (m_currFunc st') (VInst 0 (IntTy 32)) \<and>
        m_removedInsts st' = [0]"
    unfolding d2 using ue2 rm2 i1 i23 unfolding s2 lane
    by (simp add: self_def mk_inst_def markRemoved_def replaceAllUsesWith_spec redirect_def
        v2i32_def i32_def)
  let ?EV = "mk_inst ExtractElement (IntTy 32) [VArg 0 v2i32, VArg 1 (IntTy 32)]"
  have c: "inst_of (m_currFunc (initPass False dl0 extractVar)) 0 = Some ?EV"
    by (simp add: extractVar_def initPass_def inst_of_def)
  have nci: "\<not> isConstantInt (VArg 1 (IntTy 32))" by simp
  have e: "0 \<notin> set (m_removedInsts (initPass False dl0 extractVar))"
    by (simp add: initPass_def)
  have oc': "opcode ?EV = ExtractElement"
    and op': "operands ?EV = [VArg 0 v2i32, VArg 1 (IntTy 32)]"
    by (simp_all add: mk_inst_def)
  from extractelement_rule [of "initPass False dl0 extractVar" 0 ?EV "VArg 0 v2i32"
      "VArg 1 (IntTy 32)", OF c oc' op' e, THEN conjunct1, rule_format, OF nci]
  obtain st3 where d3: "dispatchInstructionToScalarize (initPass False dl0 extractVar) 0 = Inr st3"
    and f3: "m_currFunc st3 = m_currFunc (initPass False dl0 extractVar)"
      "m_removedInsts st3 = m_removedInsts (initPass False dl0 extractVar)"
      "set (m_usedVectors st3) =
         set (m_usedVectors (initPass False dl0 extractVar)) \<union>
         {x \<in> {VArg 0 v2i32, VArg 1 (IntTy 32)}. isVectorTy (type_of x)}"
    by blast
  have vs: "{x \<in> {VArg 0 v2i32, VArg 1 (IntTy 32)}. isVectorTy (type_of x)} = {VArg 0 v2i32}"
    by (auto simp: v2i32_def)
  have three: "case dispatchInstructionToScalarize (initPass False dl0 extractVar) 0 of
      Inl err \<Rightarrow> False
    | Inr st' \<Rightarrow>
        m_currFunc st' = extractVar \<and> m_removedInsts st' = [] \<and>
        set (m_usedVectors st') = {VArg 0 v2i32}"
    using f3 unfolding d3 vs by (simp add: initPass_def)
  show ?thesis by (intro conjI r sr fl one sr2 nf2 two three)
qed

end
